(* ===== verification/Prelude.thy ===== *)
theory Prelude
  imports Main "HOL-Library.Word" "HOL-Library.Multiset"
begin

text \<open>
  Shared vocabulary of the development: the machine types of the Go program, the result of
  running Go code that may panic, C strings, and the generic list lemmas the components use.

  \<^item> \<open>byte\<close>, \<open>u16\<close>, \<open>u32\<close>, \<open>u64\<close> are Go's fixed-width unsigned
    integers; \<open>gostring\<close> is the sequence of bytes of a Go string.
  \<^item> \<open>outcome\<close> is what a run of Go code ends in: a value, a panic, or no end at all.
  \<^item> \<open>err\<close> is Go's \<open>error\<close> as this program uses it: an errno of a system call or one
    of the package's three sentinel errors; the nil error is \<open>None\<close> of \<open>err option\<close>.
\<close>

named_theorems mem_simps "reading, writing and allocating blocks of the Go heap"
named_theorems keeps_dest "what an operation that only adds cells keeps"
named_theorems model_defs "definitions a concrete evaluation unfolds"

section \<open>Machine types and run results\<close>

type_synonym byte = "8 word"
type_synonym u16 = "16 word"
type_synonym u32 = "32 word"
type_synonym u64 = "64 word"
type_synonym gostring = "byte list"
type_synonym errno = nat

datatype err =
    Errno errno
  | ErrSymlinkCycle
  | ErrNoDevInoInfo
  | ErrDanglingSymlink

text \<open>
  The run-time panics the program can raise: a nil pointer dereference, an index out of
  range, a negative length given to \<open>unsafe.Slice\<close>, a length or a capacity out of range
  given to \<open>make\<close>; \<open>OutOfBuffer\<close> stands for an access through an unsafe pointer outside its
  buffer, which Go does not check.
\<close>

datatype panic =
    NilDeref
  | IndexOutOfRange
  | NegativeLen
  | MakeSliceLen
  | MakeSliceCap
  | OutOfBuffer

text \<open>
  \<open>make([]T, n)\<close> panics when \<open>n\<close> is negative or when \<open>n\<close> elements take more than \<open>maxAlloc\<close>
  bytes, the size of the address space of the Go runtime on 64-bit Linux (amd64, arm64).
\<close>

definition maxAlloc :: int where
  "maxAlloc = 2 ^ 48"

definition make_fits :: "int \<Rightarrow> int \<Rightarrow> bool" where
  "make_fits elem n \<longleftrightarrow> 0 \<le> n \<and> elem * n \<le> maxAlloc"

datatype 'a outcome = Ret 'a | Panic panic | Diverge

fun obind :: "'a outcome \<Rightarrow> ('a \<Rightarrow> 'b outcome) \<Rightarrow> 'b outcome" where
  "obind (Ret x) f = f x"
| "obind (Panic p) f = Panic p"
| "obind Diverge f = Diverge"

fun outcome_of :: "'a outcome option \<Rightarrow> 'a outcome" where
  "outcome_of None = Diverge"
| "outcome_of (Some r) = r"

lemma obind_Ret_iff: "obind r f = Ret y \<longleftrightarrow> (\<exists>x. r = Ret x \<and> f x = Ret y)"
  by (cases r) auto

lemma obind_RetE [elim]:
  assumes "obind r f = Ret y"
  obtains x where "r = Ret x" and "f x = Ret y"
  using assms by (auto simp: obind_Ret_iff)

lemma obind_Ret_right [simp]: "obind r Ret = r"
  by (cases r) auto

lemma obind_assoc: "obind (obind r f) g = obind r (\<lambda>x. obind (f x) g)"
  by (cases r) auto

section \<open>C strings\<close>

text \<open>What the kernel reads of a byte sequence handed over as a C string.\<close>

definition cstr :: "byte list \<Rightarrow> byte list" where
  "cstr bs = takeWhile (\<lambda>b. b \<noteq> 0) bs"

lemma cstr_no_nul: "0 \<notin> set bs \<Longrightarrow> cstr (bs @ 0 # rest) = bs"
  unfolding cstr_def by (subst takeWhile_append2) auto

lemma cstr_nul: "0 \<in> set bs \<Longrightarrow> cstr (bs @ rest) = cstr bs"
  unfolding cstr_def by (rule takeWhile_append1) auto

lemma cstr_id: "0 \<notin> set bs \<Longrightarrow> cstr bs = bs"
  by (auto simp: cstr_def takeWhile_eq_all_conv)

lemma cstr_append_nul: "cstr (bs @ 0 # rest) = cstr bs"
  by (cases "0 \<in> set bs") (auto simp: cstr_no_nul cstr_nul cstr_id)

lemma set_cstr: "0 \<notin> set (cstr bs)"
  unfolding cstr_def by (auto dest: set_takeWhileD)

lemma cstr_subset: "set (cstr bs) \<subseteq> set bs"
  unfolding cstr_def by (auto dest: set_takeWhileD)

section \<open>A bound that a wrapping successor never exceeds\<close>

lemma depth_never_iff: "(\<forall>d. \<not> (m \<noteq> 0 \<and> d + 1 > m)) \<longleftrightarrow> m = 0 \<or> m = - (1 :: u32)"
proof
  assume "\<forall>d. \<not> (m \<noteq> 0 \<and> d + 1 > m)"
  then have m: "m \<noteq> 0 \<Longrightarrow> m + 1 \<le> m" by (auto simp: not_less)
  have "m = - 1" if "m \<noteq> 0"
  proof (rule ccontr)
    assume "m \<noteq> - 1"
    then have "1 + m \<noteq> 0" by (metis add_eq_0_iff2 add.commute)
    then have "unat (m + 1) = Suc (unat m)" using unatSuc [of m] by (simp add: add.commute)
    then show False using m [OF that] by (simp add: word_le_nat_alt)
  qed
  then show "m = 0 \<or> m = - 1" by auto
qed (auto simp: not_less)

section \<open>Lists\<close>

lemma map_fun_upd_upt [simp]:
  "j \<notin> {a..<b} \<Longrightarrow> map (f(j := x)) [a..<b] = map f [a..<b]"
  by auto

lemma upt_split: "i \<le> j \<Longrightarrow> j < l \<Longrightarrow> [i..<l] = [i..<j] @ j # [Suc j..<l]"
  using upt_add_eq_append [of i j "l - j"] by (simp add: upt_conv_Cons)

lemma map_nth_offset: "map (\<lambda>i. xs ! (i - a)) [a..<a + length xs] = xs"
  by (rule nth_equalityI) auto

lemma list_all2_mono_set:
  assumes "list_all2 P xs ys" and "\<And>x y. x \<in> set xs \<Longrightarrow> P x y \<Longrightarrow> Q x y"
  shows "list_all2 Q xs ys"
  using assms by (induction rule: list_all2_induct) auto

lemma list_all2_in2: "list_all2 P xs ys \<Longrightarrow> y \<in> set ys \<Longrightarrow> \<exists>x \<in> set xs. P x y"
  by (induction rule: list_all2_induct) auto

lemma mset_map_cong: "mset xs = mset ys \<Longrightarrow> mset (map f xs) = mset (map f ys)"
  by simp

lemma mset_concat_cong: "mset xs = mset ys \<Longrightarrow> mset (concat (map f xs)) = mset (concat (map f ys))"
  by (simp add: mset_concat sum_mset_sum_list [symmetric] image_mset.compositionality [symmetric] del: sum_mset_sum_list)

lemma mset_remove_nth:
  "i < length xs \<Longrightarrow> add_mset (xs ! i) (mset (take i xs @ drop (Suc i) xs)) = mset xs"
  using arg_cong [OF id_take_nth_drop, of i xs mset] by simp

end
