(* ===== verification/Go_Memory.thy ===== *)
theory Go_Memory
  imports Prelude
begin

text \<open>
  The Go heap as the arenas of walkman see it. A heap of element type \<open>'a\<close> is a sequence of
  allocated blocks; a block is an array of fixed length, and its address is its number. A
  \<open>span\<close> is a window of a block: the backing of a Go slice or string (pointer and length).
  The capacity of a slice cut out of a block with a two-index expression is what is left of
  the block from its offset on, so it is not stored.

  An arena is a pair of a tail block and a fill mark. Cells of a tail block at or past the
  mark are free (and still zero); every other cell of the heap is frozen. \<open>keeps\<close> is the
  contract all append-only stores of the program share: no frozen cell changes, and no
  frozen cell is freed.
\<close>

section \<open>Blocks and spans\<close>

record 'a mem =
  mlens :: "nat list"
  mcell :: "nat \<Rightarrow> nat \<Rightarrow> 'a"

datatype span = Span (sp_blk: nat) (sp_off: nat) (sp_len: nat)

definition empty_mem :: "'a \<Rightarrow> 'a mem" where
  "empty_mem z = \<lparr>mlens = [], mcell = (\<lambda>_ _. z)\<rparr>"

definition mem_alloc :: "nat \<Rightarrow> 'a \<Rightarrow> 'a mem \<Rightarrow> nat \<times> 'a mem" where
  "mem_alloc n z m =
     (length (mlens m),
      m\<lparr>mlens := mlens m @ [n], mcell := (mcell m)(length (mlens m) := (\<lambda>_. z))\<rparr>)"

definition mem_write :: "nat \<Rightarrow> nat \<Rightarrow> 'a list \<Rightarrow> 'a mem \<Rightarrow> 'a mem" where
  "mem_write b k ys m =
     m\<lparr>mcell := (mcell m)(b := (\<lambda>i. if k \<le> i \<and> i < k + length ys then ys ! (i - k)
                                          else mcell m b i))\<rparr>"

fun mem_read :: "'a mem \<Rightarrow> span \<Rightarrow> 'a list" where
  "mem_read m (Span b k n) = map (mcell m b) [k..<k + n]"

lemma length_mem_read [simp]: "length (mem_read m s) = sp_len s"
  by (cases s) simp

lemma mlens_mem_write [simp]: "mlens (mem_write b k ys m) = mlens m"
  by (simp add: mem_write_def)

lemma mcell_mem_write [mem_simps]:
  "mcell (mem_write b k ys m) b' i =
     (if b' = b \<and> k \<le> i \<and> i < k + length ys then ys ! (i - k) else mcell m b' i)"
  by (simp add: mem_write_def)

lemma mem_read_write_same:
  "mem_read (mem_write b k ys m) (Span b k (length ys)) = ys"
  by (rule nth_equalityI) (auto simp: mcell_mem_write)

lemma mem_write_Nil [simp]: "mem_write b k [] m = m"
proof -
  have "mcell (mem_write b k [] m) = mcell m"
    by (intro ext) (auto simp: mcell_mem_write)
  then show ?thesis by (simp add: mem_write_def)
qed

lemma mem_write_append:
  "mem_write b (k + length xs) ys (mem_write b k xs m) = mem_write b k (xs @ ys) m"
proof -
  have "mcell (mem_write b (k + length xs) ys (mem_write b k xs m)) =
        mcell (mem_write b k (xs @ ys) m)"
    by (intro ext) (auto simp: mcell_mem_write nth_append)
  then show ?thesis by (simp add: mem_write_def)
qed

section \<open>Frozen cells and the append-only contract\<close>

type_synonym arena = "nat \<times> nat"

definition frozen :: "arena list \<Rightarrow> 'a mem \<Rightarrow> nat \<Rightarrow> nat \<Rightarrow> bool" where
  "frozen as m b i \<longleftrightarrow>
     b < length (mlens m) \<and> i < mlens m ! b \<and> (\<forall>(t, k) \<in> set as. t = b \<longrightarrow> i < k)"

definition span_ok :: "arena list \<Rightarrow> 'a mem \<Rightarrow> span \<Rightarrow> bool" where
  "span_ok as m s \<longleftrightarrow>
     sp_blk s < length (mlens m) \<and> sp_off s + sp_len s \<le> mlens m ! sp_blk s \<and>
     (\<forall>i. sp_off s \<le> i \<and> i < sp_off s + sp_len s \<longrightarrow> frozen as m (sp_blk s) i)"

definition arena_ok :: "'a \<Rightarrow> 'a mem \<Rightarrow> arena \<Rightarrow> bool" where
  "arena_ok z m a \<longleftrightarrow>
     fst a < length (mlens m) \<and> snd a \<le> mlens m ! fst a \<and>
     (\<forall>i. snd a \<le> i \<and> i < mlens m ! fst a \<longrightarrow> mcell m (fst a) i = z)"

definition arenas_ok :: "'a \<Rightarrow> arena list \<Rightarrow> 'a mem \<Rightarrow> bool" where
  "arenas_ok z as m \<longleftrightarrow> distinct (map fst as) \<and> (\<forall>a \<in> set as. arena_ok z m a)"

definition keeps :: "arena list \<Rightarrow> 'a mem \<Rightarrow> arena list \<Rightarrow> 'a mem \<Rightarrow> bool" where
  "keeps as m as' m' \<longleftrightarrow>
     length (mlens m) \<le> length (mlens m') \<and>
     (\<forall>b < length (mlens m). mlens m' ! b = mlens m ! b) \<and>
     (\<forall>b i. frozen as m b i \<longrightarrow> frozen as' m' b i \<and> mcell m' b i = mcell m b i)"

lemma keeps_refl [simp]: "keeps as m as m"
  by (simp add: keeps_def)

lemma keeps_trans:
  "keeps as m as' m' \<Longrightarrow> keeps as' m' as'' m'' \<Longrightarrow> keeps as m as'' m''"
  unfolding keeps_def by (metis order_less_le_trans order_trans)

lemma keeps_span_ok [keeps_dest]:
  assumes "keeps as m as' m'" and "span_ok as m s"
  shows "span_ok as' m' s"
  using assms unfolding keeps_def span_ok_def
  by (metis order_less_le_trans)

lemma keeps_read [keeps_dest]:
  assumes "keeps as m as' m'" and "span_ok as m s"
  shows "mem_read m' s = mem_read m s"
  using assms unfolding keeps_def span_ok_def by (cases s) auto

lemma span_ok_sub:
  assumes "span_ok as m (Span b k n)" and "k \<le> k'" and "k' + n' \<le> k + n"
  shows "span_ok as m (Span b k' n')"
  using assms unfolding span_ok_def by auto

section \<open>Claiming room and writing it\<close>

text \<open>
  The growth rule all of walkman's arenas share: a request larger than a node gets a block
  of its own, a request that does not fit what is left of the tail starts a fresh node, and
  any other request moves the fill mark.
\<close>

definition arena_claim ::
  "nat \<Rightarrow> 'a \<Rightarrow> nat \<Rightarrow> arena \<Rightarrow> 'a mem \<Rightarrow> span \<times> arena \<times> 'a mem" where
  "arena_claim N z n a m =
     (if N < n then (Span (length (mlens m)) 0 n, a, snd (mem_alloc n z m))
      else if N - snd a < n
        then (Span (length (mlens m)) 0 n, (length (mlens m), n), snd (mem_alloc N z m))
      else (Span (fst a) (snd a) n, (fst a, snd a + n), m))"

definition arena_put ::
  "nat \<Rightarrow> 'a \<Rightarrow> nat \<Rightarrow> 'a list \<Rightarrow> arena \<Rightarrow> 'a mem \<Rightarrow> span \<times> arena \<times> 'a mem" where
  "arena_put N z n ys a m =
     (case arena_claim N z n a m of
        (s, a', m') \<Rightarrow> (s, a', mem_write (sp_blk s) (sp_off s) ys m'))"

text \<open>The facts a claim of \<open>n\<close> cells by arena number \<open>i\<close> establishes.\<close>

definition claimed ::
  "'a \<Rightarrow> arena list \<Rightarrow> 'a mem \<Rightarrow> arena list \<Rightarrow> 'a mem \<Rightarrow> span \<Rightarrow> bool" where
  "claimed z as m as' m' s \<longleftrightarrow>
     arenas_ok z as' m' \<and> keeps as m as' m' \<and> span_ok as' m' s \<and>
     (\<forall>i. sp_off s \<le> i \<and> i < sp_off s + sp_len s \<longrightarrow>
        \<not> frozen as m (sp_blk s) i \<and> mcell m' (sp_blk s) i = z)"

lemma mem_alloc_simps [mem_simps]:
  "mlens (snd (mem_alloc n z m)) = mlens m @ [n]"
  "mcell (snd (mem_alloc n z m)) b i = (if b = length (mlens m) then z else mcell m b i)"
  by (simp_all add: mem_alloc_def)

lemma set_list_update_iff:
  "i < length xs \<Longrightarrow> distinct (map fst xs) \<Longrightarrow>
     p \<in> set (xs[i := q]) \<longleftrightarrow> p = q \<or> (p \<in> set xs \<and> fst p \<noteq> fst (xs ! i))"
  unfolding in_set_conv_nth
  by (auto simp: nth_list_update distinct_conv_nth)

lemma claim_new_block:
  assumes ok: "arenas_ok z as m"
  shows "claimed z as m as (snd (mem_alloc n z m)) (Span (length (mlens m)) 0 n)"
proof -
  have old: "t < length (mlens m)" if "(t, k) \<in> set as" for t k
    using ok that by (auto simp: arenas_ok_def arena_ok_def)
  then show ?thesis
    using ok
    by (auto simp: claimed_def arenas_ok_def arena_ok_def keeps_def span_ok_def frozen_def
        mem_simps nth_append; fastforce)
qed

lemma claim_new_node:
  assumes ok: "arenas_ok z as m" and i: "i < length as" and n: "n \<le> N"
  shows "claimed z as m (as[i := (length (mlens m), n)]) (snd (mem_alloc N z m))
           (Span (length (mlens m)) 0 n)"
proof -
  let ?a = "(length (mlens m), n)" and ?m = "snd (mem_alloc N z m)"
  have old: "t < length (mlens m)" if "(t, k) \<in> set as" for t k
    using ok that by (auto simp: arenas_ok_def arena_ok_def)
  have d: "distinct (map fst as)" using ok by (simp add: arenas_ok_def)
  have mem: "p \<in> set (as[i := ?a]) \<longleftrightarrow> p = ?a \<or> (p \<in> set as \<and> fst p \<noteq> fst (as ! i))" for p
    using i d by (rule set_list_update_iff)
  have "distinct (map fst (as[i := ?a]))"
    unfolding map_update using d old by (intro distinct_list_update) (auto, fastforce)
  moreover have "\<forall>a \<in> set (as[i := ?a]). arena_ok z ?m a"
    using ok n old
    by (auto simp: mem arenas_ok_def arena_ok_def mem_simps nth_append dest!: bspec)
  ultimately show ?thesis
    using old n
    by (auto simp: claimed_def arenas_ok_def keeps_def span_ok_def frozen_def mem_simps
        nth_append mem; fastforce)
qed

lemma claim_tail:
  assumes ok: "arenas_ok z as m" and i: "i < length as" and a: "as ! i = (t, k)"
    and n: "k + n \<le> mlens m ! t"
  shows "claimed z as m (as[i := (t, k + n)]) m (Span t k n)"
proof -
  have d: "distinct (map fst as)" using ok by (simp add: arenas_ok_def)
  have inas: "(t, k) \<in> set as" using i a by (metis nth_mem)
  have mem: "p \<in> set (as[i := (t, k + n)]) \<longleftrightarrow> p = (t, k + n) \<or> (p \<in> set as \<and> fst p \<noteq> t)" for p
    using set_list_update_iff [OF i d, of p "(t, k + n)"] a by simp
  have "map fst (as[i := (t, k + n)]) = map fst as"
    using i a by (auto simp: map_update intro!: list_update_same_conv [THEN iffD2])
  then have "distinct (map fst (as[i := (t, k + n)]))" using d by simp
  moreover have "\<forall>a \<in> set (as[i := (t, k + n)]). arena_ok z m a"
    using ok n inas by (fastforce simp: mem arenas_ok_def arena_ok_def)
  moreover have t: "t < length (mlens m)" "\<And>i. k \<le> i \<Longrightarrow> i < mlens m ! t \<Longrightarrow> mcell m t i = z"
    using ok inas by (auto simp: arenas_ok_def arena_ok_def)
  moreover have fr: "frozen (as[i := (t, k + n)]) m b j" if "frozen as m b j" for b j
    using that inas unfolding frozen_def by (fastforce simp: mem)
  moreover have "frozen (as[i := (t, k + n)]) m t j" if "k \<le> j" "j < k + n" for j
    using that t(1) n unfolding frozen_def by (auto simp: mem)
  moreover have "\<not> frozen as m t j" if "k \<le> j" for j
    using that inas by (force simp: frozen_def)
  ultimately show ?thesis
    using n by (simp add: claimed_def arenas_ok_def keeps_def span_ok_def)
qed

definition arenas_wf :: "nat \<Rightarrow> 'a \<Rightarrow> arena list \<Rightarrow> 'a mem \<Rightarrow> bool" where
  "arenas_wf N z as m \<longleftrightarrow> arenas_ok z as m \<and> (\<forall>a \<in> set as. mlens m ! fst a = N)"

lemma arenas_wf_nth:
  "arenas_wf N z as m \<Longrightarrow> i < length as \<Longrightarrow>
     fst (as ! i) < length (mlens m) \<and> snd (as ! i) \<le> N \<and> mlens m ! fst (as ! i) = N"
  using nth_mem [of i as] by (force simp: arenas_wf_def arenas_ok_def arena_ok_def)

lemma arena_claim_claimed:
  assumes wf: "arenas_wf N z as m" and i: "i < length as"
    and eq: "arena_claim N z n (as ! i) m = (s, a', m')"
  shows "claimed z as m (as[i := a']) m' s" and "sp_len s = n" and "mlens m' ! fst a' = N"
proof -
  obtain t k where a: "as ! i = (t, k)" by (cases "as ! i")
  have ok: "arenas_ok z as m" and t: "t < length (mlens m)" and k: "k \<le> N" and N: "mlens m ! t = N"
    using wf arenas_wf_nth [OF wf i] a by (auto simp: arenas_wf_def)
  consider (big) "N < n" | (node) "n \<le> N" "N - k < n" | (tail) "n \<le> N" "n \<le> N - k"
    by linarith
  then have "claimed z as m (as[i := a']) m' s \<and> sp_len s = n \<and> mlens m' ! fst a' = N"
  proof cases
    case big
    then show ?thesis
      using eq claim_new_block [OF ok, of n] t N a [THEN arg_cong, of fst]
      by (auto simp: arena_claim_def mem_simps nth_append)
  next
    case node
    then show ?thesis
      using eq claim_new_node [OF ok i, of n N] a by (auto simp: arena_claim_def mem_simps)
  next
    case tail
    then show ?thesis
      using eq claim_tail [OF ok i a, of n] a k N by (auto simp: arena_claim_def)
  qed
  then show "claimed z as m (as[i := a']) m' s" and "sp_len s = n" and "mlens m' ! fst a' = N"
    by auto
qed

lemma claimed_write:
  assumes c: "claimed z as m as' m' s" and len: "length ys \<le> sp_len s"
  defines "w \<equiv> mem_write (sp_blk s) (sp_off s) ys m'"
  shows "arenas_ok z as' w" and "keeps as m as' w" and "span_ok as' w s"
    and "mem_read w s = ys @ replicate (sp_len s - length ys) z"
proof -
  obtain b k n where s: "s = Span b k n" by (cases s)
  note c' = c [unfolded claimed_def s, simplified]
  have fr: "frozen as' w c i = frozen as' m' c i" for c i
    by (simp add: frozen_def w_def)
  have free: "\<not> (t = b \<and> k \<le> i \<and> i < k + length ys)" if "(t, f) \<in> set as'" "f \<le> i" for t f i
    using c' that len s by (fastforce simp: span_ok_def frozen_def)
  show "arenas_ok z as' w"
    using c' free by (fastforce simp: arenas_ok_def arena_ok_def w_def mcell_mem_write s)
  show "keeps as m as' w"
    using c' len by (auto simp: keeps_def fr) (auto simp: w_def mcell_mem_write s)
  show "span_ok as' w s"
    using c' by (simp add: span_ok_def fr s) (simp add: w_def)
  show "mem_read w s = ys @ replicate (sp_len s - length ys) z"
    using c' len
    by (intro nth_equalityI) (auto simp: s w_def mcell_mem_write nth_append)
qed

text \<open>
  The rule every store operation of the program is an instance of: arena \<open>i\<close> claims
  \<open>n\<close> cells and writes \<open>ys\<close> at their front.
\<close>

lemma arena_put_stored:
  assumes wf: "arenas_wf N z as m" and i: "i < length as" and len: "length ys \<le> n"
    and eq: "arena_put N z n ys (as ! i) m = (s, a', m')"
  shows "arenas_wf N z (as[i := a']) m'" and "keeps as m (as[i := a']) m'"
    and "span_ok (as[i := a']) m' s" and "sp_len s = n"
    and "mem_read m' s = ys @ replicate (n - length ys) z"
proof -
  obtain mc where cl: "arena_claim N z n (as ! i) m = (s, a', mc)"
    and m': "m' = mem_write (sp_blk s) (sp_off s) ys mc"
    using eq by (auto simp: arena_put_def split: prod.splits)
  note c = arena_claim_claimed [OF wf i cl]
  have len': "length ys \<le> sp_len s" using len c(2) by simp
  note w = claimed_write [OF c(1) len', folded m']
  show "keeps as m (as[i := a']) m'" "span_ok (as[i := a']) m' s" "sp_len s = n"
    "mem_read m' s = ys @ replicate (n - length ys) z"
    using w c(2) by auto
  have "mlens m' ! fst a = N" if "a \<in> set (as[i := a'])" for a
  proof -
    have "a = a' \<or> a \<in> set as" using that set_update_subset_insert by fastforce
    then show ?thesis
      using c(3) wf w(2) by (auto simp: m' arenas_wf_def arenas_ok_def arena_ok_def keeps_def)
  qed
  then show "arenas_wf N z (as[i := a']) m'" using w(1) by (simp add: arenas_wf_def)
qed

lemma arena_put_fresh:
  assumes wf: "arenas_wf N z as m" and i: "i < length as"
    and eq: "arena_put N z n ys (as ! i) m = (s, a', m')"
    and j: "sp_off s \<le> j" "j < sp_off s + sp_len s"
  shows "\<not> frozen as m (sp_blk s) j"
proof -
  obtain mc where cl: "arena_claim N z n (as ! i) m = (s, a', mc)"
    using eq by (auto simp: arena_put_def split: prod.splits)
  show ?thesis using arena_claim_claimed(1) [OF wf i cl] j by (simp add: claimed_def)
qed

text \<open>The cells of a span; those of an accepted span are frozen.\<close>

fun cells_of :: "span \<Rightarrow> (nat \<times> nat) set" where
  "cells_of (Span b k n) = {b} \<times> {k..<k + n}"

lemma span_ok_frozen: "span_ok as m s \<Longrightarrow> (b, j) \<in> cells_of s \<Longrightarrow> frozen as m b j"
  by (cases s) (auto simp: span_ok_def)

lemma cells_of_iff: "(b, j) \<in> cells_of s \<longleftrightarrow> b = sp_blk s \<and> sp_off s \<le> j \<and> j < sp_off s + sp_len s"
  by (cases s) auto

text \<open>A new arena on a fresh node joins the others.\<close>

lemma arena_new_node:
  assumes wf: "arenas_wf N z as m" and eq: "mem_alloc N z m = (b, m')"
  shows "arenas_wf N z (as @ [(b, 0)]) m'" and "keeps as m (as @ [(b, 0)]) m'"
proof -
  have m': "m' = snd (mem_alloc N z m)" and b: "b = length (mlens m)"
    using eq by (auto simp: mem_alloc_def)
  have old: "t < length (mlens m)" if "(t, k) \<in> set as" for t k
    using wf that by (auto simp: arenas_wf_def arenas_ok_def arena_ok_def)
  have nb: "b \<notin> fst ` set as" by (auto simp: b dest: old)
  show "arenas_wf N z (as @ [(b, 0)]) m'"
    using wf nb old
    by (auto simp: m' b arenas_wf_def arenas_ok_def arena_ok_def mem_simps nth_append; fastforce)
  show "keeps as m (as @ [(b, 0)]) m'"
    by (auto simp: m' b keeps_def frozen_def mem_simps nth_append)
qed

lemma arenas_wf_empty [simp]: "arenas_wf N z [] m"
  by (simp add: arenas_wf_def arenas_ok_def)

end
