(* ===== verification/Append_Store.thy ===== *)
theory Append_Store
  imports Go_Memory
begin

text \<open>
  The interface of walkman's stores: an operation \<open>put\<close> that copies a value into storage
  and hands back a handle, and a reader \<open>get\<close>. The laws are what the callers of the
  string store, the entry arena, the error accumulator and the ancestor store rely on: a put
  succeeds, its handle reads back what was stored, and no handle given out before is
  disturbed. \<open>cstring_store\<close> adds the terminator law of the \<open>Z\<close> variants.
\<close>

text \<open>A run of puts, the first failure ending it.\<close>

fun put_all :: "('v \<Rightarrow> 's \<Rightarrow> ('r \<times> 's) outcome) \<Rightarrow> 'v list \<Rightarrow> 's \<Rightarrow> ('r list \<times> 's) outcome" where
  "put_all put [] s = Ret ([], s)"
| "put_all put (v # vs) s =
     obind (put v s) (\<lambda>(r, s'). obind (put_all put vs s') (\<lambda>(rs, s''). Ret (r # rs, s'')))"

locale append_store =
  fixes inv :: "'s \<Rightarrow> bool"
    and pre :: "'s \<Rightarrow> 'v \<Rightarrow> bool"
    and put :: "'v \<Rightarrow> 's \<Rightarrow> ('r \<times> 's) outcome"
    and valid :: "'s \<Rightarrow> 'r \<Rightarrow> bool"
    and get :: "'s \<Rightarrow> 'r \<Rightarrow> 'c"
    and content :: "'s \<Rightarrow> 'v \<Rightarrow> 'c"
  assumes put_total: "inv s \<Longrightarrow> pre s v \<Longrightarrow> \<exists>r s'. put v s = Ret (r, s')"
    and put_inv: "inv s \<Longrightarrow> pre s v \<Longrightarrow> put v s = Ret (r, s') \<Longrightarrow> inv s'"
    and put_valid: "inv s \<Longrightarrow> pre s v \<Longrightarrow> put v s = Ret (r, s') \<Longrightarrow> valid s' r"
    and put_get: "inv s \<Longrightarrow> pre s v \<Longrightarrow> put v s = Ret (r, s') \<Longrightarrow> get s' r = content s v"
    and put_keeps_valid:
      "inv s \<Longrightarrow> pre s v \<Longrightarrow> put v s = Ret (r, s') \<Longrightarrow> valid s q \<Longrightarrow> valid s' q"
    and put_keeps_get:
      "inv s \<Longrightarrow> pre s v \<Longrightarrow> put v s = Ret (r, s') \<Longrightarrow> valid s q \<Longrightarrow> get s' q = get s q"
    and put_keeps_pre:
      "inv s \<Longrightarrow> pre s v \<Longrightarrow> put v s = Ret (r, s') \<Longrightarrow> pre s u \<Longrightarrow> pre s' u"
    and put_keeps_content:
      "inv s \<Longrightarrow> pre s v \<Longrightarrow> put v s = Ret (r, s') \<Longrightarrow> pre s u \<Longrightarrow> content s' u = content s u"
begin

lemmas put_keeps = put_keeps_valid put_keeps_get put_keeps_pre put_keeps_content

text \<open>
  Whatever is stored later, every handle of a run of puts reads back its own value at the
  end, and handles from before the run are undisturbed.
\<close>

lemma put_all_stable:
  assumes "inv s" and "\<And>v. v \<in> set vs \<Longrightarrow> pre s v"
  shows "\<exists>rs s'. put_all put vs s = Ret (rs, s') \<and> inv s' \<and>
           list_all2 (\<lambda>r v. valid s' r \<and> get s' r = content s v) rs vs \<and>
           (\<forall>q. valid s q \<longrightarrow> valid s' q \<and> get s' q = get s q)"
  using assms
proof (induction vs arbitrary: s)
  case Nil
  then show ?case by simp
next
  case (Cons v vs)
  then have p: "pre s v" by simp
  obtain r s1 where pv: "put v s = Ret (r, s1)"
    using put_total [OF Cons.prems(1) p] by blast
  note law = Cons.prems(1) p pv
  have pre1: "pre s1 u" if "u \<in> set vs" for u
    using put_keeps_pre [OF law] Cons.prems(2) that by simp
  obtain rs s2 where run: "put_all put vs s1 = Ret (rs, s2)" and inv2: "inv s2"
    and rd: "list_all2 (\<lambda>r v. valid s2 r \<and> get s2 r = content s1 v) rs vs"
    and kp: "\<And>q. valid s1 q \<Longrightarrow> valid s2 q \<and> get s2 q = get s1 q"
    using Cons.IH [OF put_inv [OF law] pre1] by blast
  have cont: "content s1 u = content s u" if "u \<in> set vs" for u
    using put_keeps_content [OF law] Cons.prems(2) that by simp
  have "list_all2 (\<lambda>r v. valid s2 r \<and> get s2 r = content s v) rs vs"
    using rd by (rule list.rel_mono_strong) (simp add: cont)
  moreover have "valid s2 r \<and> get s2 r = content s v"
    using kp [OF put_valid [OF law]] put_get [OF law] by simp
  moreover have "\<forall>q. valid s q \<longrightarrow> valid s2 q \<and> get s2 q = get s q"
    using kp put_keeps_valid [OF law] put_keeps_get [OF law] by simp
  ultimately show ?case using pv run inv2 by simp
qed

end

text \<open>Stores whose handles never share a cell.\<close>

locale fresh_store = append_store +
  fixes cells :: "'r \<Rightarrow> (nat \<times> nat) set"
  assumes put_fresh:
    "inv s \<Longrightarrow> pre s v \<Longrightarrow> put v s = Ret (r, s') \<Longrightarrow> valid s q \<Longrightarrow> cells r \<inter> cells q = {}"
begin

lemma put_all_fresh:
  assumes "inv s" and "\<And>v. v \<in> set vs \<Longrightarrow> pre s v" and "put_all put vs s = Ret (rs, s')"
  shows "(\<forall>r \<in> set rs. \<forall>q. valid s q \<longrightarrow> cells r \<inter> cells q = {}) \<and>
         (\<forall>i < length rs. \<forall>j < length rs. i \<noteq> j \<longrightarrow> cells (rs ! i) \<inter> cells (rs ! j) = {})"
  using assms
proof (induction vs arbitrary: s rs)
  case Nil
  then show ?case by simp
next
  case (Cons v vs)
  obtain r s1 rs' where pv: "put v s = Ret (r, s1)" and rest: "put_all put vs s1 = Ret (rs', s')"
    and rs: "rs = r # rs'"
    using Cons.prems(3) by (auto elim!: obind_RetE)
  have law: "inv s" "pre s v" "put v s = Ret (r, s1)" using Cons.prems pv by auto
  have pre1: "\<And>u. u \<in> set vs \<Longrightarrow> pre s1 u" using put_keeps_pre [OF law] Cons.prems(2) by simp
  note ih = Cons.IH [OF put_inv [OF law] pre1 rest]
  have r: "cells q \<inter> cells r = {}" if "q \<in> set rs'" for q
    using ih put_valid [OF law] that by blast
  have "cells (rs ! i) \<inter> cells (rs ! j) = {}" if "i < length rs" "j < length rs" "i \<noteq> j" for i j
  proof -
    have "cells (rs' ! k) \<inter> cells r = {}" "cells r \<inter> cells (rs' ! k) = {}" if "k < length rs'" for k
      using r [OF nth_mem [OF that]] by auto
    then show ?thesis using that ih by (cases i; cases j) (simp_all add: rs)
  qed
  moreover have "cells p \<inter> cells q = {}" if "p \<in> set rs" "valid s q" for p q
    using that ih put_fresh [OF law that(2)] put_keeps_valid [OF law that(2)]
    by (cases "p = r") (simp_all add: rs)
  ultimately show ?case by blast
qed

end

locale cstring_store = append_store +
  fixes cview :: "'s \<Rightarrow> 'r \<Rightarrow> byte list option"
    and bytes :: "'c \<Rightarrow> byte list"
  assumes valid_cview: "inv s \<Longrightarrow> valid s q \<Longrightarrow> cview s q = Some (cstr (bytes (get s q)))"
begin

lemma put_cview:
  assumes "inv s" and "pre s v" and "put v s = Ret (r, s')"
  shows "cview s' r = Some (cstr (bytes (content s v)))"
  using valid_cview [OF put_inv [OF assms] put_valid [OF assms]] put_get [OF assms] by simp

lemma put_cview_keeps:
  assumes "inv s" and "pre s v" and "put v s = Ret (r, s')" and "valid s q"
  shows "cview s' q = cview s q"
  using valid_cview [OF put_inv [OF assms(1-3)] put_keeps_valid [OF assms]]
    valid_cview [OF assms(1,4)] put_keeps_get [OF assms] by simp

end

end
