(* ===== verification/Generic_Store.thy ===== *)
theory Generic_Store
  imports Append_Store
begin

text \<open>
  \<open>stores/generic_store.go\<close>: the lock-free arena shared by all workers. First the
  concurrent program: every atomic load, compare-and-swap and element copy of \<open>Append\<close> and
  \<open>AppendSlice\<close> is one step of a thread, and a system step runs any one thread. The
  invariant of the reachable states gives that claimed ranges never overlap and that
  completed appends are never overwritten; a thread that runs alone finishes its call within
  a bounded number of steps, whatever state the others left.

  Then the sequential view the walk uses (\<open>Append\<close> as one operation on a heap of blocks),
  which is what a call does when no other thread interferes.

  The offset is kept at 64 bits because the code subtracts it from the node size without a
  guard; the invariant shows that the subtraction never wraps.
\<close>

section \<open>The concurrent store\<close>

definition defaultGenericNodeSize :: u64 where
  "defaultGenericNodeSize = 1024"

definition maxSpins :: nat where
  "maxSpins = 50"

text \<open>\<open>runtime.Gosched\<close> only yields the processor; what is left is the counter.\<close>

definition spinOrYield :: "nat \<Rightarrow> nat" where
  "spinOrYield spins = (let spins = spins + 1 in if spins \<ge> maxSpins then 0 else spins)"

text \<open>
  A node is its length and its claim offset; the cells of all nodes are one map. A request
  larger than a node gets a node of its own, all of it claimed.
\<close>

record gnode =
  gn_len :: nat
  gn_off :: u64

record 'a gstore =
  gs_nodes :: "gnode list"
  gs_top :: nat
  gs_cell :: "nat \<Rightarrow> nat \<Rightarrow> 'a"

text \<open>Where a thread is inside \<open>ensureCap\<close>, and in the copy that follows it.\<close>

datatype pc =
    Idle
  | LoopTop
  | LoadedTail nat
  | LoadedOff nat u64
  | TryClaim nat u64
  | Copying nat nat nat

record 'a gthread =
  th_todo :: "'a list list"
  th_pc :: pc
  th_spins :: nat
  th_got :: "(nat \<times> nat \<times> 'a list) list"

definition NewStore :: "'a \<Rightarrow> 'a gstore" where
  "NewStore z =
     \<lparr>gs_nodes = [\<lparr>gn_len = unat defaultGenericNodeSize, gn_off = 0\<rparr>], gs_top = 0,
      gs_cell = (\<lambda>_ _. z)\<rparr>"

definition th_cap :: "'a gthread \<Rightarrow> u64" where
  "th_cap t = of_nat (length (hd (th_todo t)))"

definition casOff ::
  "nat \<Rightarrow> u64 \<Rightarrow> 'a gstore \<Rightarrow> 'a gthread \<Rightarrow> 'a gstore \<times> 'a gthread" where
  "casOff n nOff s t =
     (if gn_off (gs_nodes s ! n) = nOff then
        (s\<lparr>gs_nodes := (gs_nodes s)[n := (gs_nodes s ! n)\<lparr>gn_off := nOff + th_cap t\<rparr>]\<rparr>,
         t\<lparr>th_pc := Copying n (unat nOff) 0\<rparr>)
      else (s, t\<lparr>th_spins := spinOrYield (th_spins t), th_pc := LoopTop\<rparr>))"

definition gstep :: "'a \<Rightarrow> 'a gstore \<Rightarrow> 'a gthread \<Rightarrow> 'a gstore \<times> 'a gthread" where
  "gstep z s t =
     (case th_pc t of
        Idle \<Rightarrow>
          (if th_todo t = [] then (s, t)
           else if th_cap t > defaultGenericNodeSize then
             (s\<lparr>gs_nodes := gs_nodes s @ [\<lparr>gn_len = unat (th_cap t), gn_off = th_cap t\<rparr>],
                gs_cell := (gs_cell s)(length (gs_nodes s) := (\<lambda>_. z))\<rparr>,
              t\<lparr>th_pc := Copying (length (gs_nodes s)) 0 0\<rparr>)
           else (s, t\<lparr>th_spins := 0, th_pc := LoopTop\<rparr>))
      | LoopTop \<Rightarrow> (s, t\<lparr>th_pc := LoadedTail (gs_top s)\<rparr>)
      | LoadedTail n \<Rightarrow> (s, t\<lparr>th_pc := LoadedOff n (gn_off (gs_nodes s ! n))\<rparr>)
      | LoadedOff n nOff \<Rightarrow>
          (if defaultGenericNodeSize - nOff < th_cap t then
             (if gs_top s = n then
                (s\<lparr>gs_nodes := gs_nodes s @ [\<lparr>gn_len = unat defaultGenericNodeSize, gn_off = 0\<rparr>],
                   gs_top := length (gs_nodes s),
                   gs_cell := (gs_cell s)(length (gs_nodes s) := (\<lambda>_. z))\<rparr>,
                 t\<lparr>th_pc := TryClaim (length (gs_nodes s)) 0\<rparr>)
              else (s, t\<lparr>th_spins := spinOrYield (th_spins t), th_pc := LoopTop\<rparr>))
           else casOff n nOff s t)
      | TryClaim n nOff \<Rightarrow> casOff n nOff s t
      | Copying b k j \<Rightarrow>
          (if j < length (hd (th_todo t)) then
             (s\<lparr>gs_cell := (gs_cell s)(b := (gs_cell s b)(k + j := hd (th_todo t) ! j))\<rparr>,
              t\<lparr>th_pc := Copying b k (j + 1)\<rparr>)
           else
             (s, t\<lparr>th_got := th_got t @ [(b, k, hd (th_todo t))], th_todo := tl (th_todo t),
                   th_pc := Idle\<rparr>)))"

text \<open>Any thread may take the next step.\<close>

inductive gsys_step ::
  "'a \<Rightarrow> 'a gstore \<times> 'a gthread list \<Rightarrow> 'a gstore \<times> 'a gthread list \<Rightarrow> bool" for z where
  run: "i < length ts \<Longrightarrow> gstep z s (ts ! i) = (s', t') \<Longrightarrow>
          gsys_step z (s, ts) (s', ts[i := t'])"

inductive_cases gsys_stepE: "gsys_step z (s, ts) (s', ts')"

definition fresh_thread :: "'a list list \<Rightarrow> 'a gthread" where
  "fresh_thread vss = \<lparr>th_todo = vss, th_pc = Idle, th_spins = 0, th_got = []\<rparr>"

text \<open>Slices are shorter than \<open>2 ^ 63\<close>: Go's \<open>len\<close> is an \<open>int\<close>.\<close>

definition small :: "'a list list \<Rightarrow> bool" where
  "small vss \<longleftrightarrow> (\<forall>vs \<in> set vss. length vs < 2 ^ 63)"

inductive greach :: "'a \<Rightarrow> 'a gstore \<times> 'a gthread list \<Rightarrow> bool" for z where
  start: "(\<And>vss. vss \<in> set reqs \<Longrightarrow> small vss) \<Longrightarrow> greach z (NewStore z, map fresh_thread reqs)"
| step: "greach z st \<Longrightarrow> gsys_step z st st' \<Longrightarrow> greach z st'"

section \<open>The invariant\<close>

type_synonym range = "nat \<times> nat \<times> nat"

fun disj :: "range \<Rightarrow> range \<Rightarrow> bool" where
  "disj (b, l, h) (b', l', h') \<longleftrightarrow> b \<noteq> b' \<or> h \<le> l' \<or> h' \<le> l"

declare disj.simps [simp del]

definition result_range :: "nat \<times> nat \<times> 'a list \<Rightarrow> range" where
  "result_range r = (case r of (b, k, vs) \<Rightarrow> (b, k, k + length vs))"

definition th_ranges :: "'a gthread \<Rightarrow> range list" where
  "th_ranges t = map result_range (th_got t) @
     (case th_pc t of Copying b k j \<Rightarrow> [(b, k, k + length (hd (th_todo t)))] | _ \<Rightarrow> [])"

definition arena_node :: "'a gstore \<Rightarrow> nat \<Rightarrow> bool" where
  "arena_node s n \<longleftrightarrow> n < length (gs_nodes s) \<and> gn_len (gs_nodes s ! n) = 1024"

definition store_ok :: "'a gstore \<Rightarrow> bool" where
  "store_ok s \<longleftrightarrow> arena_node s (gs_top s) \<and>
     (\<forall>n < length (gs_nodes s). unat (gn_off (gs_nodes s ! n)) \<le> gn_len (gs_nodes s ! n))"

definition range_ok :: "'a gstore \<Rightarrow> range \<Rightarrow> bool" where
  "range_ok s r = (case r of (b, l, h) \<Rightarrow>
     b < length (gs_nodes s) \<and> l \<le> h \<and> h \<le> unat (gn_off (gs_nodes s ! b)))"

definition pc_ok :: "'a gstore \<Rightarrow> 'a gthread \<Rightarrow> bool" where
  "pc_ok s t \<longleftrightarrow> small (th_todo t) \<and>
     (th_pc t \<noteq> Idle \<longrightarrow> th_todo t \<noteq> []) \<and>
     (case th_pc t of
        Idle \<Rightarrow> True
      | LoopTop \<Rightarrow> unat (th_cap t) \<le> 1024
      | LoadedTail n \<Rightarrow> unat (th_cap t) \<le> 1024 \<and> arena_node s n
      | LoadedOff n nOff \<Rightarrow> unat (th_cap t) \<le> 1024 \<and> arena_node s n \<and>
          unat nOff \<le> unat (gn_off (gs_nodes s ! n))
      | TryClaim n nOff \<Rightarrow> arena_node s n \<and> unat nOff + unat (th_cap t) \<le> 1024
      | Copying b k j \<Rightarrow> j \<le> length (hd (th_todo t)) \<and>
          (\<forall>i < j. gs_cell s b (k + i) = hd (th_todo t) ! i))"

definition got_ok :: "'a gstore \<Rightarrow> 'a gthread \<Rightarrow> bool" where
  "got_ok s t \<longleftrightarrow>
     (\<forall>(b, k, vs) \<in> set (th_got t). \<forall>i < length vs. gs_cell s b (k + i) = vs ! i)"

definition thread_ok :: "'a gstore \<Rightarrow> 'a gthread \<Rightarrow> bool" where
  "thread_ok s t \<longleftrightarrow> pc_ok s t \<and> got_ok s t \<and> (\<forall>r \<in> set (th_ranges t). range_ok s r) \<and>
     sorted_wrt disj (th_ranges t)"

definition sys_ok :: "'a gstore \<times> 'a gthread list \<Rightarrow> bool" where
  "sys_ok st \<longleftrightarrow> store_ok (fst st) \<and> (\<forall>t \<in> set (snd st). thread_ok (fst st) t) \<and>
     (\<forall>i < length (snd st). \<forall>j < length (snd st). i \<noteq> j \<longrightarrow>
        (\<forall>r \<in> set (th_ranges (snd st ! i)). \<forall>r' \<in> set (th_ranges (snd st ! j)). disj r r'))"

section \<open>Every step keeps the invariant\<close>

lemma unat_1024 [simp]: "unat (1024 :: u64) = 1024"
  by simp

lemma unat_cap:
  assumes "small (th_todo t)" and "th_todo t \<noteq> []"
  shows "unat (th_cap t) = length (hd (th_todo t))"
proof -
  have "length (hd (th_todo t)) < 2 ^ 63" using assms by (simp add: small_def)
  then show ?thesis by (simp add: th_cap_def unat_of_nat take_bit_eq_mod)
qed

text \<open>The unguarded subtraction of the code does not wrap, and the claim does not overflow.\<close>

lemma room_check:
  fixes nOff cap :: u64
  assumes "unat nOff \<le> 1024" and "unat cap \<le> 1024"
  shows "\<not> defaultGenericNodeSize - nOff < cap \<longleftrightarrow> unat nOff + unat cap \<le> 1024"
proof -
  have "unat (1024 - nOff) = 1024 - unat nOff"
    using assms(1) by (subst unat_sub) (auto simp: word_le_nat_alt)
  then show ?thesis
    using assms by (auto simp: defaultGenericNodeSize_def word_less_nat_alt)
qed

lemma unat_add_claim:
  fixes nOff cap :: u64
  shows "unat nOff + unat cap \<le> 1024 \<Longrightarrow> unat (nOff + cap) = unat nOff + unat cap"
  by (subst unat_add_lem [THEN iffD1]) auto

text \<open>What one thread's step does to the shared store, as the other threads see it.\<close>

definition grows :: "'a gstore \<Rightarrow> 'a gstore \<Rightarrow> bool" where
  "grows s s' \<longleftrightarrow> length (gs_nodes s) \<le> length (gs_nodes s') \<and>
     (\<forall>n < length (gs_nodes s). gn_len (gs_nodes s' ! n) = gn_len (gs_nodes s ! n) \<and>
        unat (gn_off (gs_nodes s ! n)) \<le> unat (gn_off (gs_nodes s' ! n)))"

definition only_own_cell :: "'a gstore \<Rightarrow> 'a gthread \<Rightarrow> 'a gstore \<Rightarrow> bool" where
  "only_own_cell s t s' \<longleftrightarrow>
     (\<forall>b i. b < length (gs_nodes s) \<and> gs_cell s' b i \<noteq> gs_cell s b i \<longrightarrow>
        (\<exists>k j. th_pc t = Copying b k j \<and> i = k + j \<and> j < length (hd (th_todo t))))"

definition new_range :: "'a gstore \<Rightarrow> 'a gthread \<Rightarrow> 'a gthread \<Rightarrow> bool" where
  "new_range s t t' \<longleftrightarrow> th_ranges t' = th_ranges t \<or>
     (\<exists>b l h. th_ranges t' = th_ranges t @ [(b, l, h)] \<and>
        (b < length (gs_nodes s) \<longrightarrow> unat (gn_off (gs_nodes s ! b)) \<le> l))"

lemma new_range_disj:
  assumes "range_ok s r" and "b < length (gs_nodes s) \<longrightarrow> unat (gn_off (gs_nodes s ! b)) \<le> l"
  shows "disj r (b, l, h)"
  using assms by (cases r) (auto simp: range_ok_def disj.simps)

lemma new_range_cases:
  assumes "new_range s t t'" and "r \<in> set (th_ranges t')" and "range_ok s r'"
  shows "r \<in> set (th_ranges t) \<or> disj r' r"
  using assms new_range_disj [OF assms(3)] by (auto simp: new_range_def)

lemma range_ok_grows: "range_ok s r \<Longrightarrow> grows s s' \<Longrightarrow> range_ok s' r"
  by (cases r) (force simp: range_ok_def grows_def)

lemma arena_node_grows: "arena_node s n \<Longrightarrow> grows s s' \<Longrightarrow> arena_node s' n"
  by (auto simp: arena_node_def grows_def)

lemma grows_append [simp]: "grows s (s\<lparr>gs_nodes := gs_nodes s @ ns, gs_top := n, gs_cell := c\<rparr>)"
  "grows s (s\<lparr>gs_nodes := gs_nodes s @ ns, gs_cell := c\<rparr>)"
  by (auto simp: grows_def nth_append)

lemma thread_okI:
  assumes "thread_ok s t" and "grows s s'" and "pc_ok s' t'" and "got_ok s' t'"
    and "th_ranges t' = th_ranges t @ rs" and "\<forall>r \<in> set rs. range_ok s' r"
    and "sorted_wrt disj (th_ranges t @ rs)"
  shows "thread_ok s' t'"
  using assms range_ok_grows [OF _ assms(2)] by (auto simp: thread_ok_def)

lemma casOff_step:
  assumes ok: "store_ok s" and t: "thread_ok s t" and n: "arena_node s n"
    and room: "unat nOff + unat (th_cap t) \<le> 1024"
    and pc: "th_todo t \<noteq> []" "\<And>b k j. th_pc t \<noteq> Copying b k j"
    and eq: "casOff n nOff s t = (s', t')"
  shows "grows s s' \<and> store_ok s' \<and> only_own_cell s t s' \<and> new_range s t t' \<and> thread_ok s' t'"
proof (cases "gn_off (gs_nodes s ! n) = nOff")
  case False
  then have s': "s' = s" and t': "t' = t\<lparr>th_spins := spinOrYield (th_spins t), th_pc := LoopTop\<rparr>"
    using eq by (auto simp: casOff_def)
  have rs: "th_ranges t' = th_ranges t"
    using pc(2) by (simp add: t' th_ranges_def split: pc.split)
  have "pc_ok s t'" using t room pc(1) by (simp add: t' thread_ok_def pc_ok_def th_cap_def)
  then have "thread_ok s t'" using t rs by (simp add: thread_ok_def got_ok_def t')
  then show ?thesis
    using ok rs by (simp add: s' grows_def only_own_cell_def new_range_def)
next
  case True
  have cap: "unat (th_cap t) = length (hd (th_todo t))"
    using t pc by (intro unat_cap) (auto simp: thread_ok_def pc_ok_def)
  have off: "unat (nOff + th_cap t) = unat nOff + length (hd (th_todo t))"
    using unat_add_claim [OF room] cap by simp
  have s': "s' = s\<lparr>gs_nodes := (gs_nodes s)[n := (gs_nodes s ! n)\<lparr>gn_off := nOff + th_cap t\<rparr>]\<rparr>"
    and t': "t' = t\<lparr>th_pc := Copying n (unat nOff) 0\<rparr>"
    using eq True by (auto simp: casOff_def)
  have g: "grows s s'"
    using off True n by (auto simp: s' grows_def arena_node_def nth_list_update)
  have rs: "th_ranges t' = th_ranges t @ [(n, unat nOff, unat nOff + length (hd (th_todo t)))]"
    using pc by (auto simp: t' th_ranges_def split: pc.splits)
  have so: "store_ok s'"
    using ok n off room cap g by (auto simp: store_ok_def s' nth_list_update arena_node_def)
  have nr: "new_range s t t'" using rs True by (auto simp: new_range_def)
  have "range_ok s' (n, unat nOff, unat nOff + length (hd (th_todo t)))"
    using n off by (auto simp: range_ok_def s' arena_node_def)
  moreover have "\<forall>r \<in> set (th_ranges t). disj r (n, unat nOff, unat nOff + length (hd (th_todo t)))"
    using t new_range_disj [of s _ n "unat nOff"] True by (simp add: thread_ok_def)
  moreover have "pc_ok s' t'" and "got_ok s' t'"
    using t pc(1) by (simp_all add: thread_ok_def pc_ok_def got_ok_def s' t')
  ultimately have "thread_ok s' t'"
    using t by (intro thread_okI [OF t g _ _ rs]) (simp_all add: thread_ok_def sorted_wrt_append)
  then show ?thesis using g so nr by (auto simp: only_own_cell_def s')
qed

definition good_step ::
  "'a gstore \<Rightarrow> 'a gthread \<Rightarrow> 'a gstore \<Rightarrow> 'a gthread \<Rightarrow> bool" where
  "good_step s t s' t' \<longleftrightarrow> grows s s' \<and> store_ok s' \<and> only_own_cell s t s' \<and> new_range s t t' \<and>
     thread_ok s' t'"

lemma got_range_ok:
  assumes "thread_ok s t" and "(b, k, vs) \<in> set (th_got t)"
  shows "range_ok s (b, k, k + length vs)"
proof -
  have "result_range (b, k, vs) \<in> set (th_ranges t)"
    using assms(2) by (simp add: th_ranges_def)
  then show ?thesis using assms(1) by (auto simp: thread_ok_def result_range_def)
qed

lemma got_ok_cells:
  assumes t: "thread_ok s t" and got: "th_got t' = th_got t"
    and cells: "\<And>b i. b < length (gs_nodes s) \<Longrightarrow> gs_cell s' b i = gs_cell s b i"
  shows "got_ok s' t'"
proof -
  have "gs_cell s' b (k + i) = vs ! i" if "(b, k, vs) \<in> set (th_got t)" "i < length vs" for b k vs i
    using t that got_range_ok [OF t that(1)] cells [of b "k + i"]
    by (auto simp: thread_ok_def got_ok_def range_ok_def)
  then show ?thesis by (auto simp: got_ok_def got)
qed

text \<open>A step that only moves the program counter.\<close>

lemma good_step_local:
  assumes "store_ok s" and t: "thread_ok s t" and "pc_ok s t'"
    and "th_got t' = th_got t" and "th_ranges t' = th_ranges t"
  shows "good_step s t s t'"
  using assms
  by (simp add: good_step_def grows_def only_own_cell_def new_range_def thread_ok_def got_ok_def)

text \<open>A step that adds a node at the end.\<close>

lemma store_ok_add_node:
  assumes ok: "store_ok s"
  shows "store_ok (s\<lparr>gs_nodes := gs_nodes s @ [\<lparr>gn_len = unat c, gn_off = c\<rparr>], gs_cell := f\<rparr>)"
    and "store_ok (s\<lparr>gs_nodes := gs_nodes s @ [\<lparr>gn_len = 1024, gn_off = 0\<rparr>],
                     gs_top := length (gs_nodes s), gs_cell := f\<rparr>)"
  using ok by (auto simp: store_ok_def arena_node_def nth_append)

text \<open>Copying writes one cell of the range the thread has claimed.\<close>

lemma cell_outside:
  assumes d: "disj (b, k, k + n) (b', k', k' + n')" and j: "j < n" and i: "i < n'"
  shows "b' = b \<Longrightarrow> k' + i \<noteq> k + j"
  using assms by (auto simp: disj.simps)

lemma disj_sym: "disj r r' = disj r' r"
  by (cases r; cases r') (auto simp: disj.simps)

lemma copy_step_good:
  assumes ok: "store_ok s" and t: "thread_ok s t" and pc: "th_pc t = Copying b k j"
  shows "j < length (hd (th_todo t)) \<Longrightarrow>
           good_step s t (s\<lparr>gs_cell := (gs_cell s)(b := (gs_cell s b)(k + j := hd (th_todo t) ! j))\<rparr>)
             (t\<lparr>th_pc := Copying b k (Suc j)\<rparr>)"
    and "\<not> j < length (hd (th_todo t)) \<Longrightarrow>
           good_step s t s (t\<lparr>th_got := th_got t @ [(b, k, hd (th_todo t))], th_todo := tl (th_todo t),
                               th_pc := Idle\<rparr>)"
proof -
  let ?n = "length (hd (th_todo t))" and ?own = "(b, k, k + length (hd (th_todo t)))"
  have rs: "th_ranges t = map result_range (th_got t) @ [?own]" by (simp add: th_ranges_def pc)
  have pcok: "pc_ok s t" and gok: "got_ok s t" using t by (auto simp: thread_ok_def)
  have d: "disj ?own (b', k', k' + length vs)" if "(b', k', vs) \<in> set (th_got t)" for b' k' vs
    using t that unfolding disj_sym [of ?own]
    by (force simp: thread_ok_def rs sorted_wrt_append result_range_def)
  show "good_step s t (s\<lparr>gs_cell := (gs_cell s)(b := (gs_cell s b)(k + j := hd (th_todo t) ! j))\<rparr>)
             (t\<lparr>th_pc := Copying b k (Suc j)\<rparr>)" (is "good_step s t ?s ?t") if j: "j < ?n"
  proof -
    have g: "grows s ?s" by (simp add: grows_def)
    have "gs_cell ?s b' (k' + i) = vs ! i" if "(b', k', vs) \<in> set (th_got t)" "i < length vs" for b' k' vs i
    proof -
      have "gs_cell s b' (k' + i) = vs ! i" using gok that by (auto simp: got_ok_def)
      then show ?thesis using cell_outside [OF d [OF that(1)] j that(2)] by auto
    qed
    then have "got_ok ?s ?t" by (auto simp: got_ok_def)
    moreover have "pc_ok ?s ?t"
      using pcok pc j by (auto simp: pc_ok_def less_Suc_eq)
    moreover have rs': "th_ranges ?t = th_ranges t @ []" by (simp add: th_ranges_def pc)
    ultimately have "thread_ok ?s ?t"
      using t by (intro thread_okI [OF t g _ _ rs']) (simp_all add: thread_ok_def)
    moreover have "only_own_cell s t ?s"
      using pc j by (auto simp: only_own_cell_def split: if_splits)
    ultimately show ?thesis
      using g ok rs' by (simp add: good_step_def new_range_def store_ok_def arena_node_def)
  qed
  show "good_step s t s (t\<lparr>th_got := th_got t @ [(b, k, hd (th_todo t))], th_todo := tl (th_todo t),
                           th_pc := Idle\<rparr>)" (is "good_step s t s ?t") if j: "\<not> j < ?n"
  proof -
    have rs': "th_ranges ?t = th_ranges t" by (simp add: th_ranges_def pc result_range_def)
    have "pc_ok s ?t"
      using pcok pc by (cases "th_todo t") (auto simp: pc_ok_def small_def)
    moreover have "got_ok s ?t"
      using gok pcok pc j by (auto simp: got_ok_def pc_ok_def)
    ultimately show ?thesis
      using t ok rs' by (simp add: good_step_def grows_def only_own_cell_def new_range_def thread_ok_def)
  qed
qed

lemma gstep_good:
  assumes ok: "store_ok s" and t: "thread_ok s t" and eq: "gstep z s t = (s', t')"
  shows "good_step s t s' t'"
proof -
  have pcok: "pc_ok s t" and small: "small (th_todo t)" using t by (auto simp: thread_ok_def pc_ok_def)
  have cap: "unat (th_cap t) = length (hd (th_todo t))" if "th_todo t \<noteq> []"
    using unat_cap small that by blast
  have top: "arena_node s (gs_top s)" using ok by (simp add: store_ok_def)
  have offs: "unat (gn_off (gs_nodes s ! n)) \<le> 1024" if "arena_node s n" for n
    using ok that by (auto simp: store_ok_def arena_node_def)
  show ?thesis
  proof (cases "th_pc t")
    case Idle
    consider (none) "th_todo t = []" | (big) "th_todo t \<noteq> []" "defaultGenericNodeSize < th_cap t"
      | (fit) "th_todo t \<noteq> []" "\<not> defaultGenericNodeSize < th_cap t" by blast
    then show ?thesis
    proof cases
      case none
      then show ?thesis using eq Idle ok t pcok by (auto simp: gstep_def intro: good_step_local)
    next
      case fit
      then have "unat (th_cap t) \<le> 1024"
        by (simp add: defaultGenericNodeSize_def word_less_nat_alt)
      then show ?thesis using eq Idle ok t fit small
        by (intro good_step_local [of s' t t', THEN back_subst [of "\<lambda>x. good_step x t s' t'"]])
          (auto simp: gstep_def pc_ok_def th_ranges_def th_cap_def)
    next
      case big
      let ?b = "length (gs_nodes s)" and ?h = "length (hd (th_todo t))"
      have s': "s' = s\<lparr>gs_nodes := gs_nodes s @ [\<lparr>gn_len = unat (th_cap t), gn_off = th_cap t\<rparr>],
                gs_cell := (gs_cell s)(?b := (\<lambda>_. z))\<rparr>"
        and t': "t' = t\<lparr>th_pc := Copying ?b 0 0\<rparr>"
        using eq Idle big by (auto simp: gstep_def)
      have rs: "th_ranges t' = th_ranges t @ [(?b, 0, ?h)]"
        by (simp add: t' th_ranges_def Idle)
      have "\<forall>r \<in> set (th_ranges t). disj r (?b, 0, ?h)"
        using t new_range_disj [of s _ ?b 0 ?h] by (auto simp: thread_ok_def)
      moreover have "got_ok s' t'" by (rule got_ok_cells [OF t]) (auto simp: s' t')
      ultimately have "thread_ok s' t'"
        using t big small cap
        by (intro thread_okI [OF t _ _ _ rs])
          (simp_all add: s' t' pc_ok_def range_ok_def sorted_wrt_append thread_ok_def)
      then show ?thesis
        using rs store_ok_add_node(1) [OF ok]
        by (auto simp: good_step_def s' only_own_cell_def new_range_def)
    qed
  next
    case LoopTop
    then show ?thesis using eq ok t pcok top
      by (auto simp: gstep_def pc_ok_def th_ranges_def th_cap_def intro!: good_step_local)
  next
    case (LoadedTail n)
    then show ?thesis using eq ok t pcok
      by (auto simp: gstep_def pc_ok_def th_ranges_def th_cap_def intro!: good_step_local)
  next
    case (LoadedOff n nOff)
    have todo: "th_todo t \<noteq> []" and le: "unat (th_cap t) \<le> 1024" and n: "arena_node s n"
      and off: "unat nOff \<le> 1024"
      using pcok LoadedOff offs [of n] by (auto simp: pc_ok_def)
    consider (swap) "defaultGenericNodeSize - nOff < th_cap t" "gs_top s = n"
      | (lost) "defaultGenericNodeSize - nOff < th_cap t" "gs_top s \<noteq> n"
      | (room) "\<not> defaultGenericNodeSize - nOff < th_cap t" by blast
    then show ?thesis
    proof cases
      case room
      then show ?thesis
        using eq LoadedOff casOff_step [OF ok t n _ todo] room_check [OF off le]
        by (auto simp: gstep_def good_step_def)
    next
      case lost
      then show ?thesis using eq LoadedOff ok t pcok
        by (auto simp: gstep_def pc_ok_def th_ranges_def th_cap_def intro!: good_step_local)
    next
      case swap
      let ?b = "length (gs_nodes s)"
      have s': "s' = s\<lparr>gs_nodes := gs_nodes s @ [\<lparr>gn_len = 1024, gn_off = 0\<rparr>], gs_top := ?b,
                       gs_cell := (gs_cell s)(?b := (\<lambda>_. z))\<rparr>"
        and t': "t' = t\<lparr>th_pc := TryClaim ?b 0\<rparr>"
        using eq LoadedOff swap by (auto simp: gstep_def defaultGenericNodeSize_def)
      have rs: "th_ranges t' = th_ranges t @ []" by (simp add: t' th_ranges_def LoadedOff)
      have "got_ok s' t'" by (rule got_ok_cells [OF t]) (auto simp: s' t')
      then have "thread_ok s' t'"
        using t todo small le
        by (intro thread_okI [OF t _ _ _ rs])
          (simp_all add: s' t' pc_ok_def thread_ok_def arena_node_def th_cap_def)
      then show ?thesis
        using rs store_ok_add_node(2) [OF ok]
        by (auto simp: good_step_def s' only_own_cell_def new_range_def)
    qed
  next
    case (TryClaim n nOff)
    then show ?thesis
      using eq pcok casOff_step [OF ok t, of n nOff s' t']
      by (auto simp: gstep_def good_step_def pc_ok_def)
  next
    case (Copying b k j)
    then show ?thesis using eq copy_step_good [OF ok t Copying] by (auto simp: gstep_def split: if_splits)
  qed
qed

text \<open>A thread's facts survive the steps of the other threads.\<close>

lemma thread_ok_other:
  assumes u: "thread_ok s u" and t: "thread_ok s t" and g: "good_step s t s' t'"
    and d: "\<forall>r \<in> set (th_ranges t). \<forall>r' \<in> set (th_ranges u). disj r r'"
  shows "thread_ok s' u"
proof -
  have grows: "grows s s'" and own: "only_own_cell s t s'" using g by (auto simp: good_step_def)
  have cell: "gs_cell s' b (k + i) = gs_cell s b (k + i)"
    if r: "(b, k, k + n) \<in> set (th_ranges u)" and i: "i < n" for b k n i
  proof (rule ccontr)
    assume ne: "gs_cell s' b (k + i) \<noteq> gs_cell s b (k + i)"
    have "b < length (gs_nodes s)" using u r by (force simp: thread_ok_def range_ok_def)
    then have "\<exists>k' j. th_pc t = Copying b k' j \<and> k + i = k' + j \<and> j < length (hd (th_todo t))"
      using own ne unfolding only_own_cell_def by blast
    then obtain k' j where pc: "th_pc t = Copying b k' j" and "k + i = k' + j" "j < length (hd (th_todo t))"
      by blast
    moreover have "disj (b, k', k' + length (hd (th_todo t))) (b, k, k + n)"
      using d r pc by (auto simp: th_ranges_def)
    ultimately show False using i by (auto simp: disj.simps)
  qed
  have "gs_cell s' b (k + i) = vs ! i" if "(b, k, vs) \<in> set (th_got u)" "i < length vs" for b k vs i
  proof -
    have "result_range (b, k, vs) \<in> set (th_ranges u)" using that by (simp add: th_ranges_def)
    then show ?thesis using cell [of b k "length vs" i] u that
      by (auto simp: result_range_def thread_ok_def got_ok_def)
  qed
  then have "got_ok s' u" by (auto simp: got_ok_def)
  moreover have "pc_ok s' u"
  proof (cases "th_pc u")
    case (Copying b k j)
    have "gs_cell s' b (k + i) = gs_cell s b (k + i)" if "i < length (hd (th_todo u))" for i
      using cell [of b k "length (hd (th_todo u))" i] that Copying by (simp add: th_ranges_def)
    then show ?thesis using u Copying by (auto simp: thread_ok_def pc_ok_def)
  next
    case (LoadedOff n nOff)
    then have "unat (gn_off (gs_nodes s ! n)) \<le> unat (gn_off (gs_nodes s' ! n))"
      using u grows by (auto simp: thread_ok_def pc_ok_def grows_def arena_node_def)
    then show ?thesis using u LoadedOff arena_node_grows [OF _ grows]
      by (auto simp: thread_ok_def pc_ok_def)
  qed (use u arena_node_grows [OF _ grows] in \<open>auto simp: thread_ok_def pc_ok_def\<close>)
  ultimately show ?thesis
    using u by (intro thread_okI [OF u grows, of _ "[]"]) (simp_all add: thread_ok_def)
qed

lemma gsys_step_ok:
  assumes "gsys_step z st st'" and "sys_ok st"
  shows "sys_ok st'"
  using assms
proof (induction rule: gsys_step.induct)
  case (run i ts s s' t')
  let ?t = "ts ! i"
  have t: "thread_ok s ?t" and ok: "store_ok s" and all: "\<And>j. j < length ts \<Longrightarrow> thread_ok s (ts ! j)"
    and d: "\<And>j k r r'. j < length ts \<Longrightarrow> k < length ts \<Longrightarrow> j \<noteq> k \<Longrightarrow> r \<in> set (th_ranges (ts ! j)) \<Longrightarrow>
              r' \<in> set (th_ranges (ts ! k)) \<Longrightarrow> disj r r'"
    using run by (auto simp: sys_ok_def)
  have g: "good_step s ?t s' t'" by (rule gstep_good [OF ok t run(2)])
  have oth: "thread_ok s' (ts ! j)" if "j < length ts" "j \<noteq> i" for j
    using thread_ok_other [OF all [OF that(1)] t g] d [OF run(1) that(1)] that by auto
  have new: "disj r r'" if "j < length ts" "j \<noteq> i" "r \<in> set (th_ranges t')" "r' \<in> set (th_ranges (ts ! j))" for j r r'
  proof -
    have "range_ok s r'" using all [OF that(1)] that(4) by (simp add: thread_ok_def)
    then have "r \<in> set (th_ranges ?t) \<or> disj r' r"
      using g that(3) by (intro new_range_cases) (auto simp: good_step_def)
    moreover have "disj r r'" if "r \<in> set (th_ranges ?t)"
      using d [OF run(1) \<open>j < length ts\<close> _ that \<open>r' \<in> set (th_ranges (ts ! j))\<close>] \<open>j \<noteq> i\<close> by simp
    ultimately show ?thesis using disj_sym [of r r'] by blast
  qed
  have "thread_ok s' u" if u: "u \<in> set (ts[i := t'])" for u
  proof -
    from u obtain j where "j < length ts" "u = ts[i := t'] ! j" by (metis in_set_conv_nth length_list_update)
    then show ?thesis using oth g by (cases "j = i") (auto simp: good_step_def)
  qed
  moreover have "disj r r'"
    if "j < length ts" "k < length ts" "j \<noteq> k" "r \<in> set (th_ranges (ts[i := t'] ! j))"
      "r' \<in> set (th_ranges (ts[i := t'] ! k))" for j k r r'
    using that new [of k r r'] new [of j r' r] d [of j k r r'] disj_sym
    by (cases "j = i"; cases "k = i") auto
  ultimately show ?case using g by (auto simp: sys_ok_def good_step_def)
qed

lemma sys_ok_init:
  assumes "\<And>vss. vss \<in> set reqs \<Longrightarrow> small vss"
  shows "sys_ok (NewStore z, map fresh_thread reqs)"
proof -
  have "thread_ok (NewStore z) (fresh_thread vss)" if "small vss" for vss
    using that by (simp add: thread_ok_def fresh_thread_def pc_ok_def got_ok_def th_ranges_def)
  then show ?thesis
    using assms
    by (auto simp: sys_ok_def store_ok_def NewStore_def arena_node_def defaultGenericNodeSize_def
        th_ranges_def fresh_thread_def)
qed

lemma greach_ok: "greach z st \<Longrightarrow> sys_ok st"
proof (induction rule: greach.induct)
  case (start reqs)
  then show ?case by (rule sys_ok_init)
next
  case (step st st')
  then show ?case by (blast intro: gsys_step_ok)
qed

section \<open>A thread that runs alone finishes its call\<close>

fun solo :: "'a \<Rightarrow> nat \<Rightarrow> 'a gstore \<Rightarrow> 'a gthread \<Rightarrow> 'a gstore \<times> 'a gthread" where
  "solo z 0 s t = (s, t)"
| "solo z (Suc n) s t = (case gstep z s t of (s', t') \<Rightarrow> solo z n s' t')"

text \<open>Within \<open>m\<close> steps of its own the thread has claimed its range and is copying.\<close>

definition claims_within :: "'a \<Rightarrow> nat \<Rightarrow> 'a gstore \<Rightarrow> 'a gthread \<Rightarrow> bool" where
  "claims_within z m s t \<longleftrightarrow>
     (\<exists>n \<le> m. \<exists>s' t' b k j. solo z n s t = (s', t') \<and> th_pc t' = Copying b k j \<and>
        j \<le> length (hd (th_todo t)) \<and> th_todo t' = th_todo t \<and> th_got t' = th_got t)"

definition is_copying :: "'a gthread \<Rightarrow> bool" where
  "is_copying t = (case th_pc t of Copying b k j \<Rightarrow> j \<le> length (hd (th_todo t)) | _ \<Rightarrow> False)"

lemma claims_within_now: "is_copying t \<Longrightarrow> claims_within z m s t"
  unfolding claims_within_def is_copying_def
  by (rule exI [of _ 0]) (auto split: pc.splits)

lemma claims_within_step:
  assumes "0 < m" and "th_todo (snd (gstep z s t)) = th_todo t"
    and "th_got (snd (gstep z s t)) = th_got t"
    and "claims_within z (m - 1) (fst (gstep z s t)) (snd (gstep z s t))"
  shows "claims_within z m s t"
proof -
  obtain n s' t' b k j where "n \<le> m - 1"
    "solo z n (fst (gstep z s t)) (snd (gstep z s t)) = (s', t')" "th_pc t' = Copying b k j"
    "j \<le> length (hd (th_todo t))" "th_todo t' = th_todo t" "th_got t' = th_got t"
    using assms by (auto simp: claims_within_def)
  then show ?thesis
    unfolding claims_within_def using assms(1)
    by (intro exI [of _ "Suc n"]) (auto split: prod.split)
qed

lemma claims_within_mono: "claims_within z m s t \<Longrightarrow> m \<le> m' \<Longrightarrow> claims_within z m' s t"
  unfolding claims_within_def by (meson order_trans)

lemma claim_current:
  assumes "th_pc t = TryClaim n nOff" and "gn_off (gs_nodes s ! n) = nOff"
  shows "claims_within z 1 s t"
  by (rule claims_within_step; (rule claims_within_now)?)
    (simp_all add: assms gstep_def casOff_def is_copying_def)

lemma claim_swap:
  assumes "th_pc t = LoadedOff n nOff" and "gs_top s = n"
    and "defaultGenericNodeSize - nOff < th_cap t"
  shows "claims_within z 2 s t"
proof -
  have "claims_within z 1 (fst (gstep z s t)) (snd (gstep z s t))"
    by (rule claim_current [of _ "length (gs_nodes s)" 0]) (simp_all add: gstep_def assms)
  then show ?thesis
    by (intro claims_within_step [of 2 z s t]) (simp_all add: gstep_def assms)
qed

lemma claim_cas:
  assumes "th_pc t = LoadedOff n (gn_off (gs_nodes s ! n))"
    and "\<not> defaultGenericNodeSize - gn_off (gs_nodes s ! n) < th_cap t"
  shows "claims_within z 2 s t"
  by (rule claims_within_step; (rule claims_within_now)?)
    (simp_all add: assms gstep_def casOff_def is_copying_def)

lemma claim_from_top:
  assumes "th_pc t = LoopTop"
  shows "claims_within z 4 s t"
proof -
  let ?t1 = "t\<lparr>th_pc := LoadedTail (gs_top s)\<rparr>"
  let ?t2 = "t\<lparr>th_pc := LoadedOff (gs_top s) (gn_off (gs_nodes s ! gs_top s))\<rparr>"
  have "claims_within z 2 s ?t2"
    using claim_swap [of ?t2 "gs_top s" _ s z] claim_cas [of ?t2 "gs_top s" s z] by auto
  then have "claims_within z 3 s ?t1"
    by (intro claims_within_step [of 3 z s ?t1]) (simp_all add: gstep_def)
  then show ?thesis
    by (intro claims_within_step [of 4 z s t]) (simp_all add: gstep_def assms)
qed

text \<open>A failed compare-and-swap sends the thread back to the head of its loop.\<close>

lemma claim_retry:
  assumes "th_pc (snd (gstep z s t)) = LoopTop" and "th_todo (snd (gstep z s t)) = th_todo t"
    and "th_got (snd (gstep z s t)) = th_got t"
  shows "claims_within z 5 s t"
  using assms claim_from_top [OF assms(1)] by (intro claims_within_step [of 5 z s t]) simp_all

lemma claim_from_tryClaim:
  assumes "th_pc t = TryClaim n nOff"
  shows "claims_within z 5 s t"
proof (cases "gn_off (gs_nodes s ! n) = nOff")
  case True
  show ?thesis by (rule claims_within_mono [OF claim_current [OF assms True]]) simp
next
  case False
  then show ?thesis using assms by (intro claim_retry) (simp_all add: gstep_def casOff_def)
qed

lemma claim_from_loadedOff:
  assumes "th_pc t = LoadedOff n nOff"
  shows "claims_within z 5 s t"
proof -
  consider (swap) "defaultGenericNodeSize - nOff < th_cap t" "gs_top s = n"
    | (lost) "defaultGenericNodeSize - nOff < th_cap t" "gs_top s \<noteq> n"
    | (cas) "\<not> defaultGenericNodeSize - nOff < th_cap t" "gn_off (gs_nodes s ! n) = nOff"
    | (fail) "\<not> defaultGenericNodeSize - nOff < th_cap t" "gn_off (gs_nodes s ! n) \<noteq> nOff"
    by blast
  then show ?thesis
  proof cases
    case swap
    then show ?thesis using assms by (intro claims_within_mono [OF claim_swap]) simp_all
  next
    case lost
    then show ?thesis using assms by (intro claim_retry) (simp_all add: gstep_def)
  next
    case cas
    then show ?thesis using assms by (intro claims_within_mono [OF claim_cas]) auto
  next
    case fail
    then show ?thesis using assms by (intro claim_retry) (simp_all add: gstep_def casOff_def)
  qed
qed

lemma claim_from_anywhere:
  assumes t: "thread_ok s t" and todo: "th_todo t \<noteq> []"
  shows "claims_within z 6 s t"
proof (cases "th_pc t")
  case Idle
  show ?thesis
  proof (cases "th_cap t > defaultGenericNodeSize")
    case True
    show ?thesis
      by (rule claims_within_step; (rule claims_within_now)?)
        (simp_all add: Idle todo True gstep_def is_copying_def)
  next
    case False
    have "claims_within z 5 s t"
      using Idle False todo by (intro claim_retry) (simp_all add: gstep_def)
    then show ?thesis by (rule claims_within_mono) simp
  qed
next
  case LoopTop
  then show ?thesis by (intro claims_within_mono [OF claim_from_top]) simp_all
next
  case (LoadedTail n)
  have "claims_within z 5 s (t\<lparr>th_pc := LoadedOff n (gn_off (gs_nodes s ! n))\<rparr>)"
    by (rule claim_from_loadedOff) simp
  then show ?thesis
    by (intro claims_within_step [of 6 z s t]) (simp_all add: LoadedTail gstep_def)
next
  case (LoadedOff n nOff)
  then show ?thesis by (intro claims_within_mono [OF claim_from_loadedOff]) simp_all
next
  case (TryClaim n nOff)
  then show ?thesis by (intro claims_within_mono [OF claim_from_tryClaim]) simp_all
next
  case (Copying b k j)
  then show ?thesis
    using t by (intro claims_within_now) (simp add: thread_ok_def pc_ok_def is_copying_def)
qed

lemma solo_add: "solo z (m + n) s t = (case solo z m s t of (s', t') \<Rightarrow> solo z n s' t')"
  by (induction m arbitrary: s t) (auto split: prod.split)

lemma solo_copy:
  assumes "th_pc t = Copying b k j" and "j \<le> length (hd (th_todo t))"
  shows "\<exists>s' t'. solo z (Suc (length (hd (th_todo t)) - j)) s t = (s', t') \<and>
           th_got t' = th_got t @ [(b, k, hd (th_todo t))] \<and> th_todo t' = tl (th_todo t)"
  using assms
proof (induction "length (hd (th_todo t)) - j" arbitrary: j s t)
  case 0
  then show ?case by (simp add: gstep_def)
next
  case (Suc n)
  let ?s = "s\<lparr>gs_cell := (gs_cell s)(b := (gs_cell s b)(k + j := hd (th_todo t) ! j))\<rparr>"
  let ?t = "t\<lparr>th_pc := Copying b k (Suc j)\<rparr>"
  have j: "j < length (hd (th_todo t))" and n: "n = length (hd (th_todo t)) - Suc j"
    using Suc.hyps(2) by auto
  have st: "gstep z s t = (?s, ?t)" using Suc.prems(1) j by (simp add: gstep_def)
  obtain s' t' where "solo z (Suc n) ?s ?t = (s', t')"
    "th_got t' = th_got t @ [(b, k, hd (th_todo t))]" "th_todo t' = tl (th_todo t)"
    using Suc.hyps(1) [of ?t "Suc j" ?s] n j by auto
  moreover have "length (hd (th_todo t)) - j = Suc n" using Suc.hyps(2) by simp
  moreover have "solo z (Suc (Suc n)) s t = solo z (Suc n) ?s ?t"
    using st by (simp only: solo.simps(2) [of z "Suc n"] prod.case)
  ultimately show ?case by (simp del: solo.simps)
qed

text \<open>A schedule names, step by step, the thread that moves.\<close>

fun run_threads ::
  "'a \<Rightarrow> nat list \<Rightarrow> 'a gstore \<times> 'a gthread list \<Rightarrow> 'a gstore \<times> 'a gthread list" where
  "run_threads z [] st = st"
| "run_threads z (i # is) (s, ts) =
     (if i < length ts
      then case gstep z s (ts ! i) of (s', t') \<Rightarrow> run_threads z is (s', ts[i := t'])
      else run_threads z is (s, ts))"

lemma greach_run: "greach z st \<Longrightarrow> greach z (run_threads z is st)"
proof (induction z "is" st rule: run_threads.induct)
  case (1 z st)
  then show ?case by simp
next
  case (2 z i "is" s ts)
  obtain s' t' where g: "gstep z s (ts ! i) = (s', t')" by (cases "gstep z s (ts ! i)")
  then have "greach z (s', ts[i := t'])" if "i < length ts"
    using "2.prems" that by (blast intro: greach.step gsys_step.run)
  then show ?case using 2 g by simp
qed

section \<open>Properties\<close>

text \<open>
  C6. Safe for concurrent use: in every reachable state, whatever the interleaving of the
  threads' atomic loads, compare-and-swaps and element writes, every completed
  \<open>Append\<close> or \<open>AppendSlice\<close> still reads back exactly the values it stored, from a
  range inside its node.
\<close>

theorem concurrent_appends_readback:
  assumes "greach z (s, ts)" and "t \<in> set ts" and "(b, k, vs) \<in> set (th_got t)"
  shows "map (gs_cell s b) [k..<k + length vs] = vs \<and>
           b < length (gs_nodes s) \<and> k + length vs \<le> gn_len (gs_nodes s ! b)"
proof -
  have ok: "store_ok s" and t: "thread_ok s t"
    using greach_ok [OF assms(1)] assms(2) by (auto simp: sys_ok_def)
  have "range_ok s (b, k, k + length vs)" using got_range_ok [OF t assms(3)] .
  then have "b < length (gs_nodes s) \<and> k + length vs \<le> gn_len (gs_nodes s ! b)"
    using ok by (force simp: range_ok_def store_ok_def)
  moreover have "\<forall>i < length vs. gs_cell s b (k + i) = vs ! i"
    using t assms(3) by (auto simp: thread_ok_def got_ok_def)
  ultimately show ?thesis by (auto intro!: nth_equalityI)
qed

text \<open>
  A contended run: both threads load offset 0, the second one's compare-and-swap fails and
  it retries.
\<close>

definition contended :: "nat gstore \<times> nat gthread list" where
  "contended = run_threads 0 [0, 0, 0, 1, 1, 1, 0, 0, 0, 1, 1, 1, 1, 1, 1, 1]
     (NewStore 0, map fresh_thread [[[7]], [[8, 9]]])"

lemma contended_reach: "greach 0 contended"
  unfolding contended_def by (intro greach_run greach.start) (auto simp: small_def)

lemma contended_got: "map th_got (snd contended) = [[(0, 0, [7])], [(0, 1, [8, 9])]]"
  by code_simp

lemma contended_threads:
  obtains t u where "snd contended = [t, u]" and "th_got t = [(0, 0, [7])]"
    and "th_got u = [(0, 1, [8, 9])]"
  using contended_got by (auto simp: map_eq_Cons_conv)

theorem concurrent_appends_readback_witness:
  "map (gs_cell (fst contended) 0) [1..<3] = [8, 9]"
proof -
  obtain t u where "snd contended = [t, u]" "th_got u = [(0, 1, [8, 9])]"
    by (rule contended_threads)
  then have "u \<in> set (snd contended)" "(0, 1, [8, 9]) \<in> set (th_got u)" by auto
  moreover have "greach 0 (fst contended, snd contended)" using contended_reach by simp
  ultimately show ?thesis
    using concurrent_appends_readback [of 0 "fst contended" "snd contended" u 0 1 "[8, 9]"]
    by (simp add: numeral_3_eq_3)
qed

text \<open>
  C7. Claimed ranges never overlap: in every reachable state any two completed calls, of the
  same thread or of two threads, own disjoint ranges of the arena.
\<close>

theorem concurrent_appends_disjoint:
  assumes "greach z (s, ts)" and "i < length ts" and "j < length ts"
    and "p < length (th_got (ts ! i))" and "q < length (th_got (ts ! j))" and "(i, p) \<noteq> (j, q)"
  shows "disj (result_range (th_got (ts ! i) ! p)) (result_range (th_got (ts ! j) ! q))"
proof (cases "i = j")
  case False
  have "result_range (th_got (ts ! n) ! m) \<in> set (th_ranges (ts ! n))" if "m < length (th_got (ts ! n))" for n m
    using that by (simp add: th_ranges_def)
  then show ?thesis
    using greach_ok [OF assms(1)] assms False unfolding sys_ok_def by (metis fst_conv snd_conv)
next
  case True
  have srt: "sorted_wrt disj (map result_range (th_got (ts ! i)))"
    using greach_ok [OF assms(1)] assms(2)
    by (auto simp: sys_ok_def thread_ok_def th_ranges_def sorted_wrt_append)
  have "disj (result_range (th_got (ts ! i) ! m)) (result_range (th_got (ts ! i) ! n))"
    if "m < n" "n < length (th_got (ts ! i))" for m n
    using sorted_wrt_nth_less [OF srt that(1)] that by simp
  then show ?thesis using assms True disj_sym by (metis linorder_neqE_nat)
qed

theorem concurrent_appends_disjoint_witness:
  "disj (0, 0, 1) (0, 1, 3)"
proof -
  obtain t u where ts: "snd contended = [t, u]" and "th_got t = [(0, 0, [7])]"
    "th_got u = [(0, 1, [8, 9])]"
    by (rule contended_threads)
  moreover have "greach 0 (fst contended, [t, u])" using contended_reach ts by (metis prod.collapse)
  ultimately show ?thesis
    using concurrent_appends_disjoint [of 0 "fst contended" "[t, u]" 0 1 0 0]
    by (simp add: result_range_def numeral_3_eq_3)
qed

text \<open>
  C21. No thread can be blocked by the others: from any reachable state, in whatever position
  the other threads stopped, a thread that has a call to make and runs alone completes it
  within seven steps plus one per element copied.
\<close>

theorem append_obstruction_free:
  assumes "greach z (s, ts)" and "t \<in> set ts" and "th_todo t \<noteq> []"
  shows "\<exists>n \<le> 7 + length (hd (th_todo t)). \<exists>s' t' b k. solo z n s t = (s', t') \<and>
           th_got t' = th_got t @ [(b, k, hd (th_todo t))] \<and> th_todo t' = tl (th_todo t)"
proof -
  have "thread_ok s t" using greach_ok [OF assms(1)] assms(2) by (auto simp: sys_ok_def)
  then have "claims_within z 6 s t" using assms(3) by (rule claim_from_anywhere)
  then obtain n s1 t1 b k j where n: "n \<le> 6" and run: "solo z n s t = (s1, t1)"
    and pc: "th_pc t1 = Copying b k j" and j: "j \<le> length (hd (th_todo t))"
    and same: "th_todo t1 = th_todo t" "th_got t1 = th_got t"
    by (auto simp: claims_within_def)
  obtain s' t' where "solo z (Suc (length (hd (th_todo t)) - j)) s1 t1 = (s', t')"
    "th_got t' = th_got t @ [(b, k, hd (th_todo t))]" "th_todo t' = tl (th_todo t)"
    using solo_copy [of t1 b k j z s1] pc j same by auto
  then show ?thesis
    using n run solo_add [of z n "Suc (length (hd (th_todo t)) - j)" s t]
    by (intro exI [of _ "n + Suc (length (hd (th_todo t)) - j)"]) auto
qed

theorem append_obstruction_free_witness:
  "\<exists>n \<le> 8. \<exists>s' t' b k. solo 0 n (NewStore 0) (fresh_thread [[7::nat]]) = (s', t') \<and>
     th_got t' = [(b, k, [7])]"
  using append_obstruction_free
    [of 0 "NewStore 0" "[fresh_thread [[7::nat]]]" "fresh_thread [[7]]"]
    greach.start [of "[[[7::nat]]]" 0]
  by (fastforce simp: small_def fresh_thread_def)

end
