(* ===== verification/Generic_Store_Seq.thy ===== *)
theory Generic_Store_Seq
  imports Generic_Store
begin

text \<open>
  \<open>stores/generic_store.go\<close> as its callers use it: \<open>Append\<close> and \<open>AppendSlice\<close> as one
  operation on a heap of blocks. The refinement theorem ties this view to the concurrent
  program of \<open>Generic_Store\<close>: a call that no other thread interferes with is exactly
  the sequential operation. The interpretation gives the store interface for \<open>Append\<close>,
  which is what the ancestor chain of the walk rests on.
\<close>

record generic_store =
  gst_tail :: nat
  gst_off :: nat

definition genericNodeCap :: nat where
  "genericNodeCap = unat defaultGenericNodeSize"

definition gst_new :: "'a \<Rightarrow> 'a mem \<Rightarrow> generic_store \<times> 'a mem" where
  "gst_new z m =
     (case mem_alloc genericNodeCap z m of (b, m') \<Rightarrow> (\<lparr>gst_tail = b, gst_off = 0\<rparr>, m'))"

definition gst_ensureCap ::
  "'a \<Rightarrow> nat \<Rightarrow> generic_store \<Rightarrow> 'a mem \<Rightarrow> span \<times> generic_store \<times> 'a mem" where
  "gst_ensureCap z cap s m =
     (if cap > genericNodeCap then
        (case mem_alloc cap z m of (b, m') \<Rightarrow> (Span b 0 cap, s, m'))
      else
        let (n, nOff, m) =
          (if genericNodeCap - gst_off s < cap then
             (case mem_alloc genericNodeCap z m of (b, m') \<Rightarrow> (b, 0, m'))
           else (gst_tail s, gst_off s, m))
        in (Span n nOff cap, \<lparr>gst_tail = n, gst_off = nOff + cap\<rparr>, m))"

definition AppendSlice ::
  "'a \<Rightarrow> 'a list \<Rightarrow> generic_store \<Rightarrow> 'a mem \<Rightarrow> span \<times> generic_store \<times> 'a mem" where
  "AppendSlice z items s m =
     (case gst_ensureCap z (length items) s m of
        (Span b k n, s, m) \<Rightarrow> (Span b k n, s, mem_write b k items m))"

text \<open>A pointer to one cell: block and index.\<close>

type_synonym ptr = "nat \<times> nat"

definition Append ::
  "'a \<Rightarrow> 'a \<Rightarrow> generic_store \<Rightarrow> 'a mem \<Rightarrow> ptr \<times> generic_store \<times> 'a mem" where
  "Append z v s m =
     (case gst_ensureCap z 1 s m of
        (Span b k n, s, m) \<Rightarrow> ((b, k), s, mem_write b k [v] m))"

lemmas [model_defs] = gst_new_def gst_ensureCap_def AppendSlice_def Append_def
  genericNodeCap_def defaultGenericNodeSize_def

lemma genericNodeCap_1024: "genericNodeCap = 1024"
  by (simp add: genericNodeCap_def defaultGenericNodeSize_def)

lemma unat_defaultGenericNodeSize [simp]: "unat defaultGenericNodeSize = 1024"
  by (simp add: defaultGenericNodeSize_def)

section \<open>An uncontended call is the sequential operation\<close>

definition seq_heap :: "'a gstore \<Rightarrow> 'a mem" where
  "seq_heap s = \<lparr>mlens = map gn_len (gs_nodes s), mcell = gs_cell s\<rparr>"

definition seq_store :: "'a gstore \<Rightarrow> generic_store" where
  "seq_store s = \<lparr>gst_tail = gs_top s, gst_off = unat (gn_off (gs_nodes s ! gs_top s))\<rparr>"

lemma solo_copy_state:
  assumes "th_pc t = Copying b k j" and "j \<le> length vs" and "th_todo t = vs # rest"
  shows "\<exists>t'. solo z (Suc (length vs) - j) s t =
           (s\<lparr>gs_cell := (gs_cell s)(b := (\<lambda>i. if k + j \<le> i \<and> i < k + length vs then vs ! (i - k)
                                          else gs_cell s b i))\<rparr>, t') \<and>
           th_got t' = th_got t @ [(b, k, vs)] \<and> th_todo t' = rest \<and> th_pc t' = Idle"
  using assms
proof (induction "length vs - j" arbitrary: j s t)
  case 0
  then have "j = length vs" by simp
  moreover have "gs_cell s = (gs_cell s)(b := (\<lambda>i. if k + length vs \<le> i \<and> i < k + length vs
      then vs ! (i - k) else gs_cell s b i))"
    by (intro ext) auto
  ultimately show ?case using 0 by (simp add: gstep_def)
next
  case (Suc n)
  let ?s = "s\<lparr>gs_cell := (gs_cell s)(b := (gs_cell s b)(k + j := vs ! j))\<rparr>"
  let ?t = "t\<lparr>th_pc := Copying b k (Suc j)\<rparr>"
  have j: "j < length vs" using Suc.hyps(2) by auto
  have st: "gstep z s t = (?s, ?t)" using Suc.prems j by (simp add: gstep_def)
  have cells: "(\<lambda>i. if k + Suc j \<le> i \<and> i < k + length vs then vs ! (i - k)
          else ((gs_cell s b)(k + j := vs ! j)) i) =
      (\<lambda>i. if k + j \<le> i \<and> i < k + length vs then vs ! (i - k) else gs_cell s b i)"
    using j by (intro ext) (auto simp: le_less Suc_le_eq)
  have "solo z (Suc (length vs) - j) s t = solo z (Suc (length vs) - Suc j) ?s ?t"
    using st j by (simp add: Suc_diff_le)
  then show ?case
    using Suc.hyps(1) [of "Suc j" ?t ?s] Suc.hyps(2) Suc.prems j cells
    by (simp cong: if_cong)
qed

lemma solo_prefix:
  assumes "solo z m s t = (s1, t1)" and "solo z n s1 t1 = (s2, t2)"
  shows "solo z (m + n) s t = (s2, t2)"
  using assms by (simp add: solo_add)

text \<open>
  C22. Refinement of the lock-free call by the sequential one: in any well-formed state, a
  thread that makes its call undisturbed returns the span, and leaves the store and the
  heap, that the sequential \<open>AppendSlice\<close> computes.
\<close>

theorem solo_refines_AppendSlice:
  assumes ok: "store_ok s" and pc: "th_pc t = Idle" and todo: "th_todo t = vs # rest"
    and small: "small (vs # rest)"
  shows "\<exists>n s' t' b k. solo z n s t = (s', t') \<and> th_got t' = th_got t @ [(b, k, vs)] \<and>
           AppendSlice z vs (seq_store s) (seq_heap s) =
             (Span b k (length vs), seq_store s', seq_heap s')"
proof -
  have cap: "unat (th_cap t) = length vs" using unat_cap [of t] todo small by simp
  let ?top = "gs_top s" and ?off = "gn_off (gs_nodes s ! gs_top s)" and ?new = "length (gs_nodes s)"
  have top: "?top < length (gs_nodes s)" and off: "unat ?off \<le> 1024"
    using ok by (auto simp: store_ok_def arena_node_def)
  have fin: "?thesis"
    if run: "solo z m s t = (s1, t1)" and t1: "th_pc t1 = Copying b k 0" "th_todo t1 = vs # rest" "th_got t1 = th_got t"
      and seq: "gst_ensureCap z (length vs) (seq_store s) (seq_heap s) =
                  (Span b k (length vs), seq_store s1, seq_heap s1)" for m s1 t1 b k
  proof -
    obtain s' t' where cp: "solo z (Suc (length vs)) s1 t1 = (s', t')"
      and got: "th_got t' = th_got t @ [(b, k, vs)]"
      and s': "s' = s1\<lparr>gs_cell := (gs_cell s1)(b := (\<lambda>i. if k \<le> i \<and> i < k + length vs then vs ! (i - k)
                                          else gs_cell s1 b i))\<rparr>"
      using solo_copy_state [OF t1(1) _ t1(2), of z s1] t1(3) by auto
    have "seq_store s' = seq_store s1" and "seq_heap s' = mem_write b k vs (seq_heap s1)"
      by (simp_all add: s' seq_store_def seq_heap_def mem_write_def cong: if_cong)
    then show ?thesis
      using solo_prefix [OF run cp] got seq
      by (intro exI [of _ "m + Suc (length vs)"]) (auto simp: AppendSlice_def simp del: solo.simps)
  qed
  let ?t0 = "t\<lparr>th_spins := 0, th_pc := LoopTop\<rparr>"
  let ?t1 = "t\<lparr>th_spins := 0, th_pc := LoadedOff ?top ?off\<rparr>"
  have start: "solo z 3 s t = (s, ?t1)" if "\<not> defaultGenericNodeSize < th_cap t"
    using that pc todo by (simp add: numeral_3_eq_3 gstep_def)
  consider (big) "1024 < length vs" | (swap) "length vs \<le> 1024" "1024 - unat ?off < length vs"
    | (fit) "length vs \<le> 1024" "unat ?off + length vs \<le> 1024" using off by linarith
  then show ?thesis
  proof cases
    case big
    then have "defaultGenericNodeSize < th_cap t"
      using cap by (simp add: defaultGenericNodeSize_def word_less_nat_alt)
    then have run: "solo z 1 s t =
        (s\<lparr>gs_nodes := gs_nodes s @ [\<lparr>gn_len = unat (th_cap t), gn_off = th_cap t\<rparr>],
           gs_cell := (gs_cell s)(?new := (\<lambda>_. z))\<rparr>, t\<lparr>th_pc := Copying ?new 0 0\<rparr>)"
      using pc todo by (simp add: gstep_def)
    show ?thesis
      by (rule fin [OF run])
        (use big pc todo cap top in \<open>auto simp: gst_ensureCap_def genericNodeCap_1024 mem_alloc_def seq_heap_def
          seq_store_def nth_append\<close>)
  next
    case swap
    then have c: "\<not> defaultGenericNodeSize < th_cap t" "defaultGenericNodeSize - ?off < th_cap t"
      using room_check [of ?off "th_cap t"] off cap
      by (auto simp: defaultGenericNodeSize_def word_less_nat_alt)
    let ?c = "(gs_cell s)(?new := (\<lambda>_. z))"
    let ?s = "s\<lparr>gs_nodes := gs_nodes s @ [\<lparr>gn_len = 1024, gn_off = th_cap t\<rparr>], gs_top := ?new, gs_cell := ?c\<rparr>"
    have "solo z 2 s ?t1 = (?s, t\<lparr>th_spins := 0, th_pc := Copying ?new 0 0\<rparr>)"
      using c by (simp add: numeral_2_eq_2 gstep_def casOff_def th_cap_def)
    then have run: "solo z 5 s t = (?s, t\<lparr>th_spins := 0, th_pc := Copying ?new 0 0\<rparr>)"
      using solo_prefix [OF start [OF c(1)]] by fastforce
    show ?thesis
      by (rule fin [OF run])
        (use swap todo cap off in \<open>auto simp: gst_ensureCap_def genericNodeCap_1024 mem_alloc_def
          seq_heap_def seq_store_def\<close>)
  next
    case fit
    then have c: "\<not> defaultGenericNodeSize < th_cap t" "\<not> defaultGenericNodeSize - ?off < th_cap t"
      using room_check [of ?off "th_cap t"] off cap
      by (auto simp: defaultGenericNodeSize_def word_less_nat_alt)
    let ?s = "s\<lparr>gs_nodes := (gs_nodes s)[?top := (gs_nodes s ! ?top)\<lparr>gn_off := ?off + th_cap t\<rparr>]\<rparr>"
    have "solo z 1 s ?t1 = (?s, t\<lparr>th_spins := 0, th_pc := Copying ?top (unat ?off) 0\<rparr>)"
      using c by (simp add: gstep_def casOff_def th_cap_def)
    then have run: "solo z 4 s t = (?s, t\<lparr>th_spins := 0, th_pc := Copying ?top (unat ?off) 0\<rparr>)"
      using solo_prefix [OF start [OF c(1)]] by fastforce
    have "map gn_len (gs_nodes ?s) = map gn_len (gs_nodes s)"
      using top by (auto simp: map_update intro!: list_update_same_conv [THEN iffD2])
    moreover have "unat (?off + th_cap t) = unat ?off + length vs"
      using unat_add_claim [of ?off "th_cap t"] fit cap by simp
    ultimately show ?thesis
      by (intro fin [OF run])
        (use fit todo top in \<open>auto simp: gst_ensureCap_def genericNodeCap_1024 seq_heap_def seq_store_def\<close>)
  qed
qed

theorem solo_refines_AppendSlice_witness:
  "\<exists>n s' t' b k. solo 0 n (NewStore 0) (fresh_thread [[7, 8::nat]]) = (s', t') \<and>
     th_got t' = [(b, k, [7, 8])] \<and>
     AppendSlice 0 [7, 8] (seq_store (NewStore (0::nat))) (seq_heap (NewStore 0)) =
       (Span b k 2, seq_store s', seq_heap s')"
proof -
  have ok: "store_ok (NewStore (0::nat))" using sys_ok_init [of "[]" 0] by (simp add: sys_ok_def)
  have t: "th_pc (fresh_thread [[7, 8::nat]]) = Idle" "th_todo (fresh_thread [[7, 8::nat]]) = [[7, 8]]"
    "th_got (fresh_thread [[7, 8::nat]]) = []" "small [[7, 8::nat]]"
    by (simp_all add: fresh_thread_def small_def)
  show ?thesis
    using solo_refines_AppendSlice [OF ok t(1,2,4), of 0] t(3) by (simp add: numeral_2_eq_2)
qed

section \<open>The sequential store implements the store interface\<close>

abbreviation gst_arena :: "generic_store \<Rightarrow> arena" where
  "gst_arena s \<equiv> (gst_tail s, gst_off s)"

definition generic_wf :: "'a \<Rightarrow> generic_store \<times> 'a mem \<Rightarrow> bool" where
  "generic_wf z st \<longleftrightarrow> arenas_wf genericNodeCap z [gst_arena (fst st)] (snd st)"

definition ptr_span :: "ptr \<Rightarrow> span" where
  "ptr_span p = Span (fst p) (snd p) 1"

definition ptr_ok :: "generic_store \<times> 'a mem \<Rightarrow> ptr \<Rightarrow> bool" where
  "ptr_ok st p \<longleftrightarrow> span_ok [gst_arena (fst st)] (snd st) (ptr_span p)"

definition deref :: "'a mem \<Rightarrow> ptr \<Rightarrow> 'a" where
  "deref m p = mcell m (fst p) (snd p)"

lemma Append_put:
  "Append z v s m =
     (case arena_put genericNodeCap z 1 [v] (gst_arena s) m of
        (r, a, m') \<Rightarrow> ((sp_blk r, sp_off r), \<lparr>gst_tail = fst a, gst_off = snd a\<rparr>, m'))"
  by (cases s) (simp add: Append_def gst_ensureCap_def arena_put_def arena_claim_def mem_alloc_def)

lemma Append_ok:
  assumes wf: "generic_wf z (s, m)" and eq: "Append z v s m = (p, s', m')"
  shows "generic_wf z (s', m')" and "keeps [gst_arena s] m [gst_arena s'] m'"
    and "ptr_ok (s', m') p" and "deref m' p = v"
proof -
  obtain r a where put: "arena_put genericNodeCap z 1 [v] ([gst_arena s] ! 0) m = (r, a, m')"
    and p: "p = (sp_blk r, sp_off r)" and s': "s' = \<lparr>gst_tail = fst a, gst_off = snd a\<rparr>"
    using eq by (auto simp: Append_put split: prod.splits)
  note st = arena_put_stored [OF wf [unfolded generic_wf_def, simplified] _ _ put, simplified]
  show "generic_wf z (s', m')" and "keeps [gst_arena s] m [gst_arena s'] m'"
    using st(1,2) by (simp_all add: generic_wf_def s')
  obtain b k where r: "r = Span b k 1" using st(4) by (cases r) auto
  show "ptr_ok (s', m') p" using st(3) by (simp add: ptr_ok_def ptr_span_def p r s')
  show "deref m' p = v" using st(5) by (simp add: deref_def p r)
qed

lemma keeps_ptr_ok [keeps_dest]:
  assumes "keeps [gst_arena s] m [gst_arena s'] m'" and "ptr_ok (s, m) p"
  shows "ptr_ok (s', m') p" and "deref m' p = deref m p"
proof -
  have sp: "span_ok [gst_arena s] m (ptr_span p)" using assms(2) by (simp add: ptr_ok_def)
  show "ptr_ok (s', m') p" using keeps_span_ok [OF assms(1) sp] by (simp add: ptr_ok_def)
  show "deref m' p = deref m p"
    using keeps_read [OF assms(1) sp] by (simp add: deref_def ptr_span_def)
qed

definition gst_put :: "'a \<Rightarrow> 'a \<Rightarrow> generic_store \<times> 'a mem \<Rightarrow> (ptr \<times> generic_store \<times> 'a mem) outcome" where
  "gst_put z v st = Ret (Append z v (fst st) (snd st))"

interpretation cells: append_store "generic_wf z" "\<lambda>st v. True" "gst_put z" ptr_ok
  "\<lambda>st. deref (snd st)" "\<lambda>st v. v" for z
proof unfold_locales
  fix s :: "generic_store \<times> 'a mem" and v u :: 'a and r q :: ptr and s'
  show "\<exists>r s'. gst_put z v s = Ret (r, s')" by (cases "Append z v (fst s) (snd s)") (simp add: gst_put_def)
  assume law: "generic_wf z s" "gst_put z v s = Ret (r, s')"
  then have ap: "Append z v (fst s) (snd s) = (r, fst s', snd s')" by (simp add: gst_put_def)
  have wf: "generic_wf z (fst s, snd s)" using law by simp
  note ok = Append_ok [OF wf ap]
  show "generic_wf z s'" "ptr_ok s' r" "deref (snd s') r = v" using ok by simp_all
  show "ptr_ok s q \<Longrightarrow> ptr_ok s' q" and "ptr_ok s q \<Longrightarrow> deref (snd s') q = deref (snd s) q"
    using keeps_ptr_ok [OF ok(2)] by simp_all
qed simp_all

lemma gst_new_ok: "gst_new z m = (s, m') \<Longrightarrow> generic_wf z (s, m')"
  using arena_new_node(1) [of genericNodeCap z "[]" m]
  by (auto simp: gst_new_def generic_wf_def split: prod.splits)

end
