(* ===== verification/String_Store.thy ===== *)
theory String_Store
  imports Append_Store
begin

text \<open>
  \<open>stores/string_store.go\<close>: the per-worker string arena. A Go string is the span of its
  bytes; the heap \<open>m\<close> holds the nodes of every worker's store, and each operation takes and
  returns the store and the heap. The lemmas show that every operation is one instance of
  \<open>arena_put\<close>, so that a stored string reads back its bytes forever, and that the \<open>Z\<close>
  variants leave a NUL right behind the string that no later operation overwrites.

  Offsets and lengths are \<open>nat\<close>: they never exceed the node size (1024) or the length of
  the one string being stored, so Go's \<open>int\<close> arithmetic does not overflow.
\<close>

section \<open>The store and its operations\<close>

definition defaultStringNodeSize :: nat where
  "defaultStringNodeSize = 1024"

definition PathSeparator :: byte where
  "PathSeparator = 47"

record string_store =
  ss_tail :: nat
  ss_off :: nat

definition NewStringStore :: "byte mem \<Rightarrow> string_store \<times> byte mem" where
  "NewStringStore m =
     (case mem_alloc defaultStringNodeSize 0 m of (b, m') \<Rightarrow> (\<lparr>ss_tail = b, ss_off = 0\<rparr>, m'))"

definition ss_ensureCap ::
  "nat \<Rightarrow> string_store \<Rightarrow> byte mem \<Rightarrow> span \<times> string_store \<times> byte mem" where
  "ss_ensureCap n ss m =
     (if n > defaultStringNodeSize then
        (case mem_alloc n 0 m of (b, m') \<Rightarrow> (Span b 0 n, ss, m'))
      else
        let (ss, m) =
          (if defaultStringNodeSize - ss_off ss < n then
             (case mem_alloc defaultStringNodeSize 0 m of
                (b, m') \<Rightarrow> (ss\<lparr>ss_tail := b, ss_off := 0\<rparr>, m'))
           else (ss, m));
          back = Span (ss_tail ss) (ss_off ss) n
        in (back, ss\<lparr>ss_off := ss_off ss + n\<rparr>, m))"

definition StoreBytes ::
  "byte list \<Rightarrow> string_store \<Rightarrow> byte mem \<Rightarrow> span \<times> string_store \<times> byte mem" where
  "StoreBytes buf ss m =
     (case ss_ensureCap (length buf) ss m of
        (Span b k n, ss, m) \<Rightarrow> (Span b k (length buf), ss, mem_write b k buf m))"

definition StoreString ::
  "span \<Rightarrow> string_store \<Rightarrow> byte mem \<Rightarrow> span \<times> string_store \<times> byte mem" where
  "StoreString str ss m =
     (case ss_ensureCap (sp_len str) ss m of
        (Span b k n, ss, m) \<Rightarrow> (Span b k (sp_len str), ss, mem_write b k (mem_read m str) m))"

definition StoreStringZ ::
  "span \<Rightarrow> string_store \<Rightarrow> byte mem \<Rightarrow> span \<times> string_store \<times> byte mem" where
  "StoreStringZ str ss m =
     (case ss_ensureCap (sp_len str + 1) ss m of
        (Span b k n, ss, m) \<Rightarrow> (Span b k (sp_len str), ss, mem_write b k (mem_read m str) m))"

text \<open>\<open>parent[plen-1] != os.PathSeparator\<close>: an empty parent is an index panic.\<close>

definition path_sep :: "byte mem \<Rightarrow> span \<Rightarrow> nat outcome" where
  "path_sep m parent =
     (if sp_len parent = 0 then Panic IndexOutOfRange
      else Ret (if mem_read m parent ! (sp_len parent - 1) \<noteq> PathSeparator then 1 else 0))"

definition StorePath ::
  "span \<Rightarrow> span \<Rightarrow> string_store \<Rightarrow> byte mem \<Rightarrow> (span \<times> string_store \<times> byte mem) outcome" where
  "StorePath parent child ss m =
     obind (path_sep m parent) (\<lambda>sep.
       let plen = sp_len parent;
           total = plen + sep + sp_len child
       in case ss_ensureCap total ss m of
            (Span b k n, ss, m) \<Rightarrow>
              let m = mem_write b k (mem_read m parent) m;
                  m = (if sep = 1 then mem_write b (k + plen) [PathSeparator] m else m);
                  m = mem_write b (k + plen + sep) (mem_read m child) m
              in Ret (Span b k total, ss, m))"

definition StorePathZ ::
  "span \<Rightarrow> span \<Rightarrow> string_store \<Rightarrow> byte mem \<Rightarrow> (span \<times> string_store \<times> byte mem) outcome" where
  "StorePathZ parent child ss m =
     obind (path_sep m parent) (\<lambda>sep.
       let plen = sp_len parent;
           total = plen + sep + sp_len child
       in case ss_ensureCap (total + 1) ss m of
            (Span b k n, ss, m) \<Rightarrow>
              let m = mem_write b k (mem_read m parent) m;
                  m = (if sep = 1 then mem_write b (k + plen) [PathSeparator] m else m);
                  m = mem_write b (k + plen + sep) (mem_read m child) m
              in Ret (Span b k total, ss, m))"

definition NewStringZ :: "gostring \<Rightarrow> byte mem \<Rightarrow> span \<times> byte mem" where
  "NewStringZ s m =
     (case mem_alloc (length s + 1) 0 m of
        (b, m') \<Rightarrow> (Span b 0 (length s), mem_write b 0 s m'))"

lemmas [model_defs] = NewStringStore_def ss_ensureCap_def StoreBytes_def StoreString_def
  StoreStringZ_def path_sep_def StorePath_def StorePathZ_def NewStringZ_def
  defaultStringNodeSize_def PathSeparator_def mem_alloc_def mem_write_def

section \<open>What the kernel sees of a stored string\<close>

text \<open>
  \<open>unsafe.StringData(s)\<close> as a C string: the bytes from the string's first byte to the
  first NUL of its block; \<open>None\<close> when the block holds none, so a reader would run off it.
\<close>

fun cstring_at :: "byte mem \<Rightarrow> span \<Rightarrow> byte list option" where
  "cstring_at m (Span b k n) =
     (let bs = map (mcell m b) [k..<mlens m ! b]
      in if 0 \<in> set bs then Some (cstr bs) else None)"

text \<open>The string is followed by a frozen NUL.\<close>

definition strz_ok :: "arena list \<Rightarrow> byte mem \<Rightarrow> span \<Rightarrow> bool" where
  "strz_ok as m s \<longleftrightarrow>
     span_ok as m (Span (sp_blk s) (sp_off s) (sp_len s + 1)) \<and>
     mcell m (sp_blk s) (sp_off s + sp_len s) = 0"

lemma strz_ok_span_ok: "strz_ok as m s \<Longrightarrow> span_ok as m s"
  unfolding strz_ok_def by (cases s) (auto elim: span_ok_sub)

lemma keeps_strz_ok [keeps_dest]:
  assumes "keeps as m as' m'" and "strz_ok as m s"
  shows "strz_ok as' m' s"
  using assms keeps_span_ok [OF assms(1)]
  unfolding strz_ok_def keeps_def span_ok_def by (cases s) auto

lemma strz_ok_cstring_at:
  assumes "strz_ok as m s"
  shows "cstring_at m s = Some (cstr (mem_read m s))"
proof -
  obtain b k n where s: "s = Span b k n" by (cases s)
  have le: "k + n < mlens m ! b" and z: "mcell m b (k + n) = 0"
    using assms by (auto simp: strz_ok_def span_ok_def s)
  then have "[k..<mlens m ! b] = [k..<k + n] @ (k + n) # [Suc (k + n)..<mlens m ! b]"
    by (intro upt_split) auto
  then have "map (mcell m b) [k..<mlens m ! b] =
      mem_read m s @ 0 # map (mcell m b) [Suc (k + n)..<mlens m ! b]"
    by (simp add: s z)
  then show ?thesis by (simp add: s cstr_append_nul)
qed

section \<open>Every operation is one \<open>arena_put\<close>\<close>

abbreviation ss_arena :: "string_store \<Rightarrow> arena" where
  "ss_arena ss \<equiv> (ss_tail ss, ss_off ss)"

definition strings_wf :: "string_store list \<Rightarrow> byte mem \<Rightarrow> bool" where
  "strings_wf sss m \<longleftrightarrow> arenas_wf defaultStringNodeSize 0 (map ss_arena sss) m"

definition path_join :: "byte list \<Rightarrow> byte list \<Rightarrow> byte list" where
  "path_join p c = p @ (if last p \<noteq> PathSeparator then [PathSeparator] else []) @ c"

lemma ss_ensureCap_claim:
  "ss_ensureCap n ss m =
     (case arena_claim defaultStringNodeSize 0 n (ss_arena ss) m of
        (s, a, m') \<Rightarrow> (s, \<lparr>ss_tail = fst a, ss_off = snd a\<rparr>, m'))"
  by (cases ss) (simp add: ss_ensureCap_def arena_claim_def mem_alloc_def)

lemma StoreBytes_put:
  "StoreBytes buf ss m =
     (case arena_put defaultStringNodeSize 0 (length buf) buf (ss_arena ss) m of
        (s, a, m') \<Rightarrow> (Span (sp_blk s) (sp_off s) (length buf), \<lparr>ss_tail = fst a, ss_off = snd a\<rparr>, m'))"
  by (simp add: StoreBytes_def ss_ensureCap_claim arena_put_def split: prod.split span.split)

text \<open>Writing into freshly claimed cells changes no string that was valid before.\<close>

lemma claimed_write_read:
  assumes "claimed z as m as' m' s" and "span_ok as m q" and "d + length ys \<le> sp_len s"
  shows "mem_read (mem_write (sp_blk s) (sp_off s + d) ys m') q = mem_read m q"
  using assms keeps_read [of as m as' m' q]
  by (cases q) (force simp: claimed_def span_ok_def mcell_mem_write)

lemma path_sep_eq:
  assumes "sp_len parent \<noteq> 0"
  shows "path_sep m parent = Ret (if last (mem_read m parent) \<noteq> PathSeparator then 1 else 0)"
proof -
  have "mem_read m parent \<noteq> []" using assms by (metis length_0_conv length_mem_read)
  then show ?thesis using assms by (simp add: path_sep_def last_conv_nth)
qed

lemma length_path_join:
  "length (path_join p c) = length p + (if last p \<noteq> PathSeparator then 1 else 0) + length c"
  by (simp add: path_join_def)

lemma StorePath_writes:
  assumes c: "claimed z as m as' m' (Span b k n)" and p: "span_ok as m parent"
    and q: "span_ok as m child" and sep: "sep = (if last (mem_read m parent) \<noteq> PathSeparator then 1 else 0)"
    and n: "sp_len parent + sep + sp_len child \<le> n"
  shows "(let m1 = mem_write b k (mem_read m' parent) m';
              m2 = (if sep = 1 then mem_write b (k + sp_len parent) [PathSeparator] m1 else m1)
          in mem_write b (k + sp_len parent + sep) (mem_read m2 child) m2) =
         mem_write b k (path_join (mem_read m parent) (mem_read m child)) m'"
proof -
  let ?P = "mem_read m parent" and ?S = "if sep = 1 then [PathSeparator] else []"
  have kp: "keeps as m as' m'" using c by (simp add: claimed_def)
  have P: "mem_read m' parent = ?P" by (rule keeps_read [OF kp p])
  have len: "length ?P = sp_len parent" "length ?S = sep" using sep by auto
  have m2: "(if sep = 1 then mem_write b (k + sp_len parent) [PathSeparator] (mem_write b k ?P m')
             else mem_write b k ?P m') = mem_write b k (?P @ ?S) m'"
    using mem_write_append [of b k ?P "[PathSeparator]" m'] len by auto
  have "mem_read (mem_write b k (?P @ ?S) m') child = mem_read m child"
    using claimed_write_read [OF c q, of 0 "?P @ ?S"] n len by simp
  moreover have "mem_write b (k + sp_len parent + sep) (mem_read m child) (mem_write b k (?P @ ?S) m')
      = mem_write b k (?P @ ?S @ mem_read m child) m'"
    using mem_write_append [of b k "?P @ ?S" "mem_read m child" m'] len
    by (simp add: add.assoc)
  moreover have "?P @ ?S @ mem_read m child = path_join ?P (mem_read m child)"
    using sep by (simp add: path_join_def)
  ultimately show ?thesis unfolding Let_def P m2 by simp
qed

text \<open>The result of an \<open>arena_put\<close> of a string with \<open>pad\<close> spare bytes.\<close>

definition string_put ::
  "nat \<Rightarrow> byte list \<Rightarrow> string_store \<Rightarrow> byte mem \<Rightarrow> span \<times> string_store \<times> byte mem" where
  "string_put pad ys ss m =
     (case arena_put defaultStringNodeSize 0 (length ys + pad) ys (ss_arena ss) m of
        (s, a, m') \<Rightarrow> (Span (sp_blk s) (sp_off s) (length ys), \<lparr>ss_tail = fst a, ss_off = snd a\<rparr>, m'))"

lemma StoreBytes_string_put: "StoreBytes buf ss m = string_put 0 buf ss m"
  by (simp add: StoreBytes_put string_put_def)

lemma ensureCap_claimed:
  assumes wf: "strings_wf sss m" and i: "i < length sss"
    and eq: "ss_ensureCap n (sss ! i) m = (s, ss', m')"
  shows "claimed 0 (map ss_arena sss) m (map ss_arena (sss[i := ss'])) m' s" and "sp_len s = n"
    and "arena_claim defaultStringNodeSize 0 n (ss_arena (sss ! i)) m = (s, ss_arena ss', m')"
proof -
  show cl: "arena_claim defaultStringNodeSize 0 n (ss_arena (sss ! i)) m = (s, ss_arena ss', m')"
    using eq by (auto simp: ss_ensureCap_claim split: prod.splits)
  note c = arena_claim_claimed [OF wf [unfolded strings_wf_def], of i n "s" "ss_arena ss'" m']
  show "claimed 0 (map ss_arena sss) m (map ss_arena (sss[i := ss'])) m' s" and "sp_len s = n"
    using c cl i by (simp_all add: map_update)
qed

lemma StoreString_put:
  assumes wf: "strings_wf sss m" and i: "i < length sss" and q: "span_ok (map ss_arena sss) m q"
  shows "StoreString q (sss ! i) m = string_put 0 (mem_read m q) (sss ! i) m"
    and "StoreStringZ q (sss ! i) m = string_put 1 (mem_read m q) (sss ! i) m"
proof -
  have rd: "mem_read m' q = mem_read m q" if "ss_ensureCap n (sss ! i) m = (s, ss', m')" for n s ss' m'
    using ensureCap_claimed(1) [OF wf i that] keeps_read q by (auto simp: claimed_def)
  show "StoreString q (sss ! i) m = string_put 0 (mem_read m q) (sss ! i) m"
    using ensureCap_claimed(3) [OF wf i] rd
    by (auto simp: StoreString_def string_put_def arena_put_def split: prod.splits span.splits)
  show "StoreStringZ q (sss ! i) m = string_put 1 (mem_read m q) (sss ! i) m"
    using ensureCap_claimed(3) [OF wf i] rd
    by (auto simp: StoreStringZ_def string_put_def arena_put_def split: prod.splits span.splits)
qed

lemma StorePath_put:
  assumes wf: "strings_wf sss m" and i: "i < length sss"
    and p: "span_ok (map ss_arena sss) m p" and q: "span_ok (map ss_arena sss) m q"
    and ne: "sp_len p \<noteq> 0"
  shows "StorePath p q (sss ! i) m =
           Ret (string_put 0 (path_join (mem_read m p) (mem_read m q)) (sss ! i) m)"
    and "StorePathZ p q (sss ! i) m =
           Ret (string_put 1 (path_join (mem_read m p) (mem_read m q)) (sss ! i) m)"
proof -
  let ?J = "path_join (mem_read m p) (mem_read m q)"
  let ?sep = "if last (mem_read m p) \<noteq> PathSeparator then 1 else (0::nat)"
  have len: "sp_len p + ?sep + sp_len q = length ?J"
    by (simp add: length_path_join)
  have body: "\<exists>b k ss' m'. ss_ensureCap (length ?J + pad) (sss ! i) m = (Span b k (length ?J + pad), ss', m') \<and>
      string_put pad ?J (sss ! i) m = (Span b k (length ?J), ss', mem_write b k ?J m') \<and>
      (let m1 = mem_write b k (mem_read m' p) m';
           m2 = (if ?sep = 1 then mem_write b (k + sp_len p) [PathSeparator] m1 else m1)
       in mem_write b (k + sp_len p + ?sep) (mem_read m2 q) m2) = mem_write b k ?J m'" for pad
  proof -
    obtain s ss' m' where e: "ss_ensureCap (length ?J + pad) (sss ! i) m = (s, ss', m')"
      by (metis prod_cases3)
    note c = ensureCap_claimed [OF wf i e]
    obtain b k where s: "s = Span b k (length ?J + pad)" using c(2) by (cases s) auto
    have "string_put pad ?J (sss ! i) m = (Span b k (length ?J), ss', mem_write b k ?J m')"
      using c(3) by (simp add: string_put_def arena_put_def s)
    then show ?thesis
      using e s StorePath_writes [OF c(1) [unfolded s] p q refl] len by auto
  qed
  show "StorePath p q (sss ! i) m = Ret (string_put 0 ?J (sss ! i) m)"
    using body [of 0] unfolding StorePath_def path_sep_eq [OF ne] obind.simps Let_def len
    by (auto simp: len)
  show "StorePathZ p q (sss ! i) m = Ret (string_put 1 ?J (sss ! i) m)"
    using body [of 1] unfolding StorePathZ_def path_sep_eq [OF ne] obind.simps Let_def len
    by (auto simp: len)
qed

text \<open>What one put of a string guarantees.\<close>

lemma string_put_ok:
  assumes wf: "strings_wf sss m" and i: "i < length sss"
    and eq: "string_put pad ys (sss ! i) m = (s, ss', m')"
  shows "strings_wf (sss[i := ss']) m'"
    and "keeps (map ss_arena sss) m (map ss_arena (sss[i := ss'])) m'"
    and "span_ok (map ss_arena (sss[i := ss'])) m' s"
    and "mem_read m' s = ys" and "sp_len s = length ys"
    and "0 < pad \<Longrightarrow> strz_ok (map ss_arena (sss[i := ss'])) m' s"
proof -
  obtain s0 a where put: "arena_put defaultStringNodeSize 0 (length ys + pad) ys (map ss_arena sss ! i) m = (s0, a, m')"
    and s: "s = Span (sp_blk s0) (sp_off s0) (length ys)"
    and ss': "ss' = \<lparr>ss_tail = fst a, ss_off = snd a\<rparr>"
    using eq i by (auto simp: string_put_def split: prod.splits)
  have i': "i < length (map ss_arena sss)" using i by simp
  have as: "map ss_arena (sss[i := ss']) = (map ss_arena sss)[i := a]"
    by (simp add: map_update ss')
  note st = arena_put_stored [OF wf [unfolded strings_wf_def] i' _ put, folded as, simplified]
  show "strings_wf (sss[i := ss']) m'" using st(1) by (simp add: strings_wf_def)
  show "keeps (map ss_arena sss) m (map ss_arena (sss[i := ss'])) m'" by (rule st(2))
  obtain b k where s0: "s0 = Span b k (length ys + pad)" using st(4) by (cases s0) auto
  show sok: "span_ok (map ss_arena (sss[i := ss'])) m' s"
    using st(3) by (auto simp: s s0 elim: span_ok_sub)
  have rd: "map (mcell m' b) [k..<k + (length ys + pad)] = ys @ replicate pad 0"
    using st(5) by (simp add: s0)
  show "mem_read m' s = ys"
    using arg_cong [OF rd, of "take (length ys)"] by (simp add: s s0 take_map)
  show "sp_len s = length ys" by (simp add: s)
  assume "0 < pad"
  then have "mcell m' b (k + length ys) = 0"
    using arg_cong [OF rd, of "\<lambda>xs. xs ! length ys"] by (simp add: nth_append)
  then show "strz_ok (map ss_arena (sss[i := ss'])) m' s"
    using st(3) \<open>0 < pad\<close> by (auto simp: strz_ok_def s s0 elim: span_ok_sub)
qed

section \<open>The string stores of a walk implement the store interface\<close>

text \<open>
  The state is the list of the workers' stores and the heap they share; an operation names
  the worker that runs it.
\<close>

datatype sop =
    SBytes nat "byte list"
  | SString nat span
  | SStringZ nat span
  | SPath nat span span
  | SPathZ nat span span

fun sop_worker :: "sop \<Rightarrow> nat" where
  "sop_worker (SBytes i buf) = i"
| "sop_worker (SString i q) = i"
| "sop_worker (SStringZ i q) = i"
| "sop_worker (SPath i p q) = i"
| "sop_worker (SPathZ i p q) = i"

fun sop_run :: "sop \<Rightarrow> string_store \<Rightarrow> byte mem \<Rightarrow> (span \<times> string_store \<times> byte mem) outcome" where
  "sop_run (SBytes i buf) ss m = Ret (StoreBytes buf ss m)"
| "sop_run (SString i q) ss m = Ret (StoreString q ss m)"
| "sop_run (SStringZ i q) ss m = Ret (StoreStringZ q ss m)"
| "sop_run (SPath i p q) ss m = StorePath p q ss m"
| "sop_run (SPathZ i p q) ss m = StorePathZ p q ss m"

definition sop_put :: "sop \<Rightarrow> string_store list \<times> byte mem \<Rightarrow> (span \<times> string_store list \<times> byte mem) outcome" where
  "sop_put v st =
     obind (sop_run v (fst st ! sop_worker v) (snd st))
       (\<lambda>(s, ss', m'). Ret (s, (fst st)[sop_worker v := ss'], m'))"

fun sop_content :: "byte mem \<Rightarrow> sop \<Rightarrow> byte list" where
  "sop_content m (SBytes i buf) = buf"
| "sop_content m (SString i q) = mem_read m q"
| "sop_content m (SStringZ i q) = mem_read m q"
| "sop_content m (SPath i p q) = path_join (mem_read m p) (mem_read m q)"
| "sop_content m (SPathZ i p q) = path_join (mem_read m p) (mem_read m q)"

fun sop_args_ok :: "arena list \<Rightarrow> byte mem \<Rightarrow> sop \<Rightarrow> bool" where
  "sop_args_ok as m (SBytes i buf) = True"
| "sop_args_ok as m (SString i q) = span_ok as m q"
| "sop_args_ok as m (SStringZ i q) = span_ok as m q"
| "sop_args_ok as m (SPath i p q) = (span_ok as m p \<and> span_ok as m q \<and> sp_len p \<noteq> 0)"
| "sop_args_ok as m (SPathZ i p q) = (span_ok as m p \<and> span_ok as m q \<and> sp_len p \<noteq> 0)"

fun sop_z :: "sop \<Rightarrow> bool" where
  "sop_z (SStringZ i q) = True"
| "sop_z (SPathZ i p q) = True"
| "sop_z v = False"

definition sop_pre :: "string_store list \<times> byte mem \<Rightarrow> sop \<Rightarrow> bool" where
  "sop_pre st v \<longleftrightarrow>
     sop_worker v < length (fst st) \<and> sop_args_ok (map ss_arena (fst st)) (snd st) v"

definition ss_valid :: "string_store list \<times> byte mem \<Rightarrow> span \<Rightarrow> bool" where
  "ss_valid st s \<longleftrightarrow> span_ok (map ss_arena (fst st)) (snd st) s"

definition ss_validz :: "string_store list \<times> byte mem \<Rightarrow> span \<Rightarrow> bool" where
  "ss_validz st s \<longleftrightarrow> strz_ok (map ss_arena (fst st)) (snd st) s"

abbreviation ss_inv :: "string_store list \<times> byte mem \<Rightarrow> bool" where
  "ss_inv st \<equiv> strings_wf (fst st) (snd st)"

lemma sop_put_cases:
  assumes inv: "ss_inv st" and pre: "sop_pre st v"
  shows "\<exists>s ss' m'. sop_put v st = Ret (s, (fst st)[sop_worker v := ss'], m') \<and>
           string_put (if sop_z v then 1 else 0) (sop_content (snd st) v) (fst st ! sop_worker v) (snd st)
             = (s, ss', m')"
  using inv pre
  by (cases v)
    (auto simp: sop_put_def sop_pre_def StoreBytes_string_put StoreString_put StorePath_put
      split: prod.split)

lemma sop_put_ok:
  assumes inv: "ss_inv st" and pre: "sop_pre st v" and eq: "sop_put v st = Ret (s, st')"
  shows "ss_inv st'" and "keeps (map ss_arena (fst st)) (snd st) (map ss_arena (fst st')) (snd st')"
    and "ss_valid st' s" and "mem_read (snd st') s = sop_content (snd st) v"
    and "sop_z v \<Longrightarrow> ss_validz st' s" and "length (fst st') = length (fst st)"
proof -
  obtain ss' m' where st': "st' = ((fst st)[sop_worker v := ss'], m')"
    and put: "string_put (if sop_z v then 1 else 0) (sop_content (snd st) v) (fst st ! sop_worker v) (snd st)
             = (s, ss', m')"
    using sop_put_cases [OF inv pre] eq by auto
  have i: "sop_worker v < length (fst st)" using pre by (simp add: sop_pre_def)
  note ok = string_put_ok [OF inv i put]
  show "ss_inv st'" "keeps (map ss_arena (fst st)) (snd st) (map ss_arena (fst st')) (snd st')"
    "ss_valid st' s" "mem_read (snd st') s = sop_content (snd st) v"
    "length (fst st') = length (fst st)"
    using ok(1-5) by (simp_all add: st' ss_valid_def)
  show "sop_z v \<Longrightarrow> ss_validz st' s" using ok(6) by (simp add: st' ss_validz_def)
qed

lemma sop_pre_keeps:
  assumes kp: "keeps (map ss_arena (fst st)) (snd st) (map ss_arena (fst st')) (snd st')"
    and len: "length (fst st') = length (fst st)" and pre: "sop_pre st v"
  shows "sop_pre st' v" and "sop_content (snd st') v = sop_content (snd st) v"
  using assms keeps_span_ok [OF kp] keeps_read [OF kp]
  by (cases v; simp add: sop_pre_def)+

interpretation strings: append_store ss_inv sop_pre sop_put ss_valid
  "\<lambda>st. mem_read (snd st)" "\<lambda>st. sop_content (snd st)"
proof unfold_locales
  fix s :: "string_store list \<times> byte mem" and v u :: sop and r q :: span and s'
  show "ss_inv s \<Longrightarrow> sop_pre s v \<Longrightarrow> \<exists>r s'. sop_put v s = Ret (r, s')"
    using sop_put_cases by blast
  assume law: "ss_inv s" "sop_pre s v" "sop_put v s = Ret (r, s')"
  note ok = sop_put_ok [OF law]
  show "ss_inv s'" "ss_valid s' r" "mem_read (snd s') r = sop_content (snd s) v"
    using ok by auto
  show "ss_valid s q \<Longrightarrow> ss_valid s' q" and "ss_valid s q \<Longrightarrow> mem_read (snd s') q = mem_read (snd s) q"
    using keeps_span_ok [OF ok(2)] keeps_read [OF ok(2)] by (auto simp: ss_valid_def)
  show "sop_pre s u \<Longrightarrow> sop_pre s' u" and "sop_pre s u \<Longrightarrow> sop_content (snd s') u = sop_content (snd s) u"
    using sop_pre_keeps [OF ok(2,6)] by auto
qed

interpretation zstrings: cstring_store ss_inv "\<lambda>st v. sop_pre st v \<and> sop_z v" sop_put ss_validz
  "\<lambda>st. mem_read (snd st)" "\<lambda>st. sop_content (snd st)" "\<lambda>st. cstring_at (snd st)" "\<lambda>bs. bs"
proof unfold_locales
  fix s :: "string_store list \<times> byte mem" and v u :: sop and r q :: span and s'
  show "ss_inv s \<Longrightarrow> sop_pre s v \<and> sop_z v \<Longrightarrow> \<exists>r s'. sop_put v s = Ret (r, s')"
    using sop_put_cases by blast
  show "ss_inv s \<Longrightarrow> ss_validz s q \<Longrightarrow> cstring_at (snd s) q = Some (cstr (mem_read (snd s) q))"
    by (simp add: ss_validz_def strz_ok_cstring_at)
  assume law: "ss_inv s" "sop_pre s v \<and> sop_z v" "sop_put v s = Ret (r, s')"
  note ok = sop_put_ok [OF law(1) conjunct1 [OF law(2)] law(3)]
  show "ss_inv s'" "ss_validz s' r" "mem_read (snd s') r = sop_content (snd s) v"
    using ok law(2) by auto
  show "ss_validz s q \<Longrightarrow> ss_validz s' q" and "ss_validz s q \<Longrightarrow> mem_read (snd s') q = mem_read (snd s) q"
    using keeps_strz_ok [OF ok(2)] keeps_read [OF ok(2)] strz_ok_span_ok
    by (auto simp: ss_validz_def)
  show "sop_pre s u \<and> sop_z u \<Longrightarrow> sop_pre s' u \<and> sop_z u"
    and "sop_pre s u \<and> sop_z u \<Longrightarrow> sop_content (snd s') u = sop_content (snd s) u"
    using sop_pre_keeps [OF ok(2,6)] by auto
qed

lemma NewStringStore_ok:
  assumes wf: "strings_wf sss m" and eq: "NewStringStore m = (ss, m')"
  shows "strings_wf (sss @ [ss]) m'"
    and "keeps (map ss_arena sss) m (map ss_arena (sss @ [ss])) m'"
  using arena_new_node [OF wf [unfolded strings_wf_def]] eq
  by (auto simp: NewStringStore_def strings_wf_def split: prod.splits)

lemma NewStringZ_ok:
  assumes wf: "strings_wf sss m" and eq: "NewStringZ s m = (r, m')"
  shows "strings_wf sss m'" and "keeps (map ss_arena sss) m (map ss_arena sss) m'"
    and "strz_ok (map ss_arena sss) m' r" and "mem_read m' r = s"
proof -
  let ?as = "map ss_arena sss" and ?b = "length (mlens m)"
  define m1 where "m1 = snd (mem_alloc (length s + 1) 0 m)"
  have r: "r = Span ?b 0 (length s)" and m': "m' = mem_write ?b 0 s m1"
    using eq by (auto simp: NewStringZ_def mem_alloc_def m1_def)
  have ok: "arenas_ok 0 ?as m" using wf by (simp add: strings_wf_def arenas_wf_def)
  note c = claim_new_block [OF ok, of "length s + 1", folded m1_def]
  note w = claimed_write [OF c, of s, simplified, folded m']
  show kp: "keeps ?as m ?as m'" by (rule w(2))
  have "\<forall>a \<in> set ?as. mlens m' ! fst a = mlens m ! fst a"
    using ok kp by (auto simp: arenas_ok_def arena_ok_def keeps_def)
  then show "strings_wf sss m'"
    using w(1) wf by (auto simp: strings_wf_def arenas_wf_def)
  have rd: "map (mcell m' ?b) [0..<length s + 1] = s @ [0]" using w(4) by simp
  show "mem_read m' r = s" using rd by (simp add: r)
  have "mcell m' ?b (length s) = 0" using rd by simp
  then show "strz_ok ?as m' r" using w(3) by (simp add: strz_ok_def r)
qed

section \<open>Properties\<close>

text \<open>
  C17. Strings are never lost: after any sequence of \<open>StoreBytes\<close>, \<open>StoreString\<close>,
  \<open>StoreStringZ\<close>, \<open>StorePath\<close> and \<open>StorePathZ\<close> calls by any workers of the walk,
  each on its own store, every call has returned, every returned string still reads the
  bytes its call was asked to store, and every string that was stored before reads the same.
\<close>

theorem string_store_stable:
  assumes "strings_wf sss m"
    and "\<forall>v \<in> set ops. sop_worker v < length sss \<and> sop_args_ok (map ss_arena sss) m v"
  shows "\<exists>rs sss' m'. put_all sop_put ops (sss, m) = Ret (rs, sss', m') \<and>
           map (mem_read m') rs = map (sop_content m) ops \<and>
           (\<forall>q. span_ok (map ss_arena sss) m q \<longrightarrow> mem_read m' q = mem_read m q)"
proof -
  obtain rs st where "put_all sop_put ops (sss, m) = Ret (rs, st)"
    and rd: "list_all2 (\<lambda>r v. ss_valid st r \<and> mem_read (snd st) r = sop_content m v) rs ops"
    and kp: "\<And>q. ss_valid (sss, m) q \<Longrightarrow> ss_valid st q \<and> mem_read (snd st) q = mem_read m q"
    using strings.put_all_stable [of "(sss, m)" ops] assms by (auto simp: sop_pre_def)
  moreover have "map (mem_read (snd st)) rs = map (sop_content m) ops"
    using rd by (auto simp: list_all2_conv_all_nth intro: nth_equalityI)
  ultimately show ?thesis
    by (intro exI [of _ rs] exI [of _ "fst st"] exI [of _ "snd st"]) (auto simp: ss_valid_def)
qed

definition two_stores :: "string_store list \<times> byte mem" where
  "two_stores =
     (case NewStringStore (empty_mem 0) of
        (a, m) \<Rightarrow> (case NewStringStore m of (b, m) \<Rightarrow> ([a, b], m)))"

lemma two_stores_wf: "strings_wf (fst two_stores) (snd two_stores)"
proof -
  have "strings_wf [] (empty_mem 0)" by (simp add: strings_wf_def)
  then show ?thesis
    using NewStringStore_ok(1) [of "[]" "empty_mem 0"] NewStringStore_ok(1)
    by (fastforce simp: two_stores_def split: prod.splits)
qed

theorem string_store_stable_witness:
  "\<exists>rs sss' m'. put_all sop_put [SBytes 0 [97], SBytes 1 [98, 99], SBytes 0 [100]] two_stores
       = Ret (rs, sss', m') \<and>
     map (mem_read m') rs = [[97], [98, 99], [100]]"
  using string_store_stable [OF two_stores_wf, of "[SBytes 0 [97], SBytes 1 [98, 99], SBytes 0 [100]]"]
  by (auto simp: two_stores_def NewStringStore_def mem_alloc_def)

lemma storePathZ_ok:
  assumes "strings_wf sss m" and "i < length sss"
    and "span_ok (map ss_arena sss) m parent" and "span_ok (map ss_arena sss) m child"
    and "sp_len parent \<noteq> 0"
  shows "\<exists>s ss' m'. StorePathZ parent child (sss ! i) m = Ret (s, ss', m') \<and>
           mem_read m' s = path_join (mem_read m parent) (mem_read m child) \<and>
           cstring_at m' s = Some (cstr (path_join (mem_read m parent) (mem_read m child))) \<and>
           strings_wf (sss[i := ss']) m' \<and> strz_ok (map ss_arena (sss[i := ss'])) m' s \<and>
           (\<forall>q. strz_ok (map ss_arena sss) m q \<longrightarrow>
              cstring_at m' q = cstring_at m q \<and> mem_read m' q = mem_read m q)"
proof -
  let ?v = "SPathZ i parent child"
  have pre: "sop_pre (sss, m) ?v \<and> sop_z ?v" and inv: "ss_inv (sss, m)"
    using assms by (auto simp: sop_pre_def)
  obtain s st' where put: "sop_put ?v (sss, m) = Ret (s, st')"
    using zstrings.put_total [OF inv pre] by blast
  then obtain ss' where run: "StorePathZ parent child (sss ! i) m = Ret (s, ss', snd st')"
    and st': "fst st' = sss[i := ss']"
    by (auto simp: sop_put_def)
  note law = inv pre put
  show ?thesis
    using run st' zstrings.put_inv [OF law] zstrings.put_get [OF law] zstrings.put_cview [OF law]
      zstrings.put_cview_keeps [OF law] zstrings.put_keeps_get [OF law] zstrings.put_valid [OF law]
    by (auto simp: ss_validz_def)
qed

text \<open>A terminated string stays one, whatever is stored after it and by whom.\<close>

lemma strz_put_all:
  assumes wf: "strings_wf sss m" and s: "strz_ok (map ss_arena sss) m s"
    and ops: "\<forall>v \<in> set ops. sop_worker v < length sss \<and> sop_args_ok (map ss_arena sss) m v"
  shows "\<exists>rs sss' m'. put_all sop_put ops (sss, m) = Ret (rs, sss', m') \<and>
           mem_read m' s = mem_read m s \<and> cstring_at m' s = cstring_at m s"
proof -
  let ?z = "Span (sp_blk s) (sp_off s) (sp_len s + 1)"
  obtain rs st where run: "put_all sop_put ops (sss, m) = Ret (rs, st)"
    and kp: "\<And>q. ss_valid (sss, m) q \<Longrightarrow> ss_valid st q \<and> mem_read (snd st) q = mem_read m q"
    using strings.put_all_stable [of "(sss, m)" ops] wf ops by (auto simp: sop_pre_def)
  have "span_ok (map ss_arena sss) m ?z" and nul: "mcell m (sp_blk s) (sp_off s + sp_len s) = 0"
    using s by (simp_all add: strz_ok_def)
  then have z: "span_ok (map ss_arena (fst st)) (snd st) ?z" and rz: "mem_read (snd st) ?z = mem_read m ?z"
    using kp [of ?z] by (auto simp: ss_valid_def)
  have "mcell (snd st) (sp_blk s) (sp_off s + sp_len s) = 0" using rz nul by simp
  with z have "strz_ok (map ss_arena (fst st)) (snd st) s" by (simp add: strz_ok_def)
  moreover have "mem_read (snd st) s = mem_read m s"
    using kp [of s] strz_ok_span_ok [OF s] by (simp add: ss_valid_def)
  ultimately have "mem_read (snd st) s = mem_read m s \<and> cstring_at (snd st) s = cstring_at m s"
    using strz_ok_cstring_at s by metis
  then show ?thesis using run
    by (intro exI [of _ rs] exI [of _ "fst st"] exI [of _ "snd st"]) simp
qed

text \<open>
  C16. \<open>StorePathZ\<close> builds paths the kernel can open in place: for a non-empty parent it
  returns (never panics), the new string reads as parent, separator unless the parent ends
  in one, child; and a C reader that starts at its first byte finds a NUL and sees exactly
  that path up to its first NUL, although the terminator is not part of the string. Every
  earlier NUL-terminated path keeps its bytes and its terminator. And the new terminator
  stays: it is a cell no arena will hand out again (\<open>strz_ok\<close>), and after any sequence of
  store operations by any workers the C reader still sees the same path.
\<close>

theorem storePathZ_cstring:
  assumes "strings_wf sss m" and "i < length sss"
    and "span_ok (map ss_arena sss) m parent" and "span_ok (map ss_arena sss) m child"
    and "sp_len parent \<noteq> 0"
  shows "\<exists>s ss' m'. StorePathZ parent child (sss ! i) m = Ret (s, ss', m') \<and>
           mem_read m' s = path_join (mem_read m parent) (mem_read m child) \<and>
           cstring_at m' s = Some (cstr (path_join (mem_read m parent) (mem_read m child))) \<and>
           strings_wf (sss[i := ss']) m' \<and>
           (\<forall>q. strz_ok (map ss_arena sss) m q \<longrightarrow>
              cstring_at m' q = cstring_at m q \<and> mem_read m' q = mem_read m q) \<and>
           strz_ok (map ss_arena (sss[i := ss'])) m' s \<and>
           (\<forall>ops. (\<forall>v \<in> set ops. sop_worker v < length sss \<and>
                     sop_args_ok (map ss_arena (sss[i := ss'])) m' v) \<longrightarrow>
              (\<exists>rs sss'' m''. put_all sop_put ops (sss[i := ss'], m') = Ret (rs, sss'', m'') \<and>
                 mem_read m'' s = path_join (mem_read m parent) (mem_read m child) \<and>
                 cstring_at m'' s = Some (cstr (path_join (mem_read m parent) (mem_read m child)))))"
proof -
  obtain s ss' m' where new: "StorePathZ parent child (sss ! i) m = Ret (s, ss', m')"
    "mem_read m' s = path_join (mem_read m parent) (mem_read m child)"
    "cstring_at m' s = Some (cstr (path_join (mem_read m parent) (mem_read m child)))"
    "\<forall>q. strz_ok (map ss_arena sss) m q \<longrightarrow> cstring_at m' q = cstring_at m q \<and> mem_read m' q = mem_read m q"
    and wf: "strings_wf (sss[i := ss']) m'" and z: "strz_ok (map ss_arena (sss[i := ss'])) m' s"
    using storePathZ_ok [OF assms] by blast
  then show ?thesis
    using strz_put_all [OF wf z] by (intro exI [of _ s] exI [of _ ss'] exI [of _ m']) simp
qed

theorem storePathZ_cstring_witness:
  "\<exists>s ss' m'. StorePathZ (Span 2 0 4) (Span 2 1 3) (fst two_stores ! 1)
       (snd (NewStringZ [47, 116, 109, 112] (snd two_stores))) = Ret (s, ss', m') \<and>
     cstring_at m' s = Some [47, 116, 109, 112, 47, 116, 109, 112]"
proof -
  obtain r m where z: "NewStringZ [47, 116, 109, 112] (snd two_stores) = (r, m)"
    by (cases "NewStringZ [47, 116, 109, 112] (snd two_stores)")
  then have r: "r = Span 2 0 4"
    by (auto simp: NewStringZ_def two_stores_def NewStringStore_def mem_alloc_def empty_mem_def)
  note ok = NewStringZ_ok [OF two_stores_wf z, unfolded r]
  have l: "length (fst two_stores) = 2" by (auto simp: two_stores_def split: prod.splits)
  have p: "span_ok (map ss_arena (fst two_stores)) m (Span 2 0 4)"
    using ok(3) by (rule strz_ok_span_ok)
  then have q: "span_ok (map ss_arena (fst two_stores)) m (Span 2 1 3)"
    by (rule span_ok_sub) auto
  have "[0..<4] = [0, 1, 2, 3::nat]" by (simp add: upt_rec)
  then have rd: "mem_read m (Span 2 1 3) = [116, 109, 112]"
    using ok(4) by (simp add: upt_rec)
  show ?thesis
    using storePathZ_cstring [OF ok(1) _ p q, of 1] l ok(4) rd z
    by (auto simp: path_join_def PathSeparator_def cstr_def)
qed

end
