(* ===== verification/Go_Path.thy ===== *)
theory Go_Path
  imports Prelude
begin

text \<open>
  The parts of Go's standard library the program calls on strings: \<open>strings.Split\<close> with a
  one-byte separator, and \<open>filepath.Clean\<close> and \<open>filepath.Join\<close> on Unix. \<open>Clean\<close> is
  the lexical rule of its documentation: drop empty and \<open>.\<close> elements, resolve \<open>..\<close>
  against the element before it, drop \<open>..\<close> at the root, and write \<open>.\<close> for nothing.
  The lemmas characterise the results as rendered lists of normal elements, which gives
  idempotence and the path a cleaned parent and a plain name join to.
\<close>

definition slash :: byte where "slash = 47"
definition dot :: "byte list" where "dot = [46]"
definition dotdot :: "byte list" where "dotdot = [46, 46]"

section \<open>strings.Split and its inverse\<close>

fun split_on :: "byte \<Rightarrow> byte list \<Rightarrow> byte list list" where
  "split_on c [] = [[]]"
| "split_on c (b # bs) =
     (if b = c then [] # split_on c bs
      else (case split_on c bs of [] \<Rightarrow> [[b]] | x # xs \<Rightarrow> (b # x) # xs))"

fun join_on :: "byte \<Rightarrow> byte list list \<Rightarrow> byte list" where
  "join_on c [] = []"
| "join_on c [x] = x"
| "join_on c (x # xs) = x @ c # join_on c xs"

lemma split_on_ne [simp]: "split_on c bs \<noteq> []"
  by (induction bs) (auto split: list.splits)

lemma join_on_Nil_iff: "join_on c xs = [] \<longleftrightarrow> xs = [] \<or> xs = [[]]"
  by (induction c xs rule: join_on.induct) auto

lemma split_on_append_sep: "c \<notin> set x \<Longrightarrow> split_on c (x @ c # bs) = x # split_on c bs"
  by (induction x) auto

lemma split_on_no_sep: "c \<notin> set x \<Longrightarrow> split_on c x = [x]"
  by (induction x) auto

lemma split_join: "xs \<noteq> [] \<Longrightarrow> \<forall>x \<in> set xs. c \<notin> set x \<Longrightarrow> split_on c (join_on c xs) = xs"
  by (induction c xs rule: join_on.induct) (auto simp: split_on_append_sep split_on_no_sep)

lemma join_split: "join_on c (split_on c bs) = bs"
proof (induction bs)
  case Nil
  then show ?case by simp
next
  case (Cons b bs)
  obtain x xs where sp: "split_on c bs = x # xs" by (cases "split_on c bs") auto
  then show ?case using Cons by (cases xs) auto
qed

lemma split_on_free: "x \<in> set (split_on c bs) \<Longrightarrow> c \<notin> set x"
proof (induction bs arbitrary: x)
  case Nil
  then show ?case by simp
next
  case (Cons b bs)
  obtain y ys where sp: "split_on c bs = y # ys" by (cases "split_on c bs") auto
  then show ?case using Cons.IH [of y] Cons.IH [of x] Cons.prems by (auto split: if_splits)
qed

section \<open>filepath.Clean and filepath.Join\<close>

text \<open>The stack holds the elements of the result so far, last one first.\<close>

fun clean_comps :: "bool \<Rightarrow> byte list list \<Rightarrow> byte list list \<Rightarrow> byte list list" where
  "clean_comps rooted st [] = rev st"
| "clean_comps rooted st (c # cs) =
     (if c = [] \<or> c = dot then clean_comps rooted st cs
      else if c = dotdot then
        (case st of
           [] \<Rightarrow> if rooted then clean_comps rooted [] cs else clean_comps rooted [dotdot] cs
         | prev # st' \<Rightarrow> if prev = dotdot then clean_comps rooted (dotdot # st) cs
                       else clean_comps rooted st' cs)
      else clean_comps rooted (c # st) cs)"

definition render :: "bool \<Rightarrow> byte list list \<Rightarrow> byte list" where
  "render rooted cs =
     (if rooted then slash # join_on slash cs else if cs = [] then dot else join_on slash cs)"

definition Clean :: "gostring \<Rightarrow> gostring" where
  "Clean p =
     (let rooted = (p \<noteq> [] \<and> hd p = slash)
      in render rooted (clean_comps rooted [] (split_on slash p)))"

definition Join :: "gostring \<Rightarrow> gostring \<Rightarrow> gostring" where
  "Join a b =
     (if a = [] \<and> b = [] then [] else if a = [] then Clean b else if b = [] then Clean a
      else Clean (a @ slash # b))"

lemmas [model_defs] = Clean_def Join_def render_def dot_def dotdot_def slash_def

text \<open>A plain element: what a directory entry other than \<open>.\<close> and \<open>..\<close> is named.\<close>

definition plain :: "byte list \<Rightarrow> bool" where
  "plain c \<longleftrightarrow> c \<noteq> [] \<and> slash \<notin> set c \<and> c \<noteq> dot \<and> c \<noteq> dotdot"

definition normal :: "bool \<Rightarrow> byte list list \<Rightarrow> bool" where
  "normal rooted cs \<longleftrightarrow>
     (\<forall>c \<in> set cs. c \<noteq> [] \<and> slash \<notin> set c \<and> c \<noteq> dot) \<and>
     dotdot \<notin> set (if rooted then cs else dropWhile ((=) dotdot) cs)"

lemma dot_dotdot_simps [simp]:
  "dot \<noteq> []" "dotdot \<noteq> []" "dot \<noteq> dotdot" "dotdot \<noteq> dot" "slash \<notin> set dot" "slash \<notin> set dotdot"
  by (auto simp: dot_def dotdot_def slash_def)

lemma dropWhile_snoc_neq:
  "dotdot \<notin> set (dropWhile ((=) dotdot) cs) \<Longrightarrow> c \<noteq> dotdot \<Longrightarrow>
     dotdot \<notin> set (dropWhile ((=) dotdot) (cs @ [c]))"
  by (induction cs) auto

lemma dropWhile_snoc_dotdot:
  "dotdot \<notin> set (dropWhile ((=) dotdot) (cs @ [dotdot])) \<Longrightarrow>
     dotdot \<notin> set (dropWhile ((=) dotdot) (cs @ [dotdot, dotdot]))"
  by (induction cs) (auto split: if_splits)

lemma dropWhile_butlast:
  "dotdot \<notin> set (dropWhile ((=) dotdot) (cs @ [c])) \<Longrightarrow> dotdot \<notin> set (dropWhile ((=) dotdot) cs)"
  by (induction cs) (auto split: if_splits)

lemma normal_snoc: "normal r cs \<Longrightarrow> plain c \<Longrightarrow> normal r (cs @ [c])"
  by (auto simp: normal_def plain_def dropWhile_snoc_neq)

lemma normal_butlast: "normal r (cs @ [c]) \<Longrightarrow> normal r cs"
  using dropWhile_butlast [of cs c] by (auto simp: normal_def split: if_splits)

lemma normal_dotdot: "normal r (cs @ [dotdot]) \<Longrightarrow> normal r (cs @ [dotdot, dotdot])"
  by (auto simp: normal_def dest: dropWhile_snoc_dotdot)

lemma clean_comps_normal:
  "normal r (rev st) \<Longrightarrow> \<forall>c \<in> set cs. slash \<notin> set c \<Longrightarrow> normal r (clean_comps r st cs)"
proof (induction r st cs rule: clean_comps.induct)
  case (1 r st)
  then show ?case by simp
next
  case (2 r st c cs)
  have "normal r (rev st @ [c])" if "c \<noteq> []" "c \<noteq> dot" "c \<noteq> dotdot"
    using "2.prems" that by (intro normal_snoc) (auto simp: plain_def)
  moreover have "normal r [dotdot]" if "\<not> r" using that by (simp add: normal_def)
  moreover have "normal r (rev st')" if "st = prev # st'" for prev st'
    using "2.prems"(1) that normal_butlast by simp
  moreover have "normal r (rev st' @ [dotdot, dotdot])" if "st = dotdot # st'" for st'
    using "2.prems"(1) that normal_dotdot by simp
  ultimately show ?case
    using 2 by (auto split: list.splits)
qed

lemma clean_comps_id:
  "normal r (rev st @ cs) \<Longrightarrow> clean_comps r st cs = rev st @ cs"
proof (induction cs arbitrary: st)
  case Nil
  then show ?case by simp
next
  case (Cons c cs)
  have c: "c \<noteq> []" "c \<noteq> dot" using Cons.prems by (auto simp: normal_def)
  show ?case
  proof (cases "c = dotdot")
    case False
    then show ?thesis using Cons.IH [of "c # st"] Cons.prems c by simp
  next
    case True
    then have nr: "\<not> r" using Cons.prems by (auto simp: normal_def)
    have "set st \<subseteq> {dotdot}"
    proof (rule ccontr)
      assume "\<not> set st \<subseteq> {dotdot}"
      then obtain x where "x \<in> set (rev st)" "x \<noteq> dotdot" by auto
      then have "dotdot \<in> set (dropWhile ((=) dotdot) (rev st @ c # cs))"
        using True by (subst dropWhile_append1) auto
      then show False using Cons.prems nr by (simp add: normal_def)
    qed
    then show ?thesis
      using Cons.IH [of "c # st"] Cons.prems True nr by (cases st) auto
  qed
qed

lemma split_render:
  assumes "normal r cs"
  shows "split_on slash (render r cs) =
           (if r then [] # (if cs = [] then [[]] else cs) else if cs = [] then [dot] else cs)"
proof -
  have "\<forall>c \<in> set cs. slash \<notin> set c" using assms by (auto simp: normal_def)
  then show ?thesis
    by (auto simp: render_def split_join split_on_no_sep)
qed

lemma hd_join_on: "x \<noteq> [] \<Longrightarrow> hd (join_on c (x # xs)) = hd x"
  by (cases xs) auto

lemma rooted_render:
  assumes "normal r cs"
  shows "render r cs \<noteq> []" and "(hd (render r cs) = slash) = r"
proof -
  have d: "hd dot \<noteq> slash" by (simp add: dot_def slash_def)
  have h: "x \<noteq> [] \<and> hd x \<noteq> slash" if "cs = x # xs" for x xs
    using assms that by (auto simp: normal_def dest: hd_in_set)
  have j: "join_on slash cs \<noteq> [] \<and> hd (join_on slash cs) \<noteq> slash" if "cs \<noteq> []"
  proof -
    from that obtain x xs where cs: "cs = x # xs" by (cases cs) auto
    have "hd (join_on slash cs) = hd x" unfolding cs using h [OF cs] by (intro hd_join_on) simp
    moreover have "join_on slash cs \<noteq> []" using h cs by (cases xs) auto
    ultimately show ?thesis using h cs by auto
  qed
  show "render r cs \<noteq> []" using j by (auto simp: render_def)
  show "(hd (render r cs) = slash) = r" using j d by (auto simp: render_def)
qed

lemma Clean_eq_render:
  obtains r cs where "normal r cs" and "Clean p = render r cs"
proof
  let ?r = "p \<noteq> [] \<and> hd p = slash"
  show "normal ?r (clean_comps ?r [] (split_on slash p))"
    by (rule clean_comps_normal) (auto simp: normal_def dest: split_on_free)
  show "Clean p = render ?r (clean_comps ?r [] (split_on slash p))"
    by (simp add: Clean_def Let_def)
qed

lemma Clean_render:
  assumes "normal r cs"
  shows "Clean (render r cs) = render r cs"
proof -
  have "clean_comps r [] cs = cs" using clean_comps_id [of r "[]" cs] assms by simp
  then show ?thesis
    using split_render [OF assms] rooted_render [OF assms]
    by (auto simp: Clean_def Let_def)
qed

lemma Clean_ne [simp]: "Clean p \<noteq> []"
  using rooted_render(1) by (metis Clean_eq_render)

lemma Clean_idem: "Clean (Clean p) = Clean p"
  by (metis Clean_eq_render Clean_render)

lemma join_on_snoc: "xs \<noteq> [] \<Longrightarrow> join_on c (xs @ [x]) = join_on c xs @ c # x"
  by (induction c xs rule: join_on.induct) auto

lemma render_snoc:
  "normal r cs \<Longrightarrow> cs \<noteq> [] \<Longrightarrow> render r (cs @ [c]) = render r cs @ slash # c"
  by (simp add: render_def join_on_snoc)

lemma last_join_on:
  "xs \<noteq> [] \<Longrightarrow> last xs \<noteq> [] \<Longrightarrow> last (join_on c xs) = last (last xs)"
  by (induction c xs rule: join_on.induct) (auto simp: join_on_Nil_iff)

lemma last_render:
  assumes "normal r cs"
  shows "last (render r cs) = slash \<longleftrightarrow> r \<and> cs = []"
proof (cases "cs = []")
  case True
  then show ?thesis by (simp add: render_def dot_def slash_def)
next
  case False
  then have l: "last cs \<noteq> [] \<and> slash \<notin> set (last cs)"
    using assms last_in_set by (auto simp: normal_def)
  then have "last (join_on slash cs) \<noteq> slash"
    using last_join_on [OF False] last_in_set [of "last cs"] by metis
  moreover have "join_on slash cs \<noteq> []" using False l by (auto simp: join_on_Nil_iff)
  ultimately show ?thesis using False by (auto simp: render_def)
qed

lemma split_on_append: "split_on c (a @ c # b) = split_on c a @ split_on c b"
proof (induction a)
  case Nil
  then show ?case by simp
next
  case (Cons x a)
  obtain y ys where sp: "split_on c a = y # ys" by (cases "split_on c a") auto
  then show ?case using Cons by simp
qed

lemma hd_append_sep: "a \<noteq> [] \<Longrightarrow> hd (a @ b) = hd a"
  by (cases a) auto

text \<open>Joining a cleaned path with a plain element appends the element to its list.\<close>

lemma Join_render:
  assumes n: "normal r cs" and c: "plain c"
  shows "Join (render r cs) c = render r (cs @ [c])"
proof -
  let ?p = "render r cs"
  have ne: "?p \<noteq> []" and rt: "(hd ?p = slash) = r" using rooted_render [OF n] by auto
  have cp: "c \<noteq> []" "slash \<notin> set c" using c by (auto simp: plain_def)
  have id: "clean_comps r [] (cs @ [c]) = cs @ [c]"
    using clean_comps_id [of r "[]"] normal_snoc [OF n c] by simp
  have "split_on slash (?p @ slash # c) = split_on slash ?p @ [c]"
    using cp by (simp add: split_on_append split_on_no_sep)
  moreover have "clean_comps r [] (split_on slash ?p @ [c]) = cs @ [c]"
    using split_render [OF n] id by (cases "cs = []") auto
  ultimately show ?thesis
    using ne rt cp by (simp add: Join_def Clean_def Let_def)
qed

lemma Clean_dot [simp]: "Clean dot = dot"
  using Clean_render [of False "[]"] by (simp add: normal_def render_def)

end
