(* ===== verification/Walk_Types.thy ===== *)
theory Walk_Types
  imports String_Store Go_Path
begin

text \<open>
  The data of \<open>walkman.go\<close> and the d_type constants of \<open>readdir_linux.go\<close>: entries,
  errors, batches, work items and the configuration, with the methods of \<open>Entry\<close> and
  \<open>dTypeFromInfo\<close>. The records that hold strings are polymorphic in the string type: the
  code's strings are spans of the string heap, the specification's are byte sequences.

  \<open>fs.FileMode\<close> and \<open>os.FileInfo\<close> are the standard library's: a 32-bit mode word with
  its documented type bits, and for \<open>Sys()\<close> the inode and device numbers of the
  \<open>*syscall.Stat_t\<close> when the type assertion succeeds.
\<close>

unbundle bit_operations_syntax

section \<open>File types\<close>

definition dtUnknown :: byte where "dtUnknown = 0"
definition dtDir :: byte where "dtDir = 4"
definition dtReg :: byte where "dtReg = 8"
definition dtLnk :: byte where "dtLnk = 10"

lemmas dt_defs = dtUnknown_def dtDir_def dtReg_def dtLnk_def

definition ModeDir :: u32 where "ModeDir = 0x80000000"
definition ModeSymlink :: u32 where "ModeSymlink = 0x8000000"
definition ModeIrregular :: u32 where "ModeIrregular = 0x80000"
definition ModeType :: u32 where
  "ModeType = ModeDir OR ModeSymlink OR 0x2000000 OR 0x1000000 OR 0x4000000 OR 0x200000 OR ModeIrregular"

lemmas mode_defs = ModeDir_def ModeSymlink_def ModeIrregular_def ModeType_def

definition mode_IsDir :: "u32 \<Rightarrow> bool" where
  "mode_IsDir mode \<longleftrightarrow> mode AND ModeDir \<noteq> 0"

definition mode_IsRegular :: "u32 \<Rightarrow> bool" where
  "mode_IsRegular mode \<longleftrightarrow> mode AND ModeType = 0"

record FileInfo =
  fi_Mode :: u32
  fi_Sys :: "(u64 \<times> u64) option" \<comment> \<open>inode and device, when \<open>Sys()\<close> is a \<open>*Stat_t\<close>\<close>

section \<open>Entries, errors, batches, items\<close>

record 's Entry =
  parentDir :: "'s"
  entName :: "'s"
  ino :: u64
  etyp :: byte

record 's DirErr =
  errName :: "'s"
  errErr :: err

definition Name :: "'s Entry \<Rightarrow> 's" where
  "Name e = entName e"

definition Ino :: "'s Entry \<Rightarrow> u64" where
  "Ino e = ino e"

definition IsDir :: "'s Entry \<Rightarrow> bool" where
  "IsDir e \<longleftrightarrow> etyp e = dtDir"

definition FileMode :: "'s Entry \<Rightarrow> u32" where
  "FileMode e =
     (if etyp e = dtDir then ModeDir
      else if etyp e = dtLnk then ModeSymlink
      else if etyp e = dtReg then 0
      else ModeIrregular)"

definition Type :: "'s Entry \<Rightarrow> u32" where
  "Type e = FileMode e"

definition dTypeFromInfo :: "FileInfo \<Rightarrow> byte" where
  "dTypeFromInfo info =
     (let mode = fi_Mode info in
      if mode_IsDir mode then dtDir
      else if mode AND ModeSymlink \<noteq> 0 then dtLnk
      else if mode_IsRegular mode then dtReg
      else dtUnknown)"

text \<open>\<open>Info\<close> calls \<open>os.Lstat\<close>, which is the operating system's.\<close>

definition Info :: "(gostring \<Rightarrow> errno + FileInfo) \<Rightarrow> gostring Entry \<Rightarrow> errno + FileInfo" where
  "Info lstat e = lstat (Join (parentDir e) (entName e))"

record ('s, 'a) walkItem =
  path :: "'s"
  depth :: u32
  ancestor :: "'a"

text \<open>A batch of the code: the slices are spans of the result arenas, \<open>None\<close> for nil.\<close>

record DirBatch =
  Dir :: span
  Entries :: "span option"
  Errs :: "span option"

record walkConf =
  followLinks :: bool
  maxDepth :: u32
  skipSet :: "gostring set"

record PoolConfig =
  PoolSize :: int
  InitialWorkerCap :: int
  ResultBuffSize :: int

definition DefaultPoolConfig :: "int \<Rightarrow> PoolConfig" where
  "DefaultPoolConfig gomaxprocs =
     \<lparr>PoolSize = gomaxprocs, InitialWorkerCap = 64, ResultBuffSize = 256\<rparr>"

lemmas [model_defs] = dt_defs mode_defs mode_IsDir_def mode_IsRegular_def Name_def Ino_def
  IsDir_def FileMode_def Type_def dTypeFromInfo_def Info_def

section \<open>Properties of the type mapping\<close>

text \<open>
  Round trip of the resolved type: writing \<open>dTypeFromInfo info\<close> into an entry, as
  \<open>visitSym\<close> does for a symlink to a non-directory, makes \<open>IsDir\<close> and \<open>Type\<close> of the
  entry say of the target what its own mode says.
\<close>

lemma dTypeFromInfo_roundtrip:
  "IsDir (e\<lparr>etyp := dTypeFromInfo info\<rparr>) = mode_IsDir (fi_Mode info) \<and>
   mode_IsRegular (Type (e\<lparr>etyp := dTypeFromInfo info\<rparr>)) = mode_IsRegular (fi_Mode info)"
proof -
  have reg: "\<not> mode_IsDir m \<and> m AND ModeSymlink = 0" if "mode_IsRegular m" for m
  proof -
    have "m AND b = 0" if "ModeType AND b = b" for b
    proof -
      have "m AND b = (m AND ModeType) AND b" using that by (simp add: and.assoc)
      then show ?thesis using \<open>mode_IsRegular m\<close> by (simp add: mode_IsRegular_def)
    qed
    then show ?thesis by (simp add: mode_IsDir_def mode_defs)
  qed
  have modes: "mode_IsRegular 0" "\<not> mode_IsRegular ModeDir" "\<not> mode_IsRegular ModeSymlink"
    "\<not> mode_IsRegular ModeIrregular" "\<not> mode_IsDir ModeIrregular"
    by (simp_all add: mode_IsRegular_def mode_IsDir_def mode_defs)
  then show ?thesis
    using reg by (auto simp: dTypeFromInfo_def Let_def IsDir_def Type_def FileMode_def dt_defs)
qed

text \<open>
  C34. The three ways a consumer can ask for an entry's kind agree: \<open>IsDir\<close>, the directory
  bit of \<open>Type\<close> and the \<open>ModeType\<close> bits; a symlink shows only the symlink bit, a regular
  file no bit at all, and any d_type outside the table is irregular, never a directory. And
  writing \<open>dTypeFromInfo info\<close> into an entry, as \<open>visitSym\<close> does for a symlink to a
  non-directory, makes \<open>IsDir\<close> and \<open>Type\<close> say of the target what its own mode says.
\<close>

theorem entry_mode_consistent:
  "(IsDir e \<longleftrightarrow> mode_IsDir (Type e)) \<and>
   (mode_IsRegular (Type e) \<longleftrightarrow> etyp e = dtReg) \<and>
   (Type e AND ModeSymlink \<noteq> 0 \<longleftrightarrow> etyp e = dtLnk) \<and>
   Type e AND ModeType = Type e \<and>
   (Type e = ModeIrregular \<longleftrightarrow> etyp e \<notin> {dtDir, dtLnk, dtReg}) \<and>
   IsDir (e\<lparr>etyp := dTypeFromInfo info\<rparr>) = mode_IsDir (fi_Mode info) \<and>
   mode_IsRegular (Type (e\<lparr>etyp := dTypeFromInfo info\<rparr>)) = mode_IsRegular (fi_Mode info)"
proof -
  have "(IsDir e \<longleftrightarrow> mode_IsDir (Type e)) \<and>
     (mode_IsRegular (Type e) \<longleftrightarrow> etyp e = dtReg) \<and>
     (Type e AND ModeSymlink \<noteq> 0 \<longleftrightarrow> etyp e = dtLnk) \<and>
     Type e AND ModeType = Type e \<and>
     (Type e = ModeIrregular \<longleftrightarrow> etyp e \<notin> {dtDir, dtLnk, dtReg})"
    by (simp add: Type_def FileMode_def IsDir_def mode_IsDir_def mode_IsRegular_def mode_defs dt_defs)
  then show ?thesis using dTypeFromInfo_roundtrip [where e = e and info = info] by blast
qed

section \<open>Joined paths\<close>

text \<open>The walk's own join is \<open>filepath.Join\<close> on a cleaned parent, except below \<open>.\<close>.\<close>

lemma path_join_render:
  assumes "normal r cs" and "r \<or> cs \<noteq> []"
  shows "path_join (render r cs) c = render r (cs @ [c])"
proof (cases "cs = []")
  case True
  then show ?thesis using assms by (simp add: path_join_def render_def PathSeparator_def slash_def)
next
  case False
  then show ?thesis
    using last_render [OF assms(1)] render_snoc [OF assms(1) False]
    by (simp add: path_join_def PathSeparator_def slash_def)
qed

lemma path_join_is_Join:
  assumes "Clean p = p" and "p \<noteq> dot" and "plain c"
  shows "path_join p c = Join p c \<and> Clean (path_join p c) = path_join p c"
proof -
  obtain r cs where n: "normal r cs" and p: "Clean p = render r cs" by (rule Clean_eq_render)
  have ne: "r \<or> cs \<noteq> []" using assms(1,2) p by (auto simp: render_def)
  have "path_join p c = render r (cs @ [c])"
    using path_join_render [OF n ne] p assms(1) by simp
  moreover have "Join p c = render r (cs @ [c])"
    using Join_render [OF n assms(3)] p assms(1) by simp
  ultimately show ?thesis
    using Clean_render [OF normal_snoc [OF n assms(3)]] by simp
qed

lemma path_join_below_dot:
  assumes "plain c"
  shows "path_join dot c = dot @ slash # c \<and> Join dot c = c \<and> Clean (path_join dot c) \<noteq> path_join dot c"
proof -
  have n: "normal False []" and r: "render False [] = dot" by (simp_all add: normal_def render_def)
  have j: "Join dot c = c" using Join_render [OF n assms] by (simp add: render_def)
  have pj: "path_join dot c = dot @ slash # c"
    by (simp add: path_join_def PathSeparator_def slash_def dot_def)
  have "Clean (path_join dot c) = Join dot c"
    using assms by (simp add: pj Join_def plain_def)
  then show ?thesis using j pj by simp
qed

text \<open>
  C33. Clean once, join cheaply: \<open>StorePathZ\<close> of a stored parent that is clean and not \<open>.\<close> and
  of a stored plain entry name returns a string that reads as \<open>filepath.Join\<close> of the two, and
  that is again clean, so the argument repeats at every depth of the walk.
\<close>

theorem StorePathZ_is_Join:
  assumes "strings_wf sss m" and "i < length sss"
    and "span_ok (map ss_arena sss) m parent" and "span_ok (map ss_arena sss) m child"
    and "Clean (mem_read m parent) = mem_read m parent" and "mem_read m parent \<noteq> dot"
    and "plain (mem_read m child)"
  shows "\<exists>s ss' m'. StorePathZ parent child (sss ! i) m = Ret (s, ss', m') \<and>
           mem_read m' s = Join (mem_read m parent) (mem_read m child) \<and>
           Clean (mem_read m' s) = mem_read m' s"
proof -
  have "mem_read m parent \<noteq> []" using assms(5) Clean_ne by metis
  then have "sp_len parent \<noteq> 0" by (cases parent) simp
  from storePathZ_ok [OF assms(1-4) this] path_join_is_Join [OF assms(5-7)] show ?thesis by metis
qed

text \<open>
  C40. Below the root \<open>.\<close> the assumption that every child path is clean fails: \<open>StorePathZ\<close> of
  the root and a plain entry name returns \<open>./name\<close>, while \<open>filepath.Join\<close> gives \<open>name\<close>, and
  \<open>filepath.Clean\<close> changes the stored path.
\<close>

theorem StorePathZ_below_dot:
  assumes "strings_wf sss m" and "i < length sss"
    and "span_ok (map ss_arena sss) m parent" and "span_ok (map ss_arena sss) m child"
    and "mem_read m parent = dot" and "plain (mem_read m child)"
  shows "\<exists>s ss' m'. StorePathZ parent child (sss ! i) m = Ret (s, ss', m') \<and>
           mem_read m' s = dot @ slash # mem_read m child \<and>
           Join (mem_read m parent) (mem_read m child) = mem_read m child \<and>
           Clean (mem_read m' s) \<noteq> mem_read m' s"
proof -
  have "sp_len parent \<noteq> 0" using assms(5) length_mem_read [of m parent] by (auto simp: dot_def)
  from storePathZ_ok [OF assms(1-4) this] path_join_below_dot [OF assms(6)] assms(5) show ?thesis by metis
qed

text \<open>Two stored strings, in the heap of a worker, to join.\<close>

lemma demo_strings:
  assumes "NewStringZ a (snd two_stores) = (p, m1)" and "NewStringZ b m1 = (c, m)"
  shows "strings_wf (fst two_stores) m" and "span_ok (map ss_arena (fst two_stores)) m p"
    and "span_ok (map ss_arena (fst two_stores)) m c" and "mem_read m p = a" and "mem_read m c = b"
    and "length (fst two_stores) = 2"
proof -
  note one = NewStringZ_ok [OF two_stores_wf assms(1)]
  note two = NewStringZ_ok [OF one(1) assms(2)]
  note p = strz_ok_span_ok [OF one(3)]
  show "strings_wf (fst two_stores) m" and "mem_read m c = b" and "span_ok (map ss_arena (fst two_stores)) m c"
    using two strz_ok_span_ok by auto
  show "span_ok (map ss_arena (fst two_stores)) m p" and "mem_read m p = a"
    using keeps_span_ok [OF two(2) p] keeps_read [OF two(2) p] one(4) by auto
  show "length (fst two_stores) = 2" by (auto simp: two_stores_def split: prod.splits)
qed

theorem StorePathZ_is_Join_witness:
  "\<exists>m p c s ss' m'. mem_read m p = [47, 116] \<and> mem_read m c = [97] \<and>
     StorePathZ p c (fst two_stores ! 0) m = Ret (s, ss', m') \<and> mem_read m' s = Join [47, 116] [97]"
proof -
  obtain p m1 c m where "NewStringZ [47, 116] (snd two_stores) = (p, m1)" "NewStringZ [97] m1 = (c, m)"
    by (metis surj_pair)
  note d = demo_strings [OF this]
  have "Clean [47, 116] = [47, 116]" "[47, 116] \<noteq> dot" "plain [97]"
    by (simp_all add: model_defs plain_def)
  with StorePathZ_is_Join [OF d(1) _ d(2,3), of 0] d(4-6)
  have "\<exists>s ss' m'. StorePathZ p c (fst two_stores ! 0) m = Ret (s, ss', m') \<and> mem_read m' s = Join [47, 116] [97]"
    by auto
  with d(4,5) show ?thesis by blast
qed

theorem StorePathZ_below_dot_witness:
  "\<exists>m p c s ss' m'. mem_read m p = [46] \<and> mem_read m c = [97] \<and>
     StorePathZ p c (fst two_stores ! 0) m = Ret (s, ss', m') \<and> mem_read m' s = [46, 47, 97] \<and>
     Join [46] [97] = [97]"
proof -
  obtain p m1 c m where "NewStringZ dot (snd two_stores) = (p, m1)" "NewStringZ [97] m1 = (c, m)"
    by (metis surj_pair)
  note d = demo_strings [OF this]
  have "plain [97]" by (simp_all add: model_defs plain_def)
  with StorePathZ_below_dot [OF d(1) _ d(2,3), of 0] d(4-6)
  have "\<exists>s ss' m'. StorePathZ p c (fst two_stores ! 0) m = Ret (s, ss', m') \<and> mem_read m' s = [46, 47, 97] \<and>
      Join [46] [97] = [97]"
    by (auto simp: dot_def slash_def)
  with d(4,5) show ?thesis unfolding dot_def by blast
qed

end
