(* ===== verification/Result_Arena.thy ===== *)
theory Result_Arena
  imports Walk_Types
begin

text \<open>
  \<open>result_arena.go\<close>: where the entries and errors of published batches live. Each worker has
  an \<open>entryArena\<close>, which is the shared arena scheme with nodes of 256 entries, and a growing
  slice of \<open>DirErr\<close>, of which a batch takes the part appended since a mark. The heaps of
  entries and of errors are shared by all workers; the lemmas show that both structures only
  ever add cells, so a batch that was handed out never changes.

  The capacity Go's runtime picks when \<open>slices.Grow\<close> reallocates is not determined by the
  source; it is the parameter \<open>g\<close> (old capacity and required capacity to new capacity), of
  which only what the documentation says is used: it is at least the required one.
\<close>

section \<open>The arenas and their operations\<close>

type_synonym sEntry = "span Entry"
type_synonym sDirErr = "span DirErr"

definition zeroString :: span where "zeroString = Span 0 0 0"

definition zeroEntry :: sEntry where
  "zeroEntry = \<lparr>parentDir = zeroString, entName = zeroString, ino = 0, etyp = 0\<rparr>"

text \<open>The zero value has a nil error, which is no \<open>err\<close>; no code reads an unwritten cell.\<close>

definition zeroDirErr :: sDirErr where
  "zeroDirErr = \<lparr>errName = zeroString, errErr = Errno 0\<rparr>"

definition resArenaMinCapDirErrs :: int where "resArenaMinCapDirErrs = 4"

definition entryNodeSize :: nat where "entryNodeSize = 256"

record entryArena =
  ea_tail :: nat
  ea_off :: nat

definition newEntryArena :: "sEntry mem \<Rightarrow> entryArena \<times> sEntry mem" where
  "newEntryArena m =
     (case mem_alloc entryNodeSize zeroEntry m of (b, m') \<Rightarrow> (\<lparr>ea_tail = b, ea_off = 0\<rparr>, m'))"

definition storeEntries ::
  "sEntry list \<Rightarrow> entryArena \<Rightarrow> sEntry mem \<Rightarrow> span option \<times> entryArena \<times> sEntry mem" where
  "storeEntries items a m =
     (let n = length items in
      if n = 0 then (None, a, m)
      else if n > entryNodeSize then
        (case mem_alloc n zeroEntry m of
           (dst, m') \<Rightarrow> (Some (Span dst 0 n), a, mem_write dst 0 items m'))
      else
        let (a, m) =
          (if entryNodeSize - ea_off a < n then
             (case mem_alloc entryNodeSize zeroEntry m of
                (b, m') \<Rightarrow> (a\<lparr>ea_tail := b, ea_off := 0\<rparr>, m'))
           else (a, m));
          m = mem_write (ea_tail a) (ea_off a) items m
        in (Some (Span (ea_tail a) (ea_off a) n), a\<lparr>ea_off := ea_off a + n\<rparr>, m))"

text \<open>The error slice starts at its block's first cell; its capacity is the block's length.\<close>

record resultArena =
  ra_entries :: entryArena
  ra_errBlk :: nat
  ra_errLen :: nat

definition newResultArena ::
  "int \<Rightarrow> sEntry mem \<Rightarrow> sDirErr mem \<Rightarrow> resultArena \<times> sEntry mem \<times> sDirErr mem" where
  "newResultArena dirErrCap me md =
     (let dirErrCap = (if dirErrCap \<le> 0 then resArenaMinCapDirErrs else dirErrCap);
          (ea, me) = newEntryArena me;
          (b, md) = mem_alloc (nat dirErrCap) zeroDirErr md
      in (\<lparr>ra_entries = ea, ra_errBlk = b, ra_errLen = 0\<rparr>, me, md))"

definition getDirErrMark :: "resultArena \<Rightarrow> nat" where
  "getDirErrMark ra = ra_errLen ra"

definition ra_storeEntries ::
  "sEntry list \<Rightarrow> resultArena \<Rightarrow> sEntry mem \<Rightarrow> span option \<times> resultArena \<times> sEntry mem" where
  "ra_storeEntries items ra m =
     (case storeEntries items (ra_entries ra) m of (s, ea, m') \<Rightarrow> (s, ra\<lparr>ra_entries := ea\<rparr>, m'))"

definition err_cap :: "resultArena \<Rightarrow> sDirErr mem \<Rightarrow> nat" where
  "err_cap ra m = mlens m ! ra_errBlk ra"

definition err_span :: "resultArena \<Rightarrow> span" where
  "err_span ra = Span (ra_errBlk ra) 0 (ra_errLen ra)"

text \<open>A reallocation that makes room for \<open>need\<close> elements and copies the slice over.\<close>

definition regrow ::
  "(nat \<Rightarrow> nat \<Rightarrow> nat) \<Rightarrow> nat \<Rightarrow> resultArena \<Rightarrow> sDirErr mem \<Rightarrow> resultArena \<times> sDirErr mem" where
  "regrow g need ra m =
     (case mem_alloc (max need (g (err_cap ra m) need)) zeroDirErr m of
        (b, m') \<Rightarrow> (ra\<lparr>ra_errBlk := b\<rparr>, mem_write b 0 (mem_read m (err_span ra)) m'))"

definition slices_Grow ::
  "(nat \<Rightarrow> nat \<Rightarrow> nat) \<Rightarrow> nat \<Rightarrow> resultArena \<Rightarrow> sDirErr mem \<Rightarrow> resultArena \<times> sDirErr mem" where
  "slices_Grow g n ra m =
     (if n \<le> err_cap ra m - ra_errLen ra then (ra, m) else regrow g (ra_errLen ra + n) ra m)"

definition append_err ::
  "(nat \<Rightarrow> nat \<Rightarrow> nat) \<Rightarrow> sDirErr \<Rightarrow> resultArena \<Rightarrow> sDirErr mem \<Rightarrow> resultArena \<times> sDirErr mem" where
  "append_err g derr ra m =
     (let (ra, m) = (if ra_errLen ra < err_cap ra m then (ra, m) else regrow g (Suc (ra_errLen ra)) ra m)
      in (ra\<lparr>ra_errLen := Suc (ra_errLen ra)\<rparr>, mem_write (ra_errBlk ra) (ra_errLen ra) [derr] m))"

definition storeDirErr ::
  "(nat \<Rightarrow> nat \<Rightarrow> nat) \<Rightarrow> sDirErr \<Rightarrow> resultArena \<Rightarrow> sDirErr mem \<Rightarrow> resultArena \<times> sDirErr mem" where
  "storeDirErr g derr ra m =
     (let (ra, m) = (if ra_errLen ra \<ge> err_cap ra m then slices_Grow g (ra_errLen ra) ra m else (ra, m))
      in append_err g derr ra m)"

text \<open>\<open>ra.dirErrs[off:len]\<close>: a mark past the end is a slice-bounds panic.\<close>

definition sliceDirErr :: "nat \<Rightarrow> resultArena \<Rightarrow> span outcome" where
  "sliceDirErr off ra =
     (if off \<le> ra_errLen ra then Ret (Span (ra_errBlk ra) off (ra_errLen ra - off))
      else Panic IndexOutOfRange)"

lemmas [model_defs] = zeroString_def zeroEntry_def zeroDirErr_def resArenaMinCapDirErrs_def
  entryNodeSize_def newEntryArena_def storeEntries_def newResultArena_def getDirErrMark_def
  ra_storeEntries_def err_cap_def err_span_def regrow_def slices_Grow_def append_err_def
  storeDirErr_def sliceDirErr_def

section \<open>The entry arena is an arena\<close>

abbreviation ea_arena :: "entryArena \<Rightarrow> arena" where
  "ea_arena a \<equiv> (ea_tail a, ea_off a)"

definition entries_wf :: "entryArena list \<Rightarrow> sEntry mem \<Rightarrow> bool" where
  "entries_wf eas m \<longleftrightarrow> arenas_wf entryNodeSize zeroEntry (map ea_arena eas) m"

lemma storeEntries_put:
  assumes "items \<noteq> []"
  shows "storeEntries items a m =
     (case arena_put entryNodeSize zeroEntry (length items) items (ea_arena a) m of
        (s, r, m') \<Rightarrow> (Some s, \<lparr>ea_tail = fst r, ea_off = snd r\<rparr>, m'))"
  using assms
  by (cases a) (simp add: storeEntries_def arena_put_def arena_claim_def mem_alloc_def Let_def)

lemma newEntryArena_ok:
  assumes "entries_wf eas m" and "newEntryArena m = (a, m')"
  shows "entries_wf (eas @ [a]) m'" and "keeps (map ea_arena eas) m (map ea_arena (eas @ [a])) m'"
  using arena_new_node [OF assms(1) [unfolded entries_wf_def]] assms(2)
  by (auto simp: newEntryArena_def entries_wf_def split: prod.splits)

text \<open>What is read of a possibly nil slice.\<close>

fun opt_read :: "'a mem \<Rightarrow> span option \<Rightarrow> 'a list" where
  "opt_read m None = []"
| "opt_read m (Some s) = mem_read m s"

definition opt_ok :: "arena list \<Rightarrow> 'a mem \<Rightarrow> span option \<Rightarrow> bool" where
  "opt_ok as m r \<longleftrightarrow> (\<forall>s. r = Some s \<longrightarrow> span_ok as m s)"

lemma opt_ok_simps [simp]: "opt_ok as m None" "opt_ok as m (Some s) = span_ok as m s"
  by (simp_all add: opt_ok_def)

lemma keeps_opt [keeps_dest]:
  assumes "keeps as m as' m'" and "opt_ok as m r"
  shows "opt_ok as' m' r" and "opt_read m' r = opt_read m r"
  using assms keeps_span_ok keeps_read by (cases r; fastforce)+

lemma storeEntries_ok:
  assumes wf: "entries_wf eas m" and i: "i < length eas"
    and eq: "storeEntries items (eas ! i) m = (r, a, m')"
  shows "entries_wf (eas[i := a]) m'"
    and "keeps (map ea_arena eas) m (map ea_arena (eas[i := a])) m'"
    and "opt_ok (map ea_arena (eas[i := a])) m' r" and "opt_read m' r = items"
    and "r = None \<longleftrightarrow> items = []"
    and "r = Some s \<Longrightarrow> sp_len s = length items"
proof -
  have "entries_wf (eas[i := a]) m' \<and> keeps (map ea_arena eas) m (map ea_arena (eas[i := a])) m' \<and>
    opt_ok (map ea_arena (eas[i := a])) m' r \<and> opt_read m' r = items \<and> (r = None \<longleftrightarrow> items = [])
    \<and> (\<forall>s. r = Some s \<longrightarrow> sp_len s = length items)"
  proof (cases "items = []")
    case True
    then show ?thesis using eq wf by (auto simp: storeEntries_def)
  next
    case False
    obtain s b where put: "arena_put entryNodeSize zeroEntry (length items) items (map ea_arena eas ! i) m = (s, b, m')"
      and r: "r = Some s" and a: "a = \<lparr>ea_tail = fst b, ea_off = snd b\<rparr>"
      using eq i by (auto simp: storeEntries_put [OF False] split: prod.splits)
    note st = arena_put_stored [OF wf [unfolded entries_wf_def] _ _ put, simplified, OF i]
    show ?thesis using st False by (simp add: r a entries_wf_def map_update)
  qed
  then show "entries_wf (eas[i := a]) m'"
    and "keeps (map ea_arena eas) m (map ea_arena (eas[i := a])) m'"
    and "opt_ok (map ea_arena (eas[i := a])) m' r" and "opt_read m' r = items"
    and "r = None \<longleftrightarrow> items = []" and "r = Some s \<Longrightarrow> sp_len s = length items"
    by auto
qed

section \<open>The entry arenas implement the store interface\<close>

definition ea_put ::
  "nat \<times> sEntry list \<Rightarrow> entryArena list \<times> sEntry mem \<Rightarrow> (span option \<times> entryArena list \<times> sEntry mem) outcome" where
  "ea_put v st =
     (case storeEntries (snd v) (fst st ! fst v) (snd st) of
        (r, a, m') \<Rightarrow> Ret (r, (fst st)[fst v := a], m'))"

fun opt_cells :: "span option \<Rightarrow> (nat \<times> nat) set" where
  "opt_cells None = {}"
| "opt_cells (Some s) = cells_of s"

lemma storeEntries_fresh:
  assumes wf: "entries_wf eas m" and i: "i < length eas"
    and eq: "storeEntries items (eas ! i) m = (r, a, m')" and q: "opt_ok (map ea_arena eas) m q"
  shows "opt_cells r \<inter> opt_cells q = {}"
proof (cases "items = []")
  case True
  then show ?thesis using eq by (simp add: storeEntries_def)
next
  case False
  obtain s b where put: "arena_put entryNodeSize zeroEntry (length items) items (map ea_arena eas ! i) m = (s, b, m')"
    and r: "r = Some s"
    using eq i by (auto simp: storeEntries_put [OF False] split: prod.splits)
  have "\<not> frozen (map ea_arena eas) m c j" if "(c, j) \<in> cells_of s" for c j
    using arena_put_fresh [OF wf [unfolded entries_wf_def] _ put] i that by (simp add: cells_of_iff)
  then show ?thesis using q span_ok_frozen by (cases q) (fastforce simp: r)+
qed

interpretation batches: fresh_store "\<lambda>st. entries_wf (fst st) (snd st)"
  "\<lambda>st v. fst v < length (fst st)" ea_put "\<lambda>st. opt_ok (map ea_arena (fst st)) (snd st)"
  "\<lambda>st. opt_read (snd st)" "\<lambda>st v. snd v" opt_cells
proof unfold_locales
  fix s :: "entryArena list \<times> sEntry mem" and v u :: "nat \<times> sEntry list" and r q :: "span option" and s'
  show "\<exists>r s'. ea_put v s = Ret (r, s')" by (simp add: ea_put_def split: prod.split)
  assume law: "entries_wf (fst s) (snd s)" "fst v < length (fst s)" "ea_put v s = Ret (r, s')"
  then obtain a where run: "storeEntries (snd v) (fst s ! fst v) (snd s) = (r, a, snd s')"
    and s': "fst s' = (fst s)[fst v := a]"
    by (auto simp: ea_put_def split: prod.splits)
  note ok = storeEntries_ok [OF law(1,2) run, folded s']
  show "entries_wf (fst s') (snd s')" "opt_ok (map ea_arena (fst s')) (snd s') r"
    "opt_read (snd s') r = snd v"
    using ok by auto
  show "fst u < length (fst s) \<Longrightarrow> fst u < length (fst s')" by (simp add: s')
  assume q: "opt_ok (map ea_arena (fst s)) (snd s) q"
  show "opt_ok (map ea_arena (fst s')) (snd s') q" "opt_read (snd s') q = opt_read (snd s) q"
    using keeps_opt [OF ok(2) q] by auto
  show "opt_cells r \<inter> opt_cells q = {}" by (rule storeEntries_fresh [OF law(1,2) run q])
qed simp_all

text \<open>
  C18. Batches are immutable and never alias: whatever directories the workers store in
  whatever order, every batch reads back, at the end, exactly the entries it was given, a
  batch is nil only for an empty listing, no two batches share a cell, and none shares a
  cell with, or changes, a batch that a consumer held from before.
\<close>

theorem batches_stable:
  assumes "entries_wf eas m" and "\<forall>v \<in> set ds. fst v < length eas"
  shows "\<exists>rs eas' m'. put_all ea_put ds (eas, m) = Ret (rs, eas', m') \<and>
           map (opt_read m') rs = map snd ds \<and>
           (\<forall>i < length rs. \<forall>j < length rs. i \<noteq> j \<longrightarrow> opt_cells (rs ! i) \<inter> opt_cells (rs ! j) = {}) \<and>
           (\<forall>q. opt_ok (map ea_arena eas) m q \<longrightarrow>
              opt_read m' q = opt_read m q \<and> (\<forall>r \<in> set rs. opt_cells r \<inter> opt_cells q = {}))"
proof -
  obtain rs st where run: "put_all ea_put ds (eas, m) = Ret (rs, st)"
    and rd: "list_all2 (\<lambda>r v. opt_ok (map ea_arena (fst st)) (snd st) r \<and> opt_read (snd st) r = snd v) rs ds"
    and kp: "\<And>q. opt_ok (map ea_arena eas) m q \<Longrightarrow> opt_read (snd st) q = opt_read m q"
    using batches.put_all_stable [of "(eas, m)" ds] assms by auto
  note fr = batches.put_all_fresh [OF _ _ run]
  have "map (opt_read (snd st)) rs = map snd ds"
    using rd by (auto simp: list_all2_conv_all_nth intro: nth_equalityI)
  then show ?thesis
    using run kp fr assms by (intro exI [of _ rs] exI [of _ "fst st"] exI [of _ "snd st"]) auto
qed

definition one_arena :: "entryArena \<times> sEntry mem" where
  "one_arena = newEntryArena (empty_mem zeroEntry)"

lemma one_arena_wf: "entries_wf [fst one_arena] (snd one_arena)"
  using newEntryArena_ok(1) [of "[]" "empty_mem zeroEntry"]
  by (simp add: one_arena_def entries_wf_def split: prod.splits)

theorem batches_stable_witness:
  "\<exists>rs eas' m'. put_all ea_put [(0, [zeroEntry\<lparr>ino := 7\<rparr>]), (0, []), (0, [zeroEntry])]
       ([fst one_arena], snd one_arena) = Ret (rs, eas', m') \<and>
     map (opt_read m') rs = [[zeroEntry\<lparr>ino := 7\<rparr>], [], [zeroEntry]] \<and>
     opt_cells (rs ! 0) \<inter> opt_cells (rs ! 2) = {}"
proof -
  obtain rs eas' m' where run: "put_all ea_put [(0, [zeroEntry\<lparr>ino := 7\<rparr>]), (0, []), (0, [zeroEntry])]
       ([fst one_arena], snd one_arena) = Ret (rs, eas', m')"
    and rd: "map (opt_read m') rs = [[zeroEntry\<lparr>ino := 7\<rparr>], [], [zeroEntry]]"
    and al: "\<forall>i < length rs. \<forall>j < length rs. i \<noteq> j \<longrightarrow> opt_cells (rs ! i) \<inter> opt_cells (rs ! j) = {}"
    using batches_stable [OF one_arena_wf, of "[(0, [zeroEntry\<lparr>ino := 7\<rparr>]), (0, []), (0, [zeroEntry])]"]
    by auto
  have "length rs = 3" using arg_cong [OF rd, of length] by simp
  then show ?thesis using run rd al by auto
qed

section \<open>The error accumulator\<close>

abbreviation err_arena :: "resultArena \<Rightarrow> arena" where
  "err_arena ra \<equiv> (ra_errBlk ra, ra_errLen ra)"

definition errs_wf :: "resultArena list \<Rightarrow> sDirErr mem \<Rightarrow> bool" where
  "errs_wf ras m \<longleftrightarrow> arenas_ok zeroDirErr (map err_arena ras) m"

lemma errs_wf_cap:
  assumes "errs_wf ras m" and "i < length ras"
  shows "ra_errLen (ras ! i) \<le> err_cap (ras ! i) m"
proof -
  have "err_arena (ras ! i) \<in> set (map err_arena ras)" using assms(2) by simp
  then have "arena_ok zeroDirErr m (err_arena (ras ! i))"
    using assms(1) unfolding errs_wf_def arenas_ok_def by blast
  then show ?thesis by (simp add: arena_ok_def err_cap_def)
qed

text \<open>Arena \<open>i\<close> after a step: still well-formed, everything kept, this content.\<close>

definition err_step ::
  "resultArena list \<Rightarrow> sDirErr mem \<Rightarrow> nat \<Rightarrow> resultArena \<Rightarrow> sDirErr mem \<Rightarrow> sDirErr list \<Rightarrow> bool" where
  "err_step ras m i ra m' ds \<longleftrightarrow>
     errs_wf (ras[i := ra]) m' \<and>
     keeps (map err_arena ras) m (map err_arena (ras[i := ra])) m' \<and>
     span_ok (map err_arena (ras[i := ra])) m' (err_span ra) \<and>
     mem_read m' (err_span ra) = ds \<and> ra_entries ra = ra_entries (ras ! i)"

lemma err_step_refl:
  assumes wf: "errs_wf ras m" and i: "i < length ras"
  shows "err_step ras m i (ras ! i) m (mem_read m (err_span (ras ! i)))"
proof -
  have ok: "distinct (map fst (map err_arena ras))" "arena_ok zeroDirErr m (err_arena (ras ! i))"
    using wf i by (auto simp: errs_wf_def arenas_ok_def)
  have "ra_errLen r = ra_errLen (ras ! i)" if "r \<in> set ras" "ra_errBlk r = ra_errBlk (ras ! i)" for r
    using ok(1) that i by (auto simp: in_set_conv_nth distinct_conv_nth)
  then have "span_ok (map err_arena ras) m (err_span (ras ! i))"
    using ok(2) by (auto simp: span_ok_def frozen_def arena_ok_def err_span_def)
  then show ?thesis using wf i by (simp add: err_step_def)
qed

lemma err_step_trans:
  assumes "err_step ras m i ra m1 ds" and "i < length ras" and "err_step (ras[i := ra]) m1 i ra' m2 ds'"
  shows "err_step ras m i ra' m2 ds'"
  using assms keeps_trans by (auto simp: err_step_def)

lemma regrow_step:
  assumes wf: "errs_wf ras m" and i: "i < length ras" and need: "ra_errLen (ras ! i) \<le> need"
    and eq: "regrow g need (ras ! i) m = (ra, m')"
  shows "err_step ras m i ra m' (mem_read m (err_span (ras ! i)))"
    and "ra_errLen ra = ra_errLen (ras ! i)" and "need \<le> err_cap ra m'"
proof -
  let ?N = "max need (g (err_cap (ras ! i) m) need)" and ?b = "length (mlens m)" and ?n = "ra_errLen (ras ! i)"
  let ?m1 = "snd (mem_alloc ?N zeroDirErr m)"
  have ra: "ra = (ras ! i)\<lparr>ra_errBlk := ?b\<rparr>" and m': "m' = mem_write ?b 0 (mem_read m (err_span (ras ! i))) ?m1"
    using eq by (auto simp: regrow_def mem_alloc_def)
  have c: "claimed zeroDirErr (map err_arena ras) m ((map err_arena ras)[i := (?b, ?n)]) ?m1 (Span ?b 0 ?n)"
    by (rule claim_new_node) (use wf i need in \<open>auto simp: errs_wf_def\<close>)
  have as: "map err_arena (ras[i := ra]) = (map err_arena ras)[i := (?b, ?n)]"
    by (simp add: ra map_update)
  note w = claimed_write [OF c, of "mem_read m (err_span (ras ! i))", folded as, simplified, folded m']
  show "err_step ras m i ra m' (mem_read m (err_span (ras ! i)))"
    using w by (simp add: err_step_def errs_wf_def err_span_def ra)
  show "ra_errLen ra = ?n" by (simp add: ra)
  show "need \<le> err_cap ra m'" by (simp add: err_cap_def ra m' mem_alloc_simps nth_append)
qed

lemma append_fits_step:
  assumes wf: "errs_wf ras m" and i: "i < length ras"
    and room: "ra_errLen (ras ! i) < err_cap (ras ! i) m"
  shows "err_step ras m i ((ras ! i)\<lparr>ra_errLen := Suc (ra_errLen (ras ! i))\<rparr>)
           (mem_write (ra_errBlk (ras ! i)) (ra_errLen (ras ! i)) [d] m)
           (mem_read m (err_span (ras ! i)) @ [d])"
proof -
  let ?b = "ra_errBlk (ras ! i)" and ?n = "ra_errLen (ras ! i)"
  let ?ra = "(ras ! i)\<lparr>ra_errLen := Suc ?n\<rparr>" and ?m = "mem_write ?b ?n [d] m"
  have c: "claimed zeroDirErr (map err_arena ras) m ((map err_arena ras)[i := (?b, ?n + 1)]) m (Span ?b ?n 1)"
    by (rule claim_tail) (use wf i room in \<open>auto simp: errs_wf_def err_cap_def\<close>)
  have as: "map err_arena (ras[i := ?ra]) = (map err_arena ras)[i := (?b, ?n + 1)]"
    by (simp add: map_update)
  note w = claimed_write [OF c, of "[d]", folded as, simplified]
  have wf': "errs_wf (ras[i := ?ra]) ?m" using w(1) by (simp add: errs_wf_def)
  have i': "i < length (ras[i := ?ra])" using i by simp
  have old: "mem_read ?m (err_span (ras ! i)) = mem_read m (err_span (ras ! i))"
    using err_step_refl [OF wf i] keeps_read [OF w(2)] i by (simp add: err_step_def)
  have "mem_read ?m (err_span ?ra) = mem_read m (err_span (ras ! i)) @ [d]"
    using old by (simp add: err_span_def mcell_mem_write)
  then show ?thesis
    using w(2) wf' err_step_refl [OF wf' i'] i by (simp add: err_step_def)
qed

lemma append_err_step:
  assumes wf: "errs_wf ras m" and i: "i < length ras" and eq: "append_err g d (ras ! i) m = (ra, m')"
  shows "err_step ras m i ra m' (mem_read m (err_span (ras ! i)) @ [d])"
proof (cases "ra_errLen (ras ! i) < err_cap (ras ! i) m")
  case True
  then show ?thesis using append_fits_step [OF wf i True, of d] eq by (simp add: append_err_def)
next
  case False
  obtain ra1 m1 where g: "regrow g (Suc (ra_errLen (ras ! i))) (ras ! i) m = (ra1, m1)"
    by fastforce
  note st = regrow_step [OF wf i _ g, simplified]
  have i1: "i < length (ras[i := ra1])" using i by simp
  have wf1: "errs_wf (ras[i := ra1]) m1" and rd: "mem_read m1 (err_span ra1) = mem_read m (err_span (ras ! i))"
    using st(1) by (simp_all add: err_step_def)
  have room: "ra_errLen ra1 < err_cap ra1 m1" using st(2,3) by simp
  show ?thesis
    using err_step_trans [OF st(1) i append_fits_step [OF wf1 i1, of d]] room eq False g i rd
    by (simp add: append_err_def)
qed

lemma storeDirErr_step:
  assumes wf: "errs_wf ras m" and i: "i < length ras" and eq: "storeDirErr g d (ras ! i) m = (ra, m')"
  shows "err_step ras m i ra m' (mem_read m (err_span (ras ! i)) @ [d])"
    and "ra_errLen ra = Suc (ra_errLen (ras ! i))"
proof -
  show step: "err_step ras m i ra m' (mem_read m (err_span (ras ! i)) @ [d])"
  proof (cases "err_cap (ras ! i) m \<le> ra_errLen (ras ! i) \<and> 0 < ra_errLen (ras ! i)")
    case True
    obtain ra1 m1 where g: "regrow g (ra_errLen (ras ! i) + ra_errLen (ras ! i)) (ras ! i) m = (ra1, m1)"
      by fastforce
    note st = regrow_step [OF wf i _ g, simplified]
    have wf1: "errs_wf (ras[i := ra1]) m1" and rd: "mem_read m1 (err_span ra1) = mem_read m (err_span (ras ! i))"
      using st(1) by (simp_all add: err_step_def)
    have "append_err g d (ras[i := ra1] ! i) m1 = (ra, m')"
      using eq g True i by (auto simp: storeDirErr_def slices_Grow_def)
    from err_step_trans [OF st(1) i append_err_step [OF wf1 _ this]] show ?thesis using i rd by simp
  next
    case False
    then have "append_err g d (ras ! i) m = (ra, m')"
      using eq by (auto simp: storeDirErr_def slices_Grow_def split: if_splits)
    then show ?thesis by (rule append_err_step [OF wf i])
  qed
  have "sp_len (err_span ra) = Suc (sp_len (err_span (ras ! i)))"
    using arg_cong [OF step [unfolded err_step_def, THEN conjunct2, THEN conjunct2, THEN conjunct2, THEN conjunct1], of length]
    by simp
  then show "ra_errLen ra = Suc (ra_errLen (ras ! i))" by (simp add: err_span_def)
qed

text \<open>The errors of one directory, stored one by one, and the slice taken since the mark.\<close>

fun store_errs ::
  "(nat \<Rightarrow> nat \<Rightarrow> nat) \<Rightarrow> sDirErr list \<Rightarrow> resultArena \<Rightarrow> sDirErr mem \<Rightarrow> resultArena \<times> sDirErr mem" where
  "store_errs g [] ra m = (ra, m)"
| "store_errs g (d # ds) ra m = (case storeDirErr g d ra m of (ra', m') \<Rightarrow> store_errs g ds ra' m')"

lemma store_errs_step:
  assumes "errs_wf ras m" and "i < length ras" and "store_errs g ds (ras ! i) m = (ra, m')"
  shows "err_step ras m i ra m' (mem_read m (err_span (ras ! i)) @ ds)"
  using assms
proof (induction ds arbitrary: ras m)
  case Nil
  then show ?case using err_step_refl by auto
next
  case (Cons d ds)
  obtain ra1 m1 where one: "storeDirErr g d (ras ! i) m = (ra1, m1)" by fastforce
  note st = storeDirErr_step(1) [OF Cons.prems(1,2) one]
  have wf1: "errs_wf (ras[i := ra1]) m1" and rd: "mem_read m1 (err_span ra1) = mem_read m (err_span (ras ! i)) @ [d]"
    using st by (simp_all add: err_step_def)
  have i: "i < length (ras[i := ra1])" using Cons.prems(2) by simp
  have rest: "store_errs g ds (ras[i := ra1] ! i) m1 = (ra, m')" using Cons.prems one by simp
  show ?case
    using err_step_trans [OF st Cons.prems(2) Cons.IH [OF wf1 i rest]] Cons.prems(2) rd by simp
qed

lemma sliceDirErr_ok:
  assumes st: "err_step ras m i ra m' (old @ ds)" and off: "off = length old"
  shows "\<exists>s. sliceDirErr off ra = Ret s \<and> mem_read m' s = ds \<and>
           span_ok (map err_arena (ras[i := ra])) m' s"
proof -
  have rd: "mem_read m' (err_span ra) = old @ ds" and ok: "span_ok (map err_arena (ras[i := ra])) m' (err_span ra)"
    using st by (simp_all add: err_step_def)
  have len: "ra_errLen ra = length old + length ds"
    using arg_cong [OF rd, of length] by (simp add: err_span_def)
  have "mem_read m' (Span (ra_errBlk ra) off (ra_errLen ra - off)) = ds"
    using arg_cong [OF rd, of "drop off"] off len by (simp add: err_span_def drop_map)
  moreover have "span_ok (map err_arena (ras[i := ra])) m' (Span (ra_errBlk ra) off (ra_errLen ra - off))"
    using ok off len unfolding err_span_def by (auto elim: span_ok_sub)
  ultimately show ?thesis using off len by (simp add: sliceDirErr_def)
qed

text \<open>The literal \<open>[]DirErr{{...}}\<close> of a directory that could not be read.\<close>

definition lit_err :: "sDirErr \<Rightarrow> sDirErr mem \<Rightarrow> span \<times> sDirErr mem" where
  "lit_err d m = (case mem_alloc 1 zeroDirErr m of (b, m') \<Rightarrow> (Span b 0 1, mem_write b 0 [d] m'))"

lemma lit_err_ok:
  assumes wf: "errs_wf ras m" and eq: "lit_err d m = (s, m')"
  shows "errs_wf ras m'" and "keeps (map err_arena ras) m (map err_arena ras) m'"
    and "span_ok (map err_arena ras) m' s" and "mem_read m' s = [d]"
proof -
  let ?b = "length (mlens m)"
  have s: "s = Span ?b 0 1" and m': "m' = mem_write ?b 0 [d] (snd (mem_alloc 1 zeroDirErr m))"
    using eq by (auto simp: lit_err_def mem_alloc_def)
  note w = claimed_write [OF claim_new_block [OF wf [unfolded errs_wf_def], of 1], of "[d]",
      unfolded span.sel, folded m' s]
  show "errs_wf ras m'" "keeps (map err_arena ras) m (map err_arena ras) m'"
    "span_ok (map err_arena ras) m' s" "mem_read m' s = [d]"
    using w by (simp_all add: errs_wf_def s)
qed

lemma newResultArena_ok:
  assumes ew: "entries_wf (map ra_entries ras) me" and dw: "errs_wf ras md"
    and eq: "newResultArena c me md = (ra, me', md')"
  shows "entries_wf (map ra_entries (ras @ [ra])) me'" and "errs_wf (ras @ [ra]) md'"
proof -
  obtain ea b N where e: "newEntryArena me = (ea, me')" and d: "mem_alloc N zeroDirErr md = (b, md')"
    and ra: "ra = \<lparr>ra_entries = ea, ra_errBlk = b, ra_errLen = 0\<rparr>"
    using eq by (auto simp: newResultArena_def Let_def mem_alloc_def split: prod.splits)
  show "entries_wf (map ra_entries (ras @ [ra])) me'" using newEntryArena_ok(1) [OF ew e] by (simp add: ra)
  have b: "b = length (mlens md)" and md': "md' = snd (mem_alloc N zeroDirErr md)"
    using d by (auto simp: mem_alloc_def)
  have old: "t < length (mlens md)" if "(t, k) \<in> set (map err_arena ras)" for t k
    using dw that by (auto simp: errs_wf_def arenas_ok_def arena_ok_def)
  show "errs_wf (ras @ [ra]) md'"
    using dw old
    by (auto simp: errs_wf_def arenas_ok_def arena_ok_def ra b md' mem_simps nth_append; fastforce)
qed

text \<open>
  C19. The mark and slice protocol of the error accumulator: the errors a directory stores
  after taking its mark are exactly the ones its batch carries, in order, however often the
  backing array is reallocated in between and whatever capacity the runtime picks; and no
  error slice handed out earlier, of this or another worker, changes.
\<close>

theorem dirErr_protocol:
  assumes "errs_wf ras m" and "i < length ras" and "store_errs g ds (ras ! i) m = (ra, m')"
  shows "(\<exists>s. sliceDirErr (getDirErrMark (ras ! i)) ra = Ret s \<and> mem_read m' s = ds) \<and>
         errs_wf (ras[i := ra]) m' \<and>
         (\<forall>q. span_ok (map err_arena ras) m q \<longrightarrow> mem_read m' q = mem_read m q)"
proof -
  note st = store_errs_step [OF assms]
  have "getDirErrMark (ras ! i) = length (mem_read m (err_span (ras ! i)))"
    by (simp add: getDirErrMark_def err_span_def)
  from sliceDirErr_ok [OF st this] show ?thesis
    using st keeps_read by (auto simp: err_step_def)
qed

theorem dirErr_protocol_witness:
  "case newResultArena 1 (empty_mem zeroEntry) (empty_mem zeroDirErr) of (r0, _, m) \<Rightarrow>
     case store_errs (\<lambda>_ n. n) [zeroDirErr, zeroDirErr\<lparr>errErr := ErrSymlinkCycle\<rparr>] r0 m of (ra, m') \<Rightarrow>
       \<exists>s. sliceDirErr (getDirErrMark r0) ra = Ret s \<and>
           mem_read m' s = [zeroDirErr, zeroDirErr\<lparr>errErr := ErrSymlinkCycle\<rparr>]"
proof -
  obtain r0 me m where n: "newResultArena 1 (empty_mem zeroEntry) (empty_mem zeroDirErr) = (r0, me, m)"
    by (metis prod_cases3)
  obtain ra m' where s: "store_errs (\<lambda>_ n. n) [zeroDirErr, zeroDirErr\<lparr>errErr := ErrSymlinkCycle\<rparr>] ([r0] ! 0) m = (ra, m')"
    by fastforce
  have wf: "errs_wf [r0] m"
    using newResultArena_ok(2) [OF _ _ n, of "[]"] by (simp add: entries_wf_def errs_wf_def arenas_ok_def)
  from dirErr_protocol [OF wf _ s] show ?thesis using n s by simp
qed

section \<open>A consumer that appends to a batch\<close>

text \<open>
  Go's \<open>append(batch.Entries, x)\<close> by a consumer. \<open>a.tail.buf[a.off : a.off+n]\<close> leaves the
  slice a capacity up to the end of its node, so the append writes into the node.
\<close>

definition consumer_append :: "sEntry \<Rightarrow> span \<Rightarrow> sEntry mem \<Rightarrow> sEntry mem" where
  "consumer_append x s m =
     (if sp_off s + sp_len s < mlens m ! sp_blk s
      then mem_write (sp_blk s) (sp_off s + sp_len s) [x] m else m)"

text \<open>
  C39. Appending to a batch that is still held corrupts the next one: when two listings land
  in the same node, a consumer that appends an entry \<open>x\<close> to the first batch replaces the
  first entry of the second batch by \<open>x\<close>.
\<close>

theorem consumer_append_clobbers:
  assumes "entries_wf [a] m" and "xs \<noteq> []" and "ea_off a + length xs + length (y # ys) \<le> entryNodeSize"
    and "storeEntries xs a m = (Some s1, a1, m1)"
    and "storeEntries (y # ys) a1 m1 = (Some s2, a2, m2)"
  shows "mem_read m2 s2 = y # ys \<and> mem_read (consumer_append x s1 m2) s2 = x # ys"
proof -
  have N: "mlens m ! ea_tail a = entryNodeSize"
    using assms(1) by (simp add: entries_wf_def arenas_wf_def)
  have 1: "s1 = Span (ea_tail a) (ea_off a) (length xs)" "a1 = a\<lparr>ea_off := ea_off a + length xs\<rparr>"
    "mlens m1 = mlens m"
    using assms(2-4) by (auto simp: storeEntries_def Let_def split: if_splits)
  have 2: "s2 = Span (ea_tail a) (ea_off a + length xs) (length (y # ys))"
    "m2 = mem_write (ea_tail a) (ea_off a + length xs) (y # ys) m1"
    using assms(3,5) 1 by (auto simp: storeEntries_def Let_def split: if_splits)
  have rd: "mem_read m2 s2 = y # ys" unfolding 2 by (rule mem_read_write_same)
  have "mem_write (ea_tail a) (ea_off a + length xs) [x] m2
      = mem_write (ea_tail a) (ea_off a + length xs) (x # ys) m1"
  proof -
    have "mcell (mem_write (ea_tail a) (ea_off a + length xs) [x] m2)
      = mcell (mem_write (ea_tail a) (ea_off a + length xs) (x # ys) m1)"
      unfolding 2 by (intro ext) (auto simp: mcell_mem_write nth_Cons')
    then show ?thesis by (simp add: 2 mem_write_def)
  qed
  then have "consumer_append x s1 m2 = mem_write (ea_tail a) (ea_off a + length xs) (x # ys) m1"
    using 1 2 N assms(3) by (simp add: consumer_append_def)
  then show ?thesis
    using rd mem_read_write_same [of "ea_tail a" "ea_off a + length xs" "x # ys" m1] by (simp add: 2)
qed

theorem consumer_append_clobbers_witness:
  "case storeEntries [zeroEntry] (fst one_arena) (snd one_arena) of (r1, a1, m1) \<Rightarrow>
     case storeEntries [zeroEntry\<lparr>ino := 2\<rparr>] a1 m1 of (r2, _, m2) \<Rightarrow>
       mem_read (consumer_append (zeroEntry\<lparr>ino := 9\<rparr>) (the r1) m2) (the r2) = [zeroEntry\<lparr>ino := 9\<rparr>]"
proof -
  obtain a m where oa: "one_arena = (a, m)" by fastforce
  have off: "ea_off a = 0" using oa by (auto simp: one_arena_def newEntryArena_def mem_alloc_def)
  obtain s1 a1 m1 where 1: "storeEntries [zeroEntry] a m = (Some s1, a1, m1)"
    by (simp add: storeEntries_def Let_def off entryNodeSize_def)
  then have "ea_off a1 = 1" by (auto simp: storeEntries_def Let_def off entryNodeSize_def)
  then obtain s2 a2 m2 where 2: "storeEntries [zeroEntry\<lparr>ino := 2\<rparr>] a1 m1 = (Some s2, a2, m2)"
    by (auto simp: storeEntries_def Let_def entryNodeSize_def)
  show ?thesis
    unfolding oa fst_conv snd_conv 1 2 prod.case option.sel
    using consumer_append_clobbers [OF one_arena_wf [unfolded oa fst_conv snd_conv] _ _ 1 2]
    by (simp add: off entryNodeSize_def)
qed

end
