(* ===== verification/Readdir.thy ===== *)
theory Readdir
  imports String_Store Walk_Types
begin

text \<open>
  \<open>readdir_linux.go\<close>: \<open>openDirZ\<close> and \<open>readDirRaw\<close>. The kernel is a parameter of the
  model: what \<open>openat\<close> answers for a C string, and what the \<open>k\<close>-th \<open>getdents64\<close> on the
  opened directory answers, an errno or the bytes it put at the front of the buffer. The
  buffer is the worker's and keeps the stale bytes of earlier calls behind those.

  The record parser reads fields of a \<open>linuxDirent64\<close> at their ABI offsets (little endian)
  through an unsafe pointer: a read past the buffer, which Go does not check, is the panic
  \<open>OutOfBuffer\<close>; \<open>unsafe.Slice\<close> with a negative length is a real panic. The \<open>getdents\<close> loop
  need not end for an arbitrary kernel, so it is a \<open>partial_function\<close>.
\<close>

section \<open>The kernel and the constants\<close>

definition getdentsBufSize :: nat where "getdentsBufSize = 128 * 1024"

definition direntNameOffset :: nat where "direntNameOffset = 19"

definition atFDCWD :: int where "atFDCWD = - 0x64"

text \<open>
  \<open>k_openat dirfd path flags\<close> is the errno or the new descriptor; \<open>dirfd\<close> as the word
  the syscall ABI receives. \<open>k_getdents fd k\<close> is the \<open>k\<close>-th answer on that descriptor.
\<close>

record kernel =
  k_openat :: "u64 \<Rightarrow> byte list \<Rightarrow> u32 \<Rightarrow> errno + nat"
  k_getdents :: "nat \<Rightarrow> nat \<Rightarrow> errno + byte list"

definition O_RDONLY :: u32 where "O_RDONLY = 0"
definition O_DIRECTORY :: u32 where "O_DIRECTORY = 0x10000"
definition O_CLOEXEC :: u32 where "O_CLOEXEC = 0x80000"
definition O_LARGEFILE :: u32 where "O_LARGEFILE = 0"

lemmas open_flag_defs = O_RDONLY_def O_DIRECTORY_def O_CLOEXEC_def O_LARGEFILE_def

text \<open>The path argument is the address of the string's first byte: the kernel reads to a NUL.\<close>

definition openDirZ :: "kernel \<Rightarrow> byte mem \<Rightarrow> span \<Rightarrow> u32 \<Rightarrow> (errno + nat) outcome" where
  "openDirZ K m pathZ flags =
     (let dirfd = word_of_int atFDCWD :: u64 in
      case cstring_at m pathZ of
        None \<Rightarrow> Panic OutOfBuffer
      | Some p \<Rightarrow> Ret (k_openat K dirfd p (flags OR O_LARGEFILE)))"

section \<open>Reading one record\<close>

type_synonym buffer = "nat \<Rightarrow> byte"

definition fill_buffer :: "byte list \<Rightarrow> buffer \<Rightarrow> buffer" where
  "fill_buffer bs buf = (\<lambda>i. if i < length bs then bs ! i else buf i)"

definition le_val :: "byte list \<Rightarrow> nat" where
  "le_val bs = foldr (\<lambda>b n. unat b + 256 * n) bs 0"

text \<open>An unchecked read of \<open>n\<close> bytes.\<close>

definition raw_read :: "buffer \<Rightarrow> nat \<Rightarrow> nat \<Rightarrow> byte list outcome" where
  "raw_read buf k n =
     (if k + n \<le> getdentsBufSize then Ret (map buf [k..<k + n]) else Panic OutOfBuffer)"

text \<open>
  \<open>dent := (*linuxDirent64)(unsafe.Pointer(&buf[pos]))\<close> is bounds-checked at \<open>pos\<close>; the
  fields behind it are not.
\<close>

definition dent_at :: "nat \<Rightarrow> nat outcome" where
  "dent_at pos = (if pos < getdentsBufSize then Ret pos else Panic IndexOutOfRange)"

definition dent_Ino :: "buffer \<Rightarrow> nat \<Rightarrow> u64 outcome" where
  "dent_Ino buf dent = obind (raw_read buf dent 8) (\<lambda>bs. Ret (of_nat (le_val bs)))"

definition dent_Reclen :: "buffer \<Rightarrow> nat \<Rightarrow> nat outcome" where
  "dent_Reclen buf dent = obind (raw_read buf (dent + 16) 2) (\<lambda>bs. Ret (le_val bs))"

definition dent_Type :: "buffer \<Rightarrow> nat \<Rightarrow> byte outcome" where
  "dent_Type buf dent = obind (raw_read buf (dent + 18) 1) (\<lambda>bs. Ret (hd bs))"

text \<open>
  \<open>bytes.IndexByte\<close> over the name field, from its first byte to the first NUL: it only
  leaves the buffer when there is no NUL before its end.
\<close>

definition name_at :: "buffer \<Rightarrow> nat \<Rightarrow> nat \<Rightarrow> byte list outcome" where
  "name_at buf dent reclen =
     (if reclen < direntNameOffset then Panic NegativeLen
      else
        let namePtr = dent + direntNameOffset;
            stop = dent + reclen;
            nameBytes = map buf [namePtr..<min stop getdentsBufSize]
        in if 0 \<in> set nameBytes then Ret (cstr nameBytes)
           else if stop \<le> getdentsBufSize then Ret nameBytes
           else Panic OutOfBuffer)"

definition dots :: "byte list set" where
  "dots = {[46], [46, 46]}"

lemma obind_cong [fundef_cong]:
  assumes "r = r'" and "\<And>x. r' = Ret x \<Longrightarrow> f x = g x"
  shows "obind r f = obind r' g"
  using assms by (cases r') auto

section \<open>The parse loop and the read loop\<close>

type_synonym 's callback = "byte list \<Rightarrow> byte \<Rightarrow> u64 \<Rightarrow> 's \<Rightarrow> (err option \<times> 's) outcome"

text \<open>
  The inner loop over the \<open>n\<close> bytes of one answer. The result is the callback's error, if
  it aborted the listing, and the callback's state.
\<close>

function parse_dents ::
  "gostring set \<Rightarrow> 's callback \<Rightarrow> buffer \<Rightarrow> nat \<Rightarrow> nat \<Rightarrow> 's \<Rightarrow> (err option \<times> 's) outcome" where
  "parse_dents skip onEntry buf n pos s =
     (if pos < n then
        obind (dent_at pos) (\<lambda>dent.
        obind (dent_Reclen buf dent) (\<lambda>reclen.
        if reclen = 0 then Ret (None, s)
        else
          obind (name_at buf dent reclen) (\<lambda>name.
          if name \<in> dots then parse_dents skip onEntry buf n (pos + reclen) s
          else if name \<in> skip then parse_dents skip onEntry buf n (pos + reclen) s
          else
            obind (dent_Type buf dent) (\<lambda>typ.
            obind (dent_Ino buf dent) (\<lambda>ino.
            obind (onEntry name typ ino s) (\<lambda>(err, s').
            case err of
              Some e \<Rightarrow> Ret (Some e, s')
            | None \<Rightarrow> parse_dents skip onEntry buf n (pos + reclen) s')))))) 
      else Ret (None, s))"
  by pat_completeness auto
termination by (relation "measure (\<lambda>(skip, onEntry, buf, n, pos, s). n - pos)") auto

declare parse_dents.simps [simp del]

partial_function (option) getdents_loop ::
  "kernel \<Rightarrow> gostring set \<Rightarrow> 's callback \<Rightarrow> nat \<Rightarrow> nat \<Rightarrow> buffer \<Rightarrow> 's \<Rightarrow>
     (err option \<times> buffer \<times> 's) outcome option" where
  "getdents_loop K skip onEntry fd k buf s =
     (case k_getdents K fd k of
        Inl errno \<Rightarrow> Some (Ret (Some (Errno errno), buf, s))
      | Inr bs \<Rightarrow>
          (if length bs = 0 then Some (Ret (None, buf, s))
           else
             (case parse_dents skip onEntry (fill_buffer bs buf) (length bs) 0 s of
                Ret (None, s') \<Rightarrow> getdents_loop K skip onEntry fd (Suc k) (fill_buffer bs buf) s'
              | Ret (Some e, s') \<Rightarrow> Some (Ret (Some e, fill_buffer bs buf, s'))
              | Panic p \<Rightarrow> Some (Panic p)
              | Diverge \<Rightarrow> Some Diverge)))"

definition readDirRaw ::
  "kernel \<Rightarrow> byte mem \<Rightarrow> span \<Rightarrow> gostring set \<Rightarrow> 's callback \<Rightarrow> buffer \<Rightarrow> 's \<Rightarrow>
     (err option \<times> buffer \<times> 's) outcome" where
  "readDirRaw K m dirPath skip onEntry buf s =
     obind (openDirZ K m dirPath (O_RDONLY OR O_DIRECTORY OR O_CLOEXEC)) (\<lambda>r.
       case r of
         Inl errno \<Rightarrow> Ret (Some (Errno errno), buf, s)
       | Inr fd \<Rightarrow> outcome_of (getdents_loop K skip onEntry fd 0 buf s))"

lemmas [model_defs] = getdentsBufSize_def direntNameOffset_def atFDCWD_def open_flag_defs
  fill_buffer_def le_val_def raw_read_def dent_at_def dent_Ino_def dent_Reclen_def dent_Type_def
  name_at_def dots_def

section \<open>The kernel's record format\<close>

text \<open>
  A directory record as the kernel lays it out: inode, offset cookie, record length, type,
  NUL-terminated name, and padding of any length and content.
\<close>

record dirent =
  d_ino :: u64
  d_type :: byte
  d_name :: "byte list"

record rawrec = dirent +
  d_off :: u64
  d_pad :: "byte list"

fun le_bytes :: "nat \<Rightarrow> nat \<Rightarrow> byte list" where
  "le_bytes 0 v = []"
| "le_bytes (Suc n) v = of_nat v # le_bytes n (v div 256)"

definition rec_len :: "rawrec \<Rightarrow> nat" where
  "rec_len r = 20 + length (d_name r) + length (d_pad r)"

definition enc_rec :: "rawrec \<Rightarrow> byte list" where
  "enc_rec r =
     le_bytes 8 (unat (d_ino r)) @ le_bytes 8 (unat (d_off r)) @ le_bytes 2 (rec_len r) @
     [d_type r] @ d_name r @ 0 # d_pad r"

definition rec_wf :: "rawrec \<Rightarrow> bool" where
  "rec_wf r \<longleftrightarrow> 0 \<notin> set (d_name r) \<and> rec_len r < 65536"

lemma length_le_bytes [simp]: "length (le_bytes n v) = n"
  by (induction n v rule: le_bytes.induct) auto

lemma le_val_le_bytes: "le_val (le_bytes n v) = v mod 256 ^ n"
proof (induction n v rule: le_bytes.induct)
  case (1 v)
  then show ?case by (simp add: le_val_def)
next
  case (2 n v)
  have "le_val (le_bytes (Suc n) v) = v mod 256 + 256 * le_val (le_bytes n (v div 256))"
    by (simp add: le_val_def unat_of_nat)
  also have "\<dots> = v mod (256 * 256 ^ n)"
    using 2 by (simp add: mod_mult2_eq)
  finally show ?case by simp
qed

lemma length_enc_rec: "length (enc_rec r) = rec_len r"
  by (simp add: enc_rec_def rec_len_def)

text \<open>The fields of a record that lies in the buffer.\<close>

lemma map_shift_take:
  assumes "map buf [k..<k + length (xs @ ys)] = xs @ ys"
  shows "map buf [k..<k + length xs] = xs" and "map buf [k + length xs..<k + length xs + length ys] = ys"
proof -
  have "[k..<k + length (xs @ ys)] = [k..<k + length xs] @ [k + length xs..<k + length xs + length ys]"
    using upt_add_eq_append [of k "k + length xs" "length ys"] by (simp add: add.assoc)
  then have "map buf [k..<k + length xs] @ map buf [k + length xs..<k + length xs + length ys] = xs @ ys"
    using assms by simp
  then show "map buf [k..<k + length xs] = xs" and "map buf [k + length xs..<k + length xs + length ys] = ys"
    by (auto simp: append_eq_append_conv)
qed

lemma fields_of_rec:
  assumes wf: "rec_wf r" and at: "map buf [pos..<pos + rec_len r] = enc_rec r"
    and fits: "pos + rec_len r \<le> getdentsBufSize"
  shows "dent_at pos = Ret pos" and "dent_Reclen buf pos = Ret (rec_len r)"
    and "name_at buf pos (rec_len r) = Ret (d_name r)"
    and "dent_Type buf pos = Ret (d_type r)" and "dent_Ino buf pos = Ret (d_ino r)"
proof -
  let ?I = "le_bytes 8 (unat (d_ino r))" and ?O = "le_bytes 8 (unat (d_off r))"
    and ?L = "le_bytes 2 (rec_len r)" and ?N = "d_name r @ 0 # d_pad r"
  have len: "rec_len r = 20 + length (d_name r) + length (d_pad r)" by (simp add: rec_len_def)
  have 0: "map buf [pos..<pos + length (?I @ ?O @ ?L @ [d_type r] @ ?N)] = ?I @ ?O @ ?L @ [d_type r] @ ?N"
    using at by (simp add: enc_rec_def len ac_simps)
  note 1 = map_shift_take [OF 0]
  note 2 = map_shift_take [OF 1(2)]
  note 3 = map_shift_take [OF 2(2)]
  note 4 = map_shift_take [OF 3(2)]
  show "dent_at pos = Ret pos" using fits len by (simp add: dent_at_def)
  have "map buf [pos + 16..<pos + 16 + 2] = ?L" using 3(1) by (simp add: ac_simps)
  then show "dent_Reclen buf pos = Ret (rec_len r)"
    using fits len wf by (simp add: dent_Reclen_def raw_read_def le_val_le_bytes rec_wf_def)
  have nm: "map buf [pos + 19..<pos + rec_len r] = ?N" using 4(2) len by (simp add: ac_simps)
  have "min (pos + rec_len r) getdentsBufSize = pos + rec_len r" using fits by simp
  then show "name_at buf pos (rec_len r) = Ret (d_name r)"
    using wf unfolding name_at_def Let_def direntNameOffset_def
    by (simp add: nm cstr_no_nul rec_wf_def del: set_map) (simp add: len)
  have "map buf [pos + 18..<pos + 18 + 1] = [d_type r]" using 4(1) by (simp add: ac_simps)
  then show "dent_Type buf pos = Ret (d_type r)"
    using fits len by (simp add: dent_Type_def raw_read_def)
  have "map buf [pos..<pos + 8] = ?I" using 1(1) by simp
  then show "dent_Ino buf pos = Ret (d_ino r)"
    using fits len unsigned_less [of "d_ino r", where ?'a = nat]
    by (simp add: dent_Ino_def raw_read_def le_val_le_bytes)
qed

section \<open>Parsing what the kernel encoded\<close>

text \<open>What the read loop is to do with the records of a directory, in order.\<close>

fun feed :: "gostring set \<Rightarrow> 's callback \<Rightarrow> dirent list \<Rightarrow> 's \<Rightarrow> (err option \<times> 's) outcome" where
  "feed skip onEntry [] s = Ret (None, s)"
| "feed skip onEntry (d # ds) s =
     (if d_name d \<in> dots \<union> skip then feed skip onEntry ds s
      else
        obind (onEntry (d_name d) (d_type d) (d_ino d) s) (\<lambda>(err, s').
          case err of Some e \<Rightarrow> Ret (Some e, s') | None \<Rightarrow> feed skip onEntry ds s'))"

definition enc_recs :: "rawrec list \<Rightarrow> byte list" where
  "enc_recs rs = concat (map enc_rec rs)"

abbreviation dirent_of :: "rawrec \<Rightarrow> dirent" where
  "dirent_of r \<equiv> dirent.truncate r"

lemma dirent_of_sel [simp]:
  "d_ino (dirent_of r) = d_ino r" "d_type (dirent_of r) = d_type r" "d_name (dirent_of r) = d_name r"
  by (simp_all add: dirent.truncate_def)

lemma parse_enc:
  assumes "\<forall>r \<in> set rs. rec_wf r" and "map buf [pos..<n] = enc_recs rs" and "pos \<le> n"
    and "n \<le> getdentsBufSize"
  shows "parse_dents skip onEntry buf n pos s = feed skip onEntry (map dirent_of rs) s"
  using assms
proof (induction rs arbitrary: pos s)
  case Nil
  then have "n - pos = 0" using arg_cong [OF Nil.prems(2), of length] by (simp add: enc_recs_def)
  then show ?case by (subst parse_dents.simps) simp
next
  case (Cons r rs)
  let ?l = "rec_len r"
  have all: "map buf [pos..<n] = enc_rec r @ enc_recs rs" using Cons.prems(2) by (simp add: enc_recs_def)
  have n: "n = pos + length (enc_rec r @ enc_recs rs)"
    using arg_cong [OF all, of length] Cons.prems(3) by simp
  note sp = map_shift_take [OF all [unfolded n]]
  have here: "map buf [pos..<pos + ?l] = enc_rec r" and le: "pos + ?l \<le> n" and l: "0 < ?l"
    using sp(1) n by (simp_all add: length_enc_rec rec_len_def)
  have rest: "map buf [pos + ?l..<n] = enc_recs rs"
    using sp(2) n by (simp add: length_enc_rec add.assoc)
  have wf: "rec_wf r" and fits: "pos + ?l \<le> getdentsBufSize" using Cons.prems le by auto
  note f = fields_of_rec [OF wf here fits]
  have ih: "parse_dents skip onEntry buf n (pos + ?l) s' = feed skip onEntry (map dirent_of rs) s'" for s'
    using Cons.IH [OF _ rest le] Cons.prems by simp
  have "pos < n" using le l by simp
  then show ?case
    using l by (subst parse_dents.simps) (auto simp: f ih split: option.split intro!: obind_cong)
qed

lemma feed_append:
  "feed skip onEntry (xs @ ys) s =
     obind (feed skip onEntry xs s) (\<lambda>(err, s').
       case err of Some e \<Rightarrow> Ret (Some e, s') | None \<Rightarrow> feed skip onEntry ys s')"
  by (induction xs arbitrary: s)
    (auto simp: obind_assoc split: option.split prod.split intro!: obind_cong)

text \<open>
  A kernel that serves a descriptor: some non-empty answers of whole records that fit the
  buffer, then end of directory or an errno.
\<close>

definition serves :: "kernel \<Rightarrow> nat \<Rightarrow> nat \<Rightarrow> rawrec list list \<Rightarrow> errno option \<Rightarrow> bool" where
  "serves K fd k chunks e \<longleftrightarrow>
     (\<forall>j < length chunks. chunks ! j \<noteq> [] \<and> (\<forall>r \<in> set (chunks ! j). rec_wf r) \<and>
        length (enc_recs (chunks ! j)) \<le> getdentsBufSize \<and>
        k_getdents K fd (k + j) = Inr (enc_recs (chunks ! j))) \<and>
     k_getdents K fd (k + length chunks) = (case e of None \<Rightarrow> Inr [] | Some n \<Rightarrow> Inl n)"

text \<open>What a listing ends with: the callback's error first, then the kernel's.\<close>

definition listing_end :: "errno option \<Rightarrow> buffer \<Rightarrow> (err option \<times> 's) outcome \<Rightarrow> (err option \<times> buffer \<times> 's) outcome" where
  "listing_end e buf r =
     obind r (\<lambda>(err, s). Ret (case err of Some x \<Rightarrow> Some x | None \<Rightarrow> map_option Errno e, buf, s))"

lemma enc_recs_ne: "rs \<noteq> [] \<Longrightarrow> enc_recs rs \<noteq> []"
  by (cases rs) (auto simp: enc_recs_def enc_rec_def)

lemma serves_Cons:
  assumes "serves K fd k (c # cs) e"
  shows "k_getdents K fd k = Inr (enc_recs c)" and "c \<noteq> []" and "\<forall>r \<in> set c. rec_wf r"
    and "length (enc_recs c) \<le> getdentsBufSize" and "serves K fd (Suc k) cs e"
proof -
  have all: "\<forall>j < Suc (length cs). (c # cs) ! j \<noteq> [] \<and> (\<forall>r \<in> set ((c # cs) ! j). rec_wf r) \<and>
        length (enc_recs ((c # cs) ! j)) \<le> getdentsBufSize \<and>
        k_getdents K fd (k + j) = Inr (enc_recs ((c # cs) ! j))"
    using assms by (simp add: serves_def)
  show "k_getdents K fd k = Inr (enc_recs c)" "c \<noteq> []" "\<forall>r \<in> set c. rec_wf r"
    "length (enc_recs c) \<le> getdentsBufSize"
    using all [rule_format, of 0] by auto
  show "serves K fd (Suc k) cs e"
    using assms all [rule_format, of "Suc j" for j] by (auto simp: serves_def)
qed

lemma getdents_loop_serves:
  assumes "serves K fd k chunks e"
  shows "\<exists>buf'. getdents_loop K skip onEntry fd k buf s =
           Some (listing_end e buf' (feed skip onEntry (map dirent_of (concat chunks)) s))"
  using assms
proof (induction chunks arbitrary: k buf s)
  case Nil
  then have "k_getdents K fd k = (case e of None \<Rightarrow> Inr [] | Some n \<Rightarrow> Inl n)" by (simp add: serves_def)
  then show ?case
    by (subst getdents_loop.simps) (auto simp: listing_end_def split: option.split)
next
  case (Cons c cs)
  note sv = serves_Cons [OF Cons.prems]
  let ?bs = "enc_recs c" and ?buf = "fill_buffer (enc_recs c) buf"
  have "map ?buf [0..<length ?bs] = ?bs"
    by (rule nth_equalityI) (auto simp: fill_buffer_def)
  then have parse: "parse_dents skip onEntry ?buf (length ?bs) 0 s = feed skip onEntry (map dirent_of c) s"
    using sv by (intro parse_enc) auto
  have ne: "?bs \<noteq> []" by (rule enc_recs_ne [OF sv(2)])
  obtain r where r: "feed skip onEntry (map dirent_of c) s = r" by simp
  consider (go) s' where "r = Ret (None, s')" | (abort) x s' where "r = Ret (Some x, s')"
    | (panic) p where "r = Panic p" | (div) "r = Diverge"
    by (cases r) (auto, metis option.exhaust surj_pair)
  then show ?case
  proof cases
    case go
    then show ?thesis
      using Cons.IH [OF sv(5), of ?buf s'] r ne
      by (subst getdents_loop.simps) (simp add: sv(1) parse feed_append)
  qed (use r ne in \<open>subst getdents_loop.simps, simp add: sv(1) parse feed_append listing_end_def\<close>)+
qed

section \<open>Properties\<close>

definition dirFlags :: u32 where
  "dirFlags = (O_RDONLY OR O_DIRECTORY OR O_CLOEXEC) OR O_LARGEFILE"

text \<open>
  What the kernel has to say about a path: the records it delivers before the listing ends,
  and the errno it ends with, of \<open>openat\<close> or of \<open>getdents64\<close>, if any.
\<close>

definition dir_reads :: "kernel \<Rightarrow> byte list \<Rightarrow> dirent list \<Rightarrow> errno option \<Rightarrow> bool" where
  "dir_reads K p ds e \<longleftrightarrow>
     (case k_openat K (word_of_int atFDCWD) p dirFlags of
        Inl n \<Rightarrow> ds = [] \<and> e = Some n
      | Inr fd \<Rightarrow> (\<exists>chunks. serves K fd 0 chunks e \<and> ds = map dirent_of (concat chunks)))"

lemma readDirRaw_feed:
  assumes "cstring_at m dirPath = Some p" and "dir_reads K p ds e"
  shows "\<exists>buf'. readDirRaw K m dirPath skip onEntry buf s = listing_end e buf' (feed skip onEntry ds s)"
proof (cases "k_openat K (word_of_int atFDCWD) p dirFlags")
  case (Inl n)
  then show ?thesis
    using assms
    by (simp add: readDirRaw_def openDirZ_def dir_reads_def listing_end_def dirFlags_def)
next
  case (Inr fd)
  then obtain chunks where "serves K fd 0 chunks e" and ds: "ds = map dirent_of (concat chunks)"
    using assms by (auto simp: dir_reads_def)
  from getdents_loop_serves [OF this(1), of skip onEntry buf s] show ?thesis
    using assms(1) Inr by (auto simp: readDirRaw_def openDirZ_def dirFlags_def ds)
qed

lemma feed_fold:
  assumes "\<And>n t i s. onEntry n t i s = Ret (None, f n t i s)"
  shows "feed skip onEntry ds s =
           Ret (None, fold (\<lambda>d. f (d_name d) (d_type d) (d_ino d))
                        (filter (\<lambda>d. d_name d \<notin> dots \<union> skip) ds) s)"
  by (induction ds arbitrary: s) (auto simp: assms)

text \<open>
  C5. The raw reader delivers the directory: for a NUL-terminated path and a kernel that
  answers with any number of buffers of well-formed records, the callback is run on exactly
  the records whose name is neither a dot entry nor in the skip set, in the kernel's order,
  each with its own name, type and inode, whatever stale bytes the buffer holds; the result
  is the kernel's errno if the listing ended in one, and no read leaves the buffer.
\<close>

theorem readDirRaw_lists:
  assumes "strz_ok as m dirPath" and "dir_reads K (cstr (mem_read m dirPath)) ds e"
    and "\<And>n t i s. onEntry n t i s = Ret (None, f n t i s)"
  shows "\<exists>buf'. readDirRaw K m dirPath skip onEntry buf s =
           Ret (map_option Errno e, buf',
                fold (\<lambda>d. f (d_name d) (d_type d) (d_ino d))
                  (filter (\<lambda>d. d_name d \<notin> dots \<union> skip) ds) s)"
  using readDirRaw_feed [OF strz_ok_cstring_at [OF assms(1)] assms(2), of skip onEntry buf s]
  by (simp add: feed_fold [OF assms(3)] listing_end_def)

text \<open>A kernel with one directory \<open>t\<close> that holds \<open>.\<close>, a subdirectory \<open>a\<close> and a file \<open>b\<close>.\<close>

definition raw :: "u64 \<Rightarrow> byte \<Rightarrow> byte list \<Rightarrow> rawrec" where
  "raw i t n = \<lparr>d_ino = i, d_type = t, d_name = n, d_off = 1, d_pad = [255, 0]\<rparr>"

definition demo_chunks :: "rawrec list list" where
  "demo_chunks = [[raw 1 4 [46], raw 2 4 [97]], [raw 3 8 [98]]]"

definition demo_kernel :: kernel where
  "demo_kernel =
     \<lparr>k_openat = (\<lambda>_ p _. if p = [116] then Inr 3 else Inl 2),
      k_getdents = (\<lambda>_ k. if k < 2 then Inr (enc_recs (demo_chunks ! k)) else Inr [])\<rparr>"

lemma demo_reads: "dir_reads demo_kernel [116] (map dirent_of (concat demo_chunks)) None"
proof -
  have "demo_chunks ! j \<noteq> [] \<and> (\<forall>r \<in> set (demo_chunks ! j). rec_wf r) \<and>
      length (enc_recs (demo_chunks ! j)) \<le> getdentsBufSize" if "j < 2" for j
  proof -
    have "j = 0 \<or> j = 1" using that by auto
    then show ?thesis
      by (auto simp: demo_chunks_def raw_def rec_wf_def rec_len_def enc_recs_def length_enc_rec
          getdentsBufSize_def)
  qed
  moreover have "length demo_chunks = 2" by (simp add: demo_chunks_def)
  ultimately have "serves demo_kernel 3 0 demo_chunks None"
    by (simp add: serves_def demo_kernel_def)
  then show ?thesis by (auto simp: dir_reads_def demo_kernel_def)
qed

definition demo_mem :: "byte mem" where
  "demo_mem = snd (NewStringZ [116] (empty_mem 0))"

lemma demo_path: "strz_ok [] demo_mem (Span 0 0 1)" "cstr (mem_read demo_mem (Span 0 0 1)) = [116]"
proof -
  have z: "NewStringZ [116] (empty_mem 0) = (Span 0 0 1, demo_mem)"
    by (simp add: NewStringZ_def mem_alloc_def empty_mem_def demo_mem_def)
  show "strz_ok [] demo_mem (Span 0 0 1)" "cstr (mem_read demo_mem (Span 0 0 1)) = [116]"
    using NewStringZ_ok(3,4) [of "[]", OF _ z] by (simp_all add: strings_wf_def cstr_id del: mem_read.simps)
qed

theorem readDirRaw_lists_witness:
  "\<exists>buf'. readDirRaw demo_kernel demo_mem (Span 0 0 1) {[98]}
       (\<lambda>n t i s. Ret (None, s @ [(n, t, i)])) (\<lambda>_. 0) [] = Ret (None, buf', [([97], 4, 2)])"
proof -
  have fin: "map_option Errno None = None"
    "fold (\<lambda>d s. s @ [(d_name d, d_type d, d_ino d)])
      (filter (\<lambda>d. d_name d \<notin> dots \<union> {[98]}) (map dirent_of (concat demo_chunks))) [] = [([97], 4, 2)]"
    by (simp_all add: demo_chunks_def raw_def dots_def)
  show ?thesis
    using readDirRaw_lists [OF demo_path(1) demo_reads [folded demo_path(2)],
        where f = "\<lambda>n t i s. s @ [(n, t, i)]" and skip = "{[98]}" and s = "[]"
        and onEntry = "\<lambda>n t i s. Ret (None, s @ [(n, t, i)])", OF refl]
    unfolding fin .
qed

text \<open>
  C28. A callback error stops the listing at once and is what the caller gets: the records
  behind the one it failed on are not delivered, and its state is the one it returned.
\<close>

theorem readDirRaw_abort:
  assumes "strz_ok as m dirPath" and "dir_reads K (cstr (mem_read m dirPath)) (xs @ d # ys) e"
    and "feed skip onEntry xs s = Ret (None, s1)" and "d_name d \<notin> dots \<union> skip"
    and "onEntry (d_name d) (d_type d) (d_ino d) s1 = Ret (Some x, s2)"
  shows "\<exists>buf'. readDirRaw K m dirPath skip onEntry buf s = Ret (Some x, buf', s2)"
  using readDirRaw_feed [OF strz_ok_cstring_at [OF assms(1)] assms(2), of skip onEntry buf s]
    assms(3-5) by (simp add: feed_append listing_end_def)

theorem readDirRaw_abort_witness:
  "\<exists>buf'. readDirRaw demo_kernel demo_mem (Span 0 0 1) {}
       (\<lambda>n t i s. Ret (Some (Errno 5), n # s)) (\<lambda>_. 0) [] = Ret (Some (Errno 5), buf', [[97]])"
proof -
  have "map dirent_of (concat demo_chunks) =
      [dirent_of (raw 1 4 [46])] @ dirent_of (raw 2 4 [97]) # [dirent_of (raw 3 8 [98])]"
    by (simp add: demo_chunks_def)
  from demo_reads [unfolded this, folded demo_path(2)] show ?thesis
    by (rule readDirRaw_abort [OF demo_path(1)]) (simp_all add: dots_def raw_def)
qed

text \<open>The answers after which the read loop stops by itself.\<close>

definition last_answer :: "errno + byte list \<Rightarrow> bool" where
  "last_answer r \<longleftrightarrow> (case r of Inl n \<Rightarrow> True | Inr bs \<Rightarrow> bs = [])"

lemma obind_Diverge_iff: "obind r f = Diverge \<longleftrightarrow> r = Diverge \<or> (\<exists>x. r = Ret x \<and> f x = Diverge)"
  by (cases r) auto

lemma reads_end:
  "dent_at pos \<noteq> Diverge" "dent_Reclen buf d \<noteq> Diverge" "dent_Type buf d \<noteq> Diverge"
  "dent_Ino buf d \<noteq> Diverge" "name_at buf d l \<noteq> Diverge"
  by (auto simp: dent_at_def dent_Reclen_def dent_Type_def dent_Ino_def name_at_def raw_read_def Let_def
      split: if_splits)

lemma parse_dents_ends:
  assumes "\<And>n t i s. onEntry n t i s \<noteq> Diverge"
  shows "parse_dents skip onEntry buf n pos s \<noteq> Diverge"
  using assms
proof (induction skip onEntry buf n pos s rule: parse_dents.induct)
  case (1 skip onEntry buf n pos s)
  then show ?case
    by (subst parse_dents.simps) (fastforce simp: obind_Diverge_iff reads_end split: option.splits if_splits)
qed

lemma getdents_loop_Some:
  assumes "last_answer (k_getdents K fd j)" and "k \<le> j" and "\<And>n t i s. onEntry n t i s \<noteq> Diverge"
  shows "\<exists>r. getdents_loop K skip onEntry fd k buf s = Some r \<and> r \<noteq> Diverge"
  using assms(2)
proof (induction "j - k" arbitrary: k buf s)
  case 0
  then show ?case
    using assms(1) by (subst getdents_loop.simps) (auto simp: last_answer_def split: sum.splits)
next
  case (Suc d)
  then have ih: "\<exists>r. getdents_loop K skip onEntry fd (Suc k) buf' s' = Some r \<and> r \<noteq> Diverge" for buf' s'
    by auto
  have "parse_dents skip onEntry buf' n 0 s \<noteq> Diverge" for buf' n
    by (rule parse_dents_ends [OF assms(3)])
  then show ?case
    using ih by (subst getdents_loop.simps) (auto split: sum.split outcome.split prod.split option.split)
qed

definition never_ends :: "kernel \<Rightarrow> nat \<Rightarrow> nat \<Rightarrow> bool" where
  "never_ends K fd k \<longleftrightarrow>
     (\<forall>j \<ge> k. \<exists>c. c \<noteq> [] \<and> (\<forall>r \<in> set c. rec_wf r) \<and>
        length (enc_recs c) \<le> getdentsBufSize \<and> k_getdents K fd j = Inr (enc_recs c))"

lemma getdents_loop_None:
  assumes "getdents_loop K skip onEntry fd k buf s = Some r" and "\<forall>n t i s. \<exists>s'. onEntry n t i s = Ret (None, s')"
  shows "\<not> never_ends K fd k"
proof -
  have "(\<forall>n t i s. \<exists>s'. onEntry n t i s = Ret (None, s')) \<longrightarrow> \<not> never_ends K fd k"
  proof (rule getdents_loop.raw_induct
      [where P = "\<lambda>K skip onEntry fd k buf s r.
         (\<forall>n t i s. \<exists>s'. onEntry n t i s = Ret (None, s')) \<longrightarrow> \<not> never_ends K fd k", OF _ assms(1)])
    fix loop K skip onEntry fd k buf s r
    assume 1: "\<And>K skip onEntry fd k buf s r. loop K skip onEntry fd k buf s = Some r \<Longrightarrow>
        (\<forall>n t i s. \<exists>s'. onEntry n t i s = Ret (None, s')) \<longrightarrow> \<not> never_ends K fd k"
      "(case k_getdents K fd k of
          Inl errno \<Rightarrow> Some (Ret (Some (Errno errno), buf, s))
        | Inr bs \<Rightarrow>
            (if length bs = 0 then Some (Ret (None, buf, s))
             else
               (case parse_dents skip onEntry (fill_buffer bs buf) (length bs) 0 s of
                  Ret (None, s') \<Rightarrow> loop K skip onEntry fd (Suc k) (fill_buffer bs buf) s'
                | Ret (Some e, s') \<Rightarrow> Some (Ret (Some e, fill_buffer bs buf, s'))
                | Panic p \<Rightarrow> Some (Panic p)
                | Diverge \<Rightarrow> Some Diverge))) = Some r"
    show "(\<forall>n t i s. \<exists>s'. onEntry n t i s = Ret (None, s')) \<longrightarrow> \<not> never_ends K fd k"
    proof (intro impI notI)
      assume pure: "\<forall>n t i s. \<exists>s'. onEntry n t i s = Ret (None, s')" and ne: "never_ends K fd k"
      obtain c where c: "c \<noteq> []" "\<forall>r \<in> set c. rec_wf r" "length (enc_recs c) \<le> getdentsBufSize"
        "k_getdents K fd k = Inr (enc_recs c)"
        using ne by (auto simp: never_ends_def)
      let ?buf = "fill_buffer (enc_recs c) buf"
      have "map ?buf [0..<length (enc_recs c)] = enc_recs c"
        by (rule nth_equalityI) (auto simp: fill_buffer_def)
      then have "parse_dents skip onEntry ?buf (length (enc_recs c)) 0 s = feed skip onEntry (map dirent_of c) s"
        using c by (intro parse_enc) auto
      moreover have f: "onEntry n t i s = Ret (None, snd (case onEntry n t i s of Ret x \<Rightarrow> x))" for n t i s
        using pure [rule_format, of n t i s] by auto
      ultimately obtain s' where "parse_dents skip onEntry ?buf (length (enc_recs c)) 0 s = Ret (None, s')"
        using feed_fold [OF f] by auto
      then have "loop K skip onEntry fd (Suc k) ?buf s' = Some r"
        using 1(2) c enc_recs_ne [OF c(1)] by simp
      moreover have "never_ends K fd (Suc k)" using ne by (auto simp: never_ends_def)
      ultimately show False using 1(1) [of K skip onEntry fd "Suc k" ?buf s' r] pure by simp
    qed
  qed
  then show ?thesis using assms(2) by simp
qed

text \<open>
  C20. Reading a directory ends exactly when the kernel's listing does: when some answer on
  the descriptor is an end of directory or an errno, the loop returns or panics, for any
  bytes in the other answers, malformed records included, as long as the callback returns;
  and a kernel that keeps delivering well-formed records is read forever.
\<close>

theorem getdents_loop_returns_iff:
  assumes "\<And>n t i s. onEntry n t i s = Ret (None, f n t i s)"
    and "\<forall>j. \<not> last_answer (k_getdents K fd j) \<longrightarrow>
           (\<exists>c. (\<forall>r \<in> set c. rec_wf r) \<and> length (enc_recs c) \<le> getdentsBufSize \<and>
                k_getdents K fd j = Inr (enc_recs c))
           \<or> (\<exists>j'. last_answer (k_getdents K fd j'))"
  shows "outcome_of (getdents_loop K skip onEntry fd 0 buf s) \<noteq> Diverge \<longleftrightarrow>
           (\<exists>j. last_answer (k_getdents K fd j))"
proof
  assume "\<exists>j. last_answer (k_getdents K fd j)"
  then obtain j where "last_answer (k_getdents K fd j)" ..
  from getdents_loop_Some [OF this, of 0 onEntry skip buf s]
  show "outcome_of (getdents_loop K skip onEntry fd 0 buf s) \<noteq> Diverge" by (auto simp: assms(1))
next
  assume ret: "outcome_of (getdents_loop K skip onEntry fd 0 buf s) \<noteq> Diverge"
  show "\<exists>j. last_answer (k_getdents K fd j)"
  proof (rule ccontr)
    assume no: "\<not> (\<exists>j. last_answer (k_getdents K fd j))"
    have "c \<noteq> []" if "k_getdents K fd j = Inr (enc_recs c)" for j c
    proof
      assume "c = []"
      then have "last_answer (k_getdents K fd j)" using that by (simp add: last_answer_def enc_recs_def)
      then show False using no by blast
    qed
    then have "never_ends K fd 0" using assms(2) no unfolding never_ends_def by blast
    moreover obtain r where "getdents_loop K skip onEntry fd 0 buf s = Some r"
      using ret by (cases "getdents_loop K skip onEntry fd 0 buf s") auto
    ultimately show False using getdents_loop_None [of K skip onEntry fd 0 buf s r] by (simp add: assms(1))
  qed
qed

theorem getdents_loop_returns_iff_witness:
  "outcome_of (getdents_loop demo_kernel {} (\<lambda>n t i s. Ret (None, n # s)) 3 0 (\<lambda>_. 0) []) \<noteq> Diverge"
proof -
  have last: "last_answer (k_getdents demo_kernel 3 2)" by (simp add: last_answer_def demo_kernel_def)
  then show ?thesis
    using getdents_loop_returns_iff [where f = "\<lambda>n t i s. n # s" and onEntry = "\<lambda>n t i s. Ret (None, n # s)"
        and K = demo_kernel and fd = 3 and skip = "{}" and buf = "\<lambda>_. 0" and s = "[]"]
    by blast
qed

end
