(* ===== verification/Ancestors.thy ===== *)
theory Ancestors
  imports Generic_Store_Seq
begin

text \<open>
  \<open>ancestors.go\<close>: the shared ancestor chains of the symlink-following walk. A link is a cell
  of the generic store that names its parent link by address; \<open>chain\<close> relates such a linked
  structure to the list of (inode, device) pairs it stands for, nearest directory first. The
  lemmas show that pushing a link disturbs no chain any worker holds and that \<open>hasCycle\<close>
  returns and answers membership in the list.
\<close>

section \<open>The links\<close>

record ancestorEntry =
  an_ino :: u64
  an_dev :: u64
  an_parent :: "ptr option"

definition zeroAncestor :: ancestorEntry where
  "zeroAncestor = \<lparr>an_ino = 0, an_dev = 0, an_parent = None\<rparr>"

type_synonym ancestor_state = "generic_store \<times> ancestorEntry mem"

text \<open>\<open>w.ancestors\<close> is nil when symlinks are not followed; the worker's number is not used.\<close>

definition pushAncestor ::
  "nat \<Rightarrow> u64 \<Rightarrow> u64 \<Rightarrow> ptr option \<Rightarrow> generic_store option \<Rightarrow> ancestorEntry mem \<Rightarrow>
     (ptr option \<times> generic_store option \<times> ancestorEntry mem) outcome" where
  "pushAncestor workerID ino dev parent ancestors m =
     (case ancestors of
        None \<Rightarrow> Panic NilDeref
      | Some s \<Rightarrow>
          (case Append zeroAncestor \<lparr>an_ino = ino, an_dev = dev, an_parent = parent\<rparr> s m of
             (p, s', m') \<Rightarrow> Ret (Some p, Some s', m')))"

partial_function (option) hasCycle ::
  "ancestorEntry mem \<Rightarrow> ptr option \<Rightarrow> u64 \<Rightarrow> u64 \<Rightarrow> bool option" where
  "hasCycle m ref targetIno targetDev =
     (case ref of
        None \<Rightarrow> Some False
      | Some p \<Rightarrow>
          (if an_ino (deref m p) = targetIno \<and> an_dev (deref m p) = targetDev then Some True
           else hasCycle m (an_parent (deref m p)) targetIno targetDev))"

definition newAncestorStore :: "ancestorEntry mem \<Rightarrow> generic_store \<times> ancestorEntry mem" where
  "newAncestorStore m = gst_new zeroAncestor m"

lemmas [model_defs] = zeroAncestor_def pushAncestor_def newAncestorStore_def

section \<open>Chains\<close>

fun chain :: "ancestor_state \<Rightarrow> ptr option \<Rightarrow> (u64 \<times> u64) list \<Rightarrow> bool" where
  "chain st ref [] \<longleftrightarrow> ref = None"
| "chain st ref (d # ds) \<longleftrightarrow>
     (\<exists>p. ref = Some p \<and> ptr_ok st p \<and>
        (an_ino (deref (snd st) p), an_dev (deref (snd st) p)) = d \<and>
        chain st (an_parent (deref (snd st) p)) ds)"

lemma chain_None [simp]: "chain st None ds \<longleftrightarrow> ds = []"
  by (cases ds) auto

lemma keeps_chain [keeps_dest]:
  assumes "keeps [gst_arena s] m [gst_arena s'] m'" and "chain (s, m) ref ds"
  shows "chain (s', m') ref ds"
  using assms(2) by (induction ds arbitrary: ref) (auto simp: keeps_ptr_ok [OF assms(1)])

lemma hasCycle_chain:
  "chain (s, m) ref ds \<Longrightarrow> hasCycle m ref i d = Some ((i, d) \<in> set ds)"
proof (induction ds arbitrary: ref)
  case Nil
  then show ?case by (subst hasCycle.simps) simp
next
  case (Cons a ds)
  then show ?case by (subst hasCycle.simps) auto
qed

lemma chain_unique: "chain st ref ds \<Longrightarrow> chain st ref ds' \<Longrightarrow> ds = ds'"
proof (induction ds arbitrary: ref ds')
  case (Cons a ds)
  then show ?case by (cases ds') auto
qed auto

lemma pushAncestor_ok:
  assumes wf: "generic_wf zeroAncestor (s, m)" and c: "chain (s, m) parent ds"
  shows "\<exists>p s' m'. pushAncestor w ino dev parent (Some s) m = Ret (Some p, Some s', m') \<and>
           generic_wf zeroAncestor (s', m') \<and> keeps [gst_arena s] m [gst_arena s'] m' \<and>
           chain (s', m') (Some p) ((ino, dev) # ds)"
proof -
  let ?v = "\<lparr>an_ino = ino, an_dev = dev, an_parent = parent\<rparr>"
  obtain p s' m' where ap: "Append zeroAncestor ?v s m = (p, s', m')" by (metis prod_cases3)
  note ok = Append_ok [OF wf ap]
  show ?thesis
    using ap ok keeps_chain [OF ok(2) c] by (simp add: pushAncestor_def)
qed

lemma newAncestorStore_ok:
  "newAncestorStore m = (s, m') \<Longrightarrow> generic_wf zeroAncestor (s, m')"
  by (simp add: newAncestorStore_def gst_new_ok)

text \<open>
  C15. Cycle detection is exact and always ends: in a well-formed shared store, pushing the
  identity of a directory below a chain gives a chain for which \<open>hasCycle\<close> returns, and
  answers whether the target is that directory or one of its ancestors; every chain that any
  worker holds keeps standing for the same ancestors.
\<close>

theorem pushAncestor_hasCycle:
  assumes "generic_wf zeroAncestor (s, m)" and "chain (s, m) parent ds"
  shows "\<exists>p s' m'. pushAncestor w ino dev parent (Some s) m = Ret (p, Some s', m') \<and>
           generic_wf zeroAncestor (s', m') \<and> chain (s', m') p ((ino, dev) # ds) \<and>
           (\<forall>i d. hasCycle m' p i d = Some ((i, d) \<in> set ((ino, dev) # ds))) \<and>
           (\<forall>q qs i d. chain (s, m) q qs \<longrightarrow>
              chain (s', m') q qs \<and> hasCycle m' q i d = hasCycle m q i d)"
proof -
  obtain p s' m' where push: "pushAncestor w ino dev parent (Some s) m = Ret (Some p, Some s', m')"
    and wf: "generic_wf zeroAncestor (s', m')" and kp: "keeps [gst_arena s] m [gst_arena s'] m'"
    and ch: "chain (s', m') (Some p) ((ino, dev) # ds)"
    using pushAncestor_ok [OF assms, of w ino dev] by auto
  have "hasCycle m' (Some p) i d = Some ((i, d) \<in> set ((ino, dev) # ds))" for i d
    by (rule hasCycle_chain [OF ch])
  moreover have "chain (s', m') q qs \<and> hasCycle m' q i d = hasCycle m q i d"
    if "chain (s, m) q qs" for q qs i d
    using keeps_chain [OF kp that] hasCycle_chain that by metis
  ultimately show ?thesis using push wf ch by blast
qed

theorem pushAncestor_hasCycle_witness:
  "\<exists>p s' m'. pushAncestor 0 7 1 None (Some (fst (newAncestorStore (empty_mem zeroAncestor))))
       (snd (newAncestorStore (empty_mem zeroAncestor))) = Ret (p, s', m') \<and>
     hasCycle m' p 7 1 = Some True \<and> hasCycle m' p 8 1 = Some False"
proof -
  obtain s m where n: "newAncestorStore (empty_mem zeroAncestor) = (s, m)" by fastforce
  show ?thesis
    using pushAncestor_hasCycle [OF newAncestorStore_ok [OF n], of None "[]" 0 7 1]
    unfolding n by fastforce
qed

end
