(* ===== verification/Walkman.thy ===== *)
theory Walkman
  imports Result_Arena Readdir Ancestors
begin

text \<open>
  \<open>walkman.go\<close>: the walker's state and its operations, as explicit state passing. The state
  record holds the configuration, the workers, the shared ancestor store and the four heaps
  the program allocates from (strings, entries, errors, ancestor links). A task (\<open>visit\<close>,
  \<open>visitSym\<close>) takes a work item and returns what it sends on the result channel, what it
  spawns, and the new state; all its returns are \<open>return nil\<close>, so no error is carried.

  Parameters, as \<open>env\<close>: the kernel (\<open>openat\<close>, \<open>getdents64\<close>), \<open>stat\<close>, and the capacity
  the Go runtime picks when a slice grows. Scratch memory whose contents are never read
  again (\<open>spawnBuf\<close>, \<open>entryScratch\<close>) is kept as a list, so its capacity is not modelled.
  The pool is outside the repository: a walk is a sequence of task runs (see \<open>Walk_Run\<close>),
  and \<open>spawn\<close> takes over the items it is passed by value.
\<close>

section \<open>State\<close>

record workerState =
  ws_buf :: buffer
  ws_results :: resultArena
  ws_spawnBuf :: "(span, ptr option) walkItem list"
  ws_entryScratch :: "sEntry list"
  ws_paths :: string_store

record walkman =
  wm_conf :: walkConf
  wm_workers :: "workerState list"
  wm_ancestors :: "generic_store option"
  h_str :: "byte mem"
  h_ent :: "sEntry mem"
  h_err :: "sDirErr mem"
  h_anc :: "ancestorEntry mem"

type_synonym item = "(span, ptr option) walkItem"

record env = kernel +
  k_stat :: "byte list \<Rightarrow> errno + FileInfo"
  rt_grow :: "nat \<Rightarrow> nat \<Rightarrow> nat"

abbreviation kernel_of :: "env \<Rightarrow> kernel" where
  "kernel_of E \<equiv> kernel.truncate E"

definition EINVAL :: errno where "EINVAL = 22"

text \<open>\<open>os.Stat\<close> of a Go string: the standard library refuses a path with a NUL byte.\<close>

definition os_Stat :: "env \<Rightarrow> gostring \<Rightarrow> errno + FileInfo" where
  "os_Stat E name = (if 0 \<in> set name then Inl EINVAL else k_stat E name)"

section \<open>Construction\<close>

definition zeroItem :: item where
  "zeroItem = \<lparr>path = zeroString, depth = 0, ancestor = None\<rparr>"

definition add_worker :: "walkman \<Rightarrow> walkman" where
  "add_worker st =
     (case newResultArena 0 (h_ent st) (h_err st) of
        (ra, me, md) \<Rightarrow>
          (case NewStringStore (h_str st) of
             (ss, ms) \<Rightarrow>
               st\<lparr>wm_workers := wm_workers st @
                    [\<lparr>ws_buf = (\<lambda>_. 0), ws_results = ra, ws_spawnBuf = replicate 8 zeroItem,
                      ws_entryScratch = [], ws_paths = ss\<rparr>],
                  h_ent := me, h_err := md, h_str := ms\<rparr>))"

text \<open>
  The size of a \<open>workerState\<close>: the getdents buffer, the result arena (a pointer and a slice),
  two scratch slices and a pointer. \<open>make([]workerState, pc.PoolSize)\<close> panics when that many do
  not fit.
\<close>

definition workerStateSize :: int where
  "workerStateSize = int getdentsBufSize + (8 + 24) + 24 + 24 + 8"

definition pool_fits :: "PoolConfig \<Rightarrow> bool" where
  "pool_fits pc \<longleftrightarrow> make_fits workerStateSize (PoolSize pc)"

lemma pool_fits_iff: "pool_fits pc \<longleftrightarrow> 0 \<le> PoolSize pc \<and> PoolSize pc \<le> 2146042823"
  by (auto simp: pool_fits_def make_fits_def workerStateSize_def getdentsBufSize_def maxAlloc_def)

definition NewWalkmanWithConfig ::
  "bool \<Rightarrow> u32 \<Rightarrow> gostring list \<Rightarrow> PoolConfig \<Rightarrow> walkman outcome" where
  "NewWalkmanWithConfig follow maxDep skipList pc =
     (let skips = fold (\<lambda>v s. insert v s) skipList {};
          w = \<lparr>wm_conf = \<lparr>followLinks = follow, maxDepth = maxDep, skipSet = skips\<rparr>,
               wm_workers = [], wm_ancestors = None, h_str = empty_mem 0,
               h_ent = empty_mem zeroEntry, h_err = empty_mem zeroDirErr,
               h_anc = empty_mem zeroAncestor\<rparr>;
          w = (if followLinks (wm_conf w) then
                 (case newAncestorStore (h_anc w) of
                    (s, m) \<Rightarrow> w\<lparr>wm_ancestors := Some s, h_anc := m\<rparr>)
               else w)
      in if \<not> pool_fits pc then Panic MakeSliceLen
         else Ret ((add_worker ^^ nat (PoolSize pc)) w))"

definition NewWalkman :: "int \<Rightarrow> bool \<Rightarrow> u32 \<Rightarrow> gostring list \<Rightarrow> walkman outcome" where
  "NewWalkman gomaxprocs follow maxDep skipList =
     NewWalkmanWithConfig follow maxDep skipList (DefaultPoolConfig gomaxprocs)"

section \<open>Reading one directory\<close>

abbreviation worker_of :: "walkman \<Rightarrow> nat \<Rightarrow> workerState" where
  "worker_of st i \<equiv> wm_workers st ! i"

definition set_worker :: "nat \<Rightarrow> workerState \<Rightarrow> walkman \<Rightarrow> walkman" where
  "set_worker i wk st = st\<lparr>wm_workers := (wm_workers st)[i := wk]\<rparr>"

text \<open>The closure \<open>readEntries\<close> passes to \<open>readDirRaw\<close>, with the variables it captures.\<close>

type_synonym scan = "sEntry list \<times> bool \<times> string_store \<times> byte mem"

definition on_entry :: "span \<Rightarrow> scan callback" where
  "on_entry dir name dType inode =
     (\<lambda>(scratch, sawLink, ss, m).
        case StoreBytes name ss m of
          (s, ss, m) \<Rightarrow>
            Ret (None, scratch @ [\<lparr>parentDir = dir, entName = s, ino = inode, etyp = dType\<rparr>],
                 sawLink \<or> dType = dtLnk, ss, m))"

definition readEntries ::
  "env \<Rightarrow> nat \<Rightarrow> item \<Rightarrow> walkman \<Rightarrow> (sEntry list \<times> bool \<times> err option \<times> walkman) outcome" where
  "readEntries E i item st =
     (let wk = worker_of st i in
      obind (readDirRaw (kernel_of E) (h_str st) (path item) (skipSet (wm_conf st))
               (on_entry (path item)) (ws_buf wk) ([], False, ws_paths wk, h_str st))
        (\<lambda>(err, buf, scratch, sawLink, ss, m).
           Ret (scratch, sawLink, err,
                set_worker i (wk\<lparr>ws_buf := buf, ws_entryScratch := scratch, ws_paths := ss\<rparr>)
                  (st\<lparr>h_str := m\<rparr>))))"

section \<open>Operations of a worker on its own arenas\<close>

definition store_path_z :: "nat \<Rightarrow> span \<Rightarrow> span \<Rightarrow> walkman \<Rightarrow> (span \<times> walkman) outcome" where
  "store_path_z i parent child st =
     obind (StorePathZ parent child (ws_paths (worker_of st i)) (h_str st)) (\<lambda>(s, ss, m).
       Ret (s, set_worker i ((worker_of st i)\<lparr>ws_paths := ss\<rparr>) (st\<lparr>h_str := m\<rparr>)))"

definition store_entries :: "nat \<Rightarrow> sEntry list \<Rightarrow> walkman \<Rightarrow> span option \<times> walkman" where
  "store_entries i items st =
     (case ra_storeEntries items (ws_results (worker_of st i)) (h_ent st) of
        (r, ra, m) \<Rightarrow>
          (r, set_worker i ((worker_of st i)\<lparr>ws_results := ra\<rparr>) (st\<lparr>h_ent := m\<rparr>)))"

definition store_dir_err :: "env \<Rightarrow> nat \<Rightarrow> sDirErr \<Rightarrow> walkman \<Rightarrow> walkman" where
  "store_dir_err E i d st =
     (case storeDirErr (rt_grow E) d (ws_results (worker_of st i)) (h_err st) of
        (ra, m) \<Rightarrow> set_worker i ((worker_of st i)\<lparr>ws_results := ra\<rparr>) (st\<lparr>h_err := m\<rparr>))"

definition push_ancestor ::
  "nat \<Rightarrow> u64 \<Rightarrow> u64 \<Rightarrow> ptr option \<Rightarrow> walkman \<Rightarrow> (ptr option \<times> walkman) outcome" where
  "push_ancestor i sIno sDev parent st =
     obind (pushAncestor i sIno sDev parent (wm_ancestors st) (h_anc st)) (\<lambda>(p, s, m).
       Ret (p, st\<lparr>wm_ancestors := s, h_anc := m\<rparr>))"

section \<open>The plain task\<close>

definition at_max_depth :: "walkman \<Rightarrow> item \<Rightarrow> bool" where
  "at_max_depth st item \<longleftrightarrow>
     maxDepth (wm_conf st) \<noteq> 0 \<and> depth item + 1 > maxDepth (wm_conf st)"

text \<open>The batch of a directory that could not be read.\<close>

definition failed_batch :: "item \<Rightarrow> err \<Rightarrow> walkman \<Rightarrow> DirBatch \<times> walkman" where
  "failed_batch item e st =
     (case lit_err \<lparr>errName = path item, errErr = e\<rparr> (h_err st) of
        (s, m) \<Rightarrow> (\<lparr>Dir = path item, Entries = None, Errs = Some s\<rparr>, st\<lparr>h_err := m\<rparr>))"

text \<open>\<open>visit\<close> up to the send; the second component is \<open>None\<close> when the task ends there.\<close>

definition visit_read ::
  "env \<Rightarrow> nat \<Rightarrow> item \<Rightarrow> walkman \<Rightarrow> (DirBatch \<times> span option option \<times> walkman) outcome" where
  "visit_read E i item st =
     obind (readEntries E i item st) (\<lambda>(scratch, _, err, st).
       case err of
         Some e \<Rightarrow> (case failed_batch item e st of (b, st) \<Rightarrow> Ret (b, None, st))
       | None \<Rightarrow>
           (case store_entries i scratch st of
              (entries, st) \<Rightarrow>
                Ret (\<lparr>Dir = path item, Entries = entries, Errs = None\<rparr>, Some entries, st)))"

text \<open>The loop over \<open>entries\<close>, which are read from the arena at each index.\<close>

fun spawn_dirs :: "nat \<Rightarrow> item \<Rightarrow> span \<Rightarrow> nat list \<Rightarrow> walkman \<Rightarrow> (item list \<times> walkman) outcome" where
  "spawn_dirs i item ents [] st = Ret ([], st)"
| "spawn_dirs i item ents (k # ks) st =
     (let e = mcell (h_ent st) (sp_blk ents) (sp_off ents + k) in
      if IsDir e then
        obind (store_path_z i (path item) (entName e) st) (\<lambda>(p, st).
        obind (spawn_dirs i item ents ks st) (\<lambda>(items, st).
          Ret (\<lparr>path = p, depth = depth item + 1, ancestor = None\<rparr> # items, st)))
      else spawn_dirs i item ents ks st)"

definition visit_spawn ::
  "nat \<Rightarrow> item \<Rightarrow> span option \<Rightarrow> walkman \<Rightarrow> (item list \<times> walkman) outcome" where
  "visit_spawn i item entries st =
     (if at_max_depth st item then Ret ([], st)
      else
        (case entries of
           None \<Rightarrow> Ret ([], st)
         | Some ents \<Rightarrow> spawn_dirs i item ents [0..<sp_len ents] st))"

text \<open>
  \<open>con\<close> is what the consumer does to the memory of the batch it received between the send and
  the loop; \<open>visit\<close> itself is the case of a consumer that only reads.
\<close>

definition visit_with ::
  "(sEntry mem \<Rightarrow> sEntry mem) \<Rightarrow> env \<Rightarrow> nat \<Rightarrow> item \<Rightarrow> walkman \<Rightarrow>
     (DirBatch \<times> item list \<times> walkman) outcome" where
  "visit_with con E i item st =
     (if i < length (wm_workers st) then
        obind (visit_read E i item st) (\<lambda>(batch, more, st).
          let st = st\<lparr>h_ent := con (h_ent st)\<rparr> in
          case more of
            None \<Rightarrow> Ret (batch, [], st)
          | Some entries \<Rightarrow>
              obind (visit_spawn i item entries st) (\<lambda>(items, st). Ret (batch, items, st)))
      else Panic IndexOutOfRange)"

definition visit :: "env \<Rightarrow> nat \<Rightarrow> item \<Rightarrow> walkman \<Rightarrow> (DirBatch \<times> item list \<times> walkman) outcome" where
  "visit E i item st = visit_with id E i item st"

section \<open>The symlink-following task\<close>

text \<open>
  One pass of the loop body for entry \<open>e\<close>: the entry to keep, if any, the item to spawn, if
  any, and the state. \<open>item.ancestor.dev\<close> of a nil ancestor is a nil dereference.
\<close>

definition sym_link ::
  "env \<Rightarrow> nat \<Rightarrow> item \<Rightarrow> bool \<Rightarrow> sEntry \<Rightarrow> walkman \<Rightarrow>
     (sEntry option \<times> item option \<times> walkman) outcome" where
  "sym_link E i item atMax e st =
     obind (store_path_z i (path item) (entName e) st) (\<lambda>(childPath, st).
       case os_Stat E (mem_read (h_str st) childPath) of
         Inl _ \<Rightarrow>
           Ret (None, None, store_dir_err E i \<lparr>errName = entName e, errErr = ErrDanglingSymlink\<rparr> st)
       | Inr info \<Rightarrow>
           (case fi_Sys info of
              None \<Rightarrow>
                Ret (Some e, None,
                     store_dir_err E i \<lparr>errName = entName e, errErr = ErrNoDevInoInfo\<rparr> st)
            | Some (sIno, sDev) \<Rightarrow>
                if \<not> mode_IsDir (fi_Mode info) then
                  Ret (Some (e\<lparr>etyp := dTypeFromInfo info\<rparr>), None, st)
                else
                  (case hasCycle (h_anc st) (ancestor item) sIno sDev of
                     None \<Rightarrow> Diverge
                   | Some True \<Rightarrow>
                       Ret (None, None,
                            store_dir_err E i \<lparr>errName = entName e, errErr = ErrSymlinkCycle\<rparr> st)
                   | Some False \<Rightarrow>
                       if atMax then Ret (Some (e\<lparr>etyp := dtDir\<rparr>), None, st)
                       else
                         obind (push_ancestor i sIno sDev (ancestor item) st) (\<lambda>(a, st).
                           Ret (Some (e\<lparr>etyp := dtDir\<rparr>),
                                Some \<lparr>path = childPath, depth = depth item + 1, ancestor = a\<rparr>,
                                st)))))"

definition sym_plain ::
  "nat \<Rightarrow> item \<Rightarrow> bool \<Rightarrow> sEntry \<Rightarrow> walkman \<Rightarrow>
     (sEntry option \<times> item option \<times> walkman) outcome" where
  "sym_plain i item atMax e st =
     (if etyp e = dtDir \<and> \<not> atMax then
        obind (store_path_z i (path item) (entName e) st) (\<lambda>(p, st).
          case ancestor item of
            None \<Rightarrow> Panic NilDeref
          | Some a \<Rightarrow>
              obind (push_ancestor i (ino e) (an_dev (deref (h_anc st) a)) (ancestor item) st)
                (\<lambda>(a', st).
                  Ret (Some e, Some \<lparr>path = p, depth = depth item + 1, ancestor = a'\<rparr>, st)))
      else Ret (Some e, None, st))"

definition sym_step ::
  "env \<Rightarrow> nat \<Rightarrow> item \<Rightarrow> bool \<Rightarrow> bool \<Rightarrow> sEntry \<Rightarrow> walkman \<Rightarrow>
     (sEntry option \<times> item option \<times> walkman) outcome" where
  "sym_step E i item sawLink atMax e st =
     (if sawLink \<and> etyp e = dtLnk then sym_link E i item atMax e st
      else sym_plain i item atMax e st)"

text \<open>The in-place compaction loop: \<open>k\<close> is the read index, \<open>keep\<close> the write index.\<close>

function sym_loop ::
  "env \<Rightarrow> nat \<Rightarrow> item \<Rightarrow> bool \<Rightarrow> bool \<Rightarrow> nat \<Rightarrow> nat \<Rightarrow> sEntry list \<Rightarrow> item list \<Rightarrow> walkman \<Rightarrow>
     (sEntry list \<times> nat \<times> item list \<times> walkman) outcome" where
  "sym_loop E i item sawLink atMax k keep scratch spawnBuf st =
     (if k < length scratch then
        obind (sym_step E i item sawLink atMax (scratch ! k) st) (\<lambda>(kept, child, st).
          let spawnBuf = (case child of None \<Rightarrow> spawnBuf | Some c \<Rightarrow> spawnBuf @ [c]) in
          case kept of
            None \<Rightarrow> sym_loop E i item sawLink atMax (Suc k) keep scratch spawnBuf st
          | Some e \<Rightarrow>
              sym_loop E i item sawLink atMax (Suc k) (Suc keep) (scratch[keep := e]) spawnBuf st)
      else Ret (scratch, keep, spawnBuf, st))"
  by pat_completeness auto
termination
  by (relation "measure (\<lambda>(E, i, item, sawLink, atMax, k, keep, scratch, spawnBuf, st).
    length scratch - k)") auto

declare sym_loop.simps [simp del]

definition visitSym :: "env \<Rightarrow> nat \<Rightarrow> item \<Rightarrow> walkman \<Rightarrow> (DirBatch \<times> item list \<times> walkman) outcome" where
  "visitSym E i item st =
     (if i < length (wm_workers st) then
        obind (readEntries E i item st) (\<lambda>(scratch, sawLink, err, st).
          case err of
            Some e \<Rightarrow> (case failed_batch item e st of (b, st) \<Rightarrow> Ret (b, [], st))
          | None \<Rightarrow>
              let errsOff = getDirErrMark (ws_results (worker_of st i));
                  atMaxDepth = at_max_depth st item
              in obind (sym_loop E i item sawLink atMaxDepth 0 0 scratch [] st)
                   (\<lambda>(scratch, keep, spawnBuf, st).
                      let scratch = take keep scratch in
                      case store_entries i scratch st of
                        (entries, st) \<Rightarrow>
                          obind (sliceDirErr errsOff (ws_results (worker_of st i))) (\<lambda>errs.
                            Ret (\<lparr>Dir = path item, Entries = entries, Errs = Some errs\<rparr>,
                                 spawnBuf, st))))
      else Panic IndexOutOfRange)"

section \<open>The walk\<close>

text \<open>The task the pool is bound to at construction.\<close>

definition execute :: "env \<Rightarrow> nat \<Rightarrow> item \<Rightarrow> walkman \<Rightarrow> (DirBatch \<times> item list \<times> walkman) outcome" where
  "execute E i item st =
     (if followLinks (wm_conf st) then visitSym E i item st else visit E i item st)"

text \<open>\<open>Walk\<close> up to \<open>Submit\<close>: the first item, with the root's identity as its chain.\<close>

definition Walk :: "env \<Rightarrow> gostring \<Rightarrow> walkman \<Rightarrow> (item \<times> walkman) outcome" where
  "Walk E root st =
     (let root = Clean root in
      case NewStringZ root (h_str st) of
        (p, m) \<Rightarrow>
          let item = \<lparr>path = p, depth = 1, ancestor = None\<rparr>;
              st = st\<lparr>h_str := m\<rparr>
          in if followLinks (wm_conf st) then
               (case os_Stat E root of
                  Inl _ \<Rightarrow> Ret (item, st)
                | Inr info \<Rightarrow>
                    (case fi_Sys info of
                       None \<Rightarrow> Ret (item, st)
                     | Some (sIno, sDev) \<Rightarrow>
                         obind (push_ancestor 0 sIno sDev None st) (\<lambda>(a, st).
                           Ret (item\<lparr>ancestor := a\<rparr>, st))))
             else Ret (item, st))"

lemmas [model_defs] = EINVAL_def os_Stat_def zeroItem_def add_worker_def NewWalkmanWithConfig_def
  NewWalkman_def set_worker_def on_entry_def readEntries_def store_path_z_def store_entries_def
  store_dir_err_def push_ancestor_def at_max_depth_def failed_batch_def visit_read_def
  visit_spawn_def visit_with_def visit_def sym_link_def sym_plain_def sym_step_def visitSym_def
  execute_def Walk_def

end
