(* ===== verification/Walk_Spec.thy ===== *)
theory Walk_Spec
  imports Walkman
begin

text \<open>
  What the tasks promise, without heaps, arenas, buffers and system calls: items, batches
  and entries over byte strings, the ancestor chain as the list of identities, and the file
  system as two functions, the listing of a directory and \<open>stat\<close>. \<open>spec_visit\<close> and
  \<open>spec_visitSym\<close> say what one task delivers and spawns; \<open>Walk_Refine\<close> shows that the
  code's tasks do that.
\<close>

section \<open>The file system, items and batches\<close>

type_synonym identity = "u64 \<times> u64"
type_synonym aitem = "(gostring, identity list) walkItem"
type_synonym aentry = "gostring Entry"

text \<open>A listing is the records delivered and the errno it ended with, if any.\<close>

record fsview =
  fs_list :: "byte list \<Rightarrow> dirent list \<times> errno option"
  fs_stat :: "gostring \<Rightarrow> errno + FileInfo"

definition view_ok :: "env \<Rightarrow> fsview \<Rightarrow> bool" where
  "view_ok E F \<longleftrightarrow>
     (\<forall>p. dir_reads (kernel_of E) p (fst (fs_list F p)) (snd (fs_list F p))) \<and>
     fs_stat F = os_Stat E"

text \<open>What Linux guarantees of a directory entry's name: it is not empty and holds no slash.\<close>

definition names_ok :: "fsview \<Rightarrow> bool" where
  "names_ok F \<longleftrightarrow> (\<forall>p. \<forall>d \<in> set (fst (fs_list F p)). d_name d \<noteq> [] \<and> slash \<notin> set (d_name d))"

record batch =
  b_dir :: gostring
  b_entries :: "aentry list"
  b_errs :: "gostring DirErr list"

section \<open>One directory\<close>

definition listed :: "walkConf \<Rightarrow> gostring \<Rightarrow> dirent list \<Rightarrow> aentry list" where
  "listed c dir ds =
     map (\<lambda>d. \<lparr>parentDir = dir, entName = d_name d, ino = d_ino d, etyp = d_type d\<rparr>)
       (filter (\<lambda>d. d_name d \<notin> dots \<union> skipSet c) ds)"

definition deeper :: "walkConf \<Rightarrow> aitem \<Rightarrow> bool" where
  "deeper c a \<longleftrightarrow> maxDepth c = 0 \<or> depth a + 1 \<le> maxDepth c"

definition failed :: "aitem \<Rightarrow> errno \<Rightarrow> batch" where
  "failed a n =
     \<lparr>b_dir = path a, b_entries = [], b_errs = [\<lparr>errName = path a, errErr = Errno n\<rparr>]\<rparr>"

definition child_of :: "aitem \<Rightarrow> gostring \<Rightarrow> identity list \<Rightarrow> aitem" where
  "child_of a name ids =
     \<lparr>path = path_join (path a) name, depth = depth a + 1, ancestor = ids\<rparr>"

definition spec_visit :: "walkConf \<Rightarrow> fsview \<Rightarrow> aitem \<Rightarrow> batch \<times> aitem list" where
  "spec_visit c F a =
     (case fs_list F (cstr (path a)) of
        (ds, Some n) \<Rightarrow> (failed a n, [])
      | (ds, None) \<Rightarrow>
          let es = listed c (path a) ds
          in (\<lparr>b_dir = path a, b_entries = es, b_errs = []\<rparr>,
              if deeper c a then map (\<lambda>e. child_of a (entName e) []) (filter IsDir es) else []))"

section \<open>One directory, following symlinks\<close>

text \<open>
  What becomes of an entry: the entry the batch shows, the error it causes, the item it
  spawns.
\<close>

type_synonym fate = "aentry option \<times> err option \<times> aitem option"

definition spec_link :: "walkConf \<Rightarrow> fsview \<Rightarrow> aitem \<Rightarrow> aentry \<Rightarrow> fate" where
  "spec_link c F a e =
     (case fs_stat F (path_join (path a) (entName e)) of
        Inl _ \<Rightarrow> (None, Some ErrDanglingSymlink, None)
      | Inr info \<Rightarrow>
          (case fi_Sys info of
             None \<Rightarrow> (Some e, Some ErrNoDevInoInfo, None)
           | Some t \<Rightarrow>
               if \<not> mode_IsDir (fi_Mode info) then (Some (e\<lparr>etyp := dTypeFromInfo info\<rparr>), None, None)
               else if t \<in> set (ancestor a) then (None, Some ErrSymlinkCycle, None)
               else (Some (e\<lparr>etyp := dtDir\<rparr>), None,
                     if deeper c a then Some (child_of a (entName e) (t # ancestor a)) else None)))"

definition spec_entry :: "walkConf \<Rightarrow> fsview \<Rightarrow> aitem \<Rightarrow> aentry \<Rightarrow> fate outcome" where
  "spec_entry c F a e =
     (if etyp e = dtLnk then Ret (spec_link c F a e)
      else if IsDir e \<and> deeper c a then
        (case ancestor a of
           [] \<Rightarrow> Panic NilDeref
         | t # ts \<Rightarrow> Ret (Some e, None, Some (child_of a (entName e) ((ino e, snd t) # t # ts))))
      else Ret (Some e, None, None))"

fun omap :: "('a \<Rightarrow> 'b outcome) \<Rightarrow> 'a list \<Rightarrow> 'b list outcome" where
  "omap f [] = Ret []"
| "omap f (x # xs) = obind (f x) (\<lambda>y. obind (omap f xs) (\<lambda>ys. Ret (y # ys)))"

fun kept :: "(aentry \<times> fate) list \<Rightarrow> aentry list" where
  "kept [] = []"
| "kept ((e, Some e', r) # fs) = e' # kept fs"
| "kept ((e, None, r) # fs) = kept fs"

fun reported :: "(aentry \<times> fate) list \<Rightarrow> gostring DirErr list" where
  "reported [] = []"
| "reported ((e, k, Some x, r) # fs) = \<lparr>errName = entName e, errErr = x\<rparr> # reported fs"
| "reported ((e, k, None, r) # fs) = reported fs"

fun spawned :: "(aentry \<times> fate) list \<Rightarrow> aitem list" where
  "spawned [] = []"
| "spawned ((e, k, x, Some c) # fs) = c # spawned fs"
| "spawned ((e, k, x, None) # fs) = spawned fs"

definition fates :: "walkConf \<Rightarrow> fsview \<Rightarrow> aitem \<Rightarrow> aentry list \<Rightarrow> (aentry \<times> fate) list outcome" where
  "fates c F a es = omap (\<lambda>e. obind (spec_entry c F a e) (\<lambda>f. Ret (e, f))) es"

definition spec_visitSym :: "walkConf \<Rightarrow> fsview \<Rightarrow> aitem \<Rightarrow> (batch \<times> aitem list) outcome" where
  "spec_visitSym c F a =
     (case fs_list F (cstr (path a)) of
        (ds, Some n) \<Rightarrow> Ret (failed a n, [])
      | (ds, None) \<Rightarrow>
          obind (fates c F a (listed c (path a) ds)) (\<lambda>fs.
            Ret (\<lparr>b_dir = path a, b_entries = kept fs, b_errs = reported fs\<rparr>, spawned fs)))"

definition spec_task :: "walkConf \<Rightarrow> fsview \<Rightarrow> aitem \<Rightarrow> (batch \<times> aitem list) outcome" where
  "spec_task c F a =
     (if followLinks c then spec_visitSym c F a else Ret (spec_visit c F a))"

definition spec_root :: "walkConf \<Rightarrow> fsview \<Rightarrow> gostring \<Rightarrow> aitem" where
  "spec_root c F root =
     \<lparr>path = Clean root, depth = 1,
      ancestor =
        (if followLinks c then
           (case fs_stat F (Clean root) of
              Inl _ \<Rightarrow> []
            | Inr info \<Rightarrow> (case fi_Sys info of None \<Rightarrow> [] | Some t \<Rightarrow> [t]))
         else [])\<rparr>"

end
