(* ===== verification/Walk_Refine.thy ===== *)
theory Walk_Refine
  imports Walk_Spec
begin

text \<open>
  The code's tasks implement the specification. \<open>wm_ok\<close> is the invariant of the walker's
  state, \<open>wm_keeps\<close> what every operation leaves alone (every string, entry, error and chain
  anybody holds), and \<open>item_rel\<close>, \<open>ent_rel\<close>, \<open>batch_rel\<close> relate the code's values to the
  specification's.
\<close>

section \<open>The invariant and the relations\<close>

abbreviation str_arenas :: "walkman \<Rightarrow> arena list" where
  "str_arenas st \<equiv> map ss_arena (map ws_paths (wm_workers st))"

abbreviation ent_arenas :: "walkman \<Rightarrow> arena list" where
  "ent_arenas st \<equiv> map ea_arena (map ra_entries (map ws_results (wm_workers st)))"

abbreviation err_arenas :: "walkman \<Rightarrow> arena list" where
  "err_arenas st \<equiv> map err_arena (map ws_results (wm_workers st))"

definition anc_wf :: "walkman \<Rightarrow> bool" where
  "anc_wf st \<longleftrightarrow>
     (case wm_ancestors st of
        None \<Rightarrow> \<not> followLinks (wm_conf st)
      | Some s \<Rightarrow> generic_wf zeroAncestor (s, h_anc st))"

definition wm_ok :: "walkman \<Rightarrow> bool" where
  "wm_ok st \<longleftrightarrow>
     strings_wf (map ws_paths (wm_workers st)) (h_str st) \<and>
     entries_wf (map ra_entries (map ws_results (wm_workers st))) (h_ent st) \<and>
     errs_wf (map ws_results (wm_workers st)) (h_err st) \<and>
     anc_wf st"

definition anc_keeps :: "walkman \<Rightarrow> walkman \<Rightarrow> bool" where
  "anc_keeps st st' \<longleftrightarrow>
     (case wm_ancestors st of
        None \<Rightarrow> wm_ancestors st' = None
      | Some s \<Rightarrow> (\<exists>s'. wm_ancestors st' = Some s' \<and> keeps [gst_arena s] (h_anc st) [gst_arena s'] (h_anc st')))"

definition wm_keeps :: "walkman \<Rightarrow> walkman \<Rightarrow> bool" where
  "wm_keeps st st' \<longleftrightarrow>
     wm_conf st' = wm_conf st \<and> length (wm_workers st') = length (wm_workers st) \<and>
     keeps (str_arenas st) (h_str st) (str_arenas st') (h_str st') \<and>
     keeps (ent_arenas st) (h_ent st) (ent_arenas st') (h_ent st') \<and>
     keeps (err_arenas st) (h_err st) (err_arenas st') (h_err st') \<and>
     anc_keeps st st'"

lemma anc_keeps_refl: "anc_keeps st st"
  by (auto simp: anc_keeps_def split: option.split)

lemma anc_keeps_trans: "anc_keeps a b \<Longrightarrow> anc_keeps b c \<Longrightarrow> anc_keeps a c"
  using keeps_trans by (fastforce simp: anc_keeps_def split: option.splits)

lemma wm_keeps_refl [simp]: "wm_keeps st st"
  by (simp add: wm_keeps_def anc_keeps_refl)

lemma wm_keeps_trans: "wm_keeps a b \<Longrightarrow> wm_keeps b c \<Longrightarrow> wm_keeps a c"
  unfolding wm_keeps_def by (auto elim: keeps_trans anc_keeps_trans)

lemma wm_keepsD:
  assumes "wm_keeps st st'"
  shows "keeps (str_arenas st) (h_str st) (str_arenas st') (h_str st')"
    and "keeps (ent_arenas st) (h_ent st) (ent_arenas st') (h_ent st')"
    and "keeps (err_arenas st) (h_err st) (err_arenas st') (h_err st')"
    and "anc_keeps st st'" and "wm_conf st' = wm_conf st"
    and "length (wm_workers st') = length (wm_workers st)"
  using assms by (simp_all add: wm_keeps_def)

text \<open>Values of the code and what they stand for.\<close>

definition str_rel :: "walkman \<Rightarrow> span \<Rightarrow> gostring \<Rightarrow> bool" where
  "str_rel st s v \<longleftrightarrow> span_ok (str_arenas st) (h_str st) s \<and> mem_read (h_str st) s = v"

definition path_rel :: "walkman \<Rightarrow> span \<Rightarrow> gostring \<Rightarrow> bool" where
  "path_rel st s v \<longleftrightarrow>
     strz_ok (str_arenas st) (h_str st) s \<and> mem_read (h_str st) s = v \<and> v \<noteq> []"

definition ent_rel :: "walkman \<Rightarrow> sEntry \<Rightarrow> aentry \<Rightarrow> bool" where
  "ent_rel st e a \<longleftrightarrow>
     str_rel st (parentDir e) (parentDir a) \<and> str_rel st (entName e) (entName a) \<and>
     ino e = ino a \<and> etyp e = etyp a"

definition err_rel :: "walkman \<Rightarrow> sDirErr \<Rightarrow> gostring DirErr \<Rightarrow> bool" where
  "err_rel st d a \<longleftrightarrow> str_rel st (errName d) (errName a) \<and> errErr d = errErr a"

definition chain_rel :: "walkman \<Rightarrow> ptr option \<Rightarrow> identity list \<Rightarrow> bool" where
  "chain_rel st ref ids \<longleftrightarrow>
     (case wm_ancestors st of
        None \<Rightarrow> ref = None \<and> ids = []
      | Some s \<Rightarrow> chain (s, h_anc st) ref ids)"

definition item_rel :: "walkman \<Rightarrow> item \<Rightarrow> aitem \<Rightarrow> bool" where
  "item_rel st i a \<longleftrightarrow>
     path_rel st (path i) (path a) \<and> depth i = depth a \<and> chain_rel st (ancestor i) (ancestor a)"

definition batch_rel :: "walkman \<Rightarrow> DirBatch \<Rightarrow> batch \<Rightarrow> bool" where
  "batch_rel st b a \<longleftrightarrow>
     str_rel st (Dir b) (b_dir a) \<and>
     opt_ok (ent_arenas st) (h_ent st) (Entries b) \<and>
     list_all2 (ent_rel st) (opt_read (h_ent st) (Entries b)) (b_entries a) \<and>
     (Entries b = None \<longleftrightarrow> b_entries a = []) \<and>
     opt_ok (err_arenas st) (h_err st) (Errs b) \<and>
     list_all2 (err_rel st) (opt_read (h_err st) (Errs b)) (b_errs a)"

text \<open>A batch of the code stands for one batch of the specification.\<close>

lemma ent_rel_unique: "ent_rel st e a \<Longrightarrow> ent_rel st e a' \<Longrightarrow> a = a'"
  by (simp add: ent_rel_def str_rel_def)

lemma err_rel_unique: "err_rel st e a \<Longrightarrow> err_rel st e a' \<Longrightarrow> a = a'"
  by (simp add: err_rel_def str_rel_def)

lemma list_all2_unique:
  assumes "list_all2 P xs ys" and "list_all2 P xs zs" and "\<And>x y z. P x y \<Longrightarrow> P x z \<Longrightarrow> y = z"
  shows "ys = zs"
  using assms by (auto simp: list_all2_conv_all_nth list_eq_iff_nth_eq)

lemma batch_rel_unique: "batch_rel st b a \<Longrightarrow> batch_rel st b a' \<Longrightarrow> a = a'"
  unfolding batch_rel_def str_rel_def
  by (intro batch.equality; elim conjE)
    (auto intro: list_all2_unique ent_rel_unique err_rel_unique)

lemma path_rel_str: "path_rel st s v \<Longrightarrow> str_rel st s v"
  by (auto simp: path_rel_def str_rel_def dest: strz_ok_span_ok)

lemma keeps_str_rel: "wm_keeps st st' \<Longrightarrow> str_rel st s v \<Longrightarrow> str_rel st' s v"
  using keeps_span_ok [OF wm_keepsD(1)] keeps_read [OF wm_keepsD(1)] by (simp add: str_rel_def)

lemma keeps_path_rel: "wm_keeps st st' \<Longrightarrow> path_rel st s v \<Longrightarrow> path_rel st' s v"
  using keeps_strz_ok [OF wm_keepsD(1)] keeps_read [OF wm_keepsD(1) strz_ok_span_ok]
  by (simp add: path_rel_def)

lemma keeps_ent_rel: "wm_keeps st st' \<Longrightarrow> ent_rel st e a \<Longrightarrow> ent_rel st' e a"
  using keeps_str_rel unfolding ent_rel_def by blast

lemma keeps_err_rel: "wm_keeps st st' \<Longrightarrow> err_rel st e a \<Longrightarrow> err_rel st' e a"
  using keeps_str_rel unfolding err_rel_def by blast

lemma keeps_chain_rel: "wm_keeps st st' \<Longrightarrow> chain_rel st r ids \<Longrightarrow> chain_rel st' r ids"
  using keeps_chain by (fastforce simp: wm_keeps_def anc_keeps_def chain_rel_def split: option.splits)

lemma keeps_item_rel: "wm_keeps st st' \<Longrightarrow> item_rel st i a \<Longrightarrow> item_rel st' i a"
  using keeps_path_rel keeps_chain_rel unfolding item_rel_def by blast

lemma keeps_batch_rel:
  assumes "wm_keeps st st'" and "batch_rel st b a"
  shows "batch_rel st' b a"
proof -
  show ?thesis
    using assms(2) keeps_str_rel [OF assms(1)] keeps_ent_rel [OF assms(1)] keeps_err_rel [OF assms(1)]
      keeps_opt [OF wm_keepsD(2) [OF assms(1)]] keeps_opt [OF wm_keepsD(3) [OF assms(1)]]
    by (auto simp: batch_rel_def elim!: list_all2_mono)
qed

lemmas wm_keeps_dest = keeps_str_rel keeps_path_rel keeps_ent_rel keeps_err_rel keeps_chain_rel
  keeps_item_rel keeps_batch_rel

section \<open>Operations on one worker's arenas\<close>

lemma map_update_id: "f y = f (xs ! i) \<Longrightarrow> map f (xs[i := y]) = map f xs"
  by (metis list_update_id map_update)

lemma set_worker_sel [simp]:
  "wm_conf (set_worker i wk st) = wm_conf st" "wm_ancestors (set_worker i wk st) = wm_ancestors st"
  "h_str (set_worker i wk st) = h_str st" "h_ent (set_worker i wk st) = h_ent st"
  "h_err (set_worker i wk st) = h_err st" "h_anc (set_worker i wk st) = h_anc st"
  "wm_workers (set_worker i wk st) = (wm_workers st)[i := wk]"
  by (simp_all add: set_worker_def)

lemma mem_read_eq_Nil: "mem_read m s = [] \<longleftrightarrow> sp_len s = 0"
  by (cases s) auto

text \<open>A step of worker \<open>i\<close> that touches only its strings, or only its results.\<close>

lemma step_strings:
  assumes ok: "wm_ok st" and i: "i < length (wm_workers st)"
    and same: "ws_results wk = ws_results (worker_of st i)"
    and wf: "strings_wf ((map ws_paths (wm_workers st))[i := ws_paths wk]) m"
    and kp: "keeps (str_arenas st) (h_str st) (map ss_arena ((map ws_paths (wm_workers st))[i := ws_paths wk])) m"
  shows "wm_ok (set_worker i wk (st\<lparr>h_str := m\<rparr>))" and "wm_keeps st (set_worker i wk (st\<lparr>h_str := m\<rparr>))"
proof -
  have "map ws_results ((wm_workers st)[i := wk]) = map ws_results (wm_workers st)"
    by (rule map_update_id) (rule same)
  then show "wm_ok (set_worker i wk (st\<lparr>h_str := m\<rparr>))" and "wm_keeps st (set_worker i wk (st\<lparr>h_str := m\<rparr>))"
    using ok wf kp
    by (simp_all add: wm_ok_def wm_keeps_def anc_wf_def anc_keeps_def map_update split: option.splits)
qed

lemma step_entries:
  assumes ok: "wm_ok st" and i: "i < length (wm_workers st)"
    and eq: "store_entries i items st = (r, st')"
  shows "wm_ok st'" and "wm_keeps st st'" and "opt_ok (ent_arenas st') (h_ent st') r"
    and "opt_read (h_ent st') r = items" and "r = None \<longleftrightarrow> items = []"
    and "r = Some s \<Longrightarrow> sp_len s = length items"
    and "ra_errBlk (ws_results (worker_of st' i)) = ra_errBlk (ws_results (worker_of st i))"
    and "ra_errLen (ws_results (worker_of st' i)) = ra_errLen (ws_results (worker_of st i))"
    and "h_err st' = h_err st" and "err_arenas st' = err_arenas st"
proof -
  let ?wk = "worker_of st i"
  obtain ea m where run: "storeEntries items (ra_entries (ws_results ?wk)) (h_ent st) = (r, ea, m)"
    and st': "st' = set_worker i (?wk\<lparr>ws_results := (ws_results ?wk)\<lparr>ra_entries := ea\<rparr>\<rparr>) (st\<lparr>h_ent := m\<rparr>)"
    using eq by (auto simp: store_entries_def ra_storeEntries_def split: prod.splits)
  let ?eas = "map ra_entries (map ws_results (wm_workers st))"
  have wf: "entries_wf ?eas (h_ent st)" using ok by (simp add: wm_ok_def)
  have run': "storeEntries items (?eas ! i) (h_ent st) = (r, ea, m)" and i': "i < length ?eas"
    using run i by simp_all
  note s = storeEntries_ok [OF wf i' run']
  have as: "map ra_entries (map ws_results (wm_workers st')) = ?eas[i := ea]"
    by (simp add: st' map_update)
  have er: "err_arenas st' = err_arenas st"
    using i by (auto simp: st' map_update intro!: list_update_same_conv [THEN iffD2])
  have ps: "map ws_paths (wm_workers st') = map ws_paths (wm_workers st)"
    by (simp add: st') (rule map_update_id, simp)
  show "wm_ok st'"
    using ok s(1) er ps as unfolding wm_ok_def errs_wf_def anc_wf_def by (simp add: st' split: option.splits)
  show "wm_keeps st st'"
    using s(2) unfolding wm_keeps_def as er ps by (simp add: st' anc_keeps_def split: option.splits)
  show "opt_ok (ent_arenas st') (h_ent st') r" using s(3) unfolding as by (simp add: st')
  show "opt_read (h_ent st') r = items" "r = None \<longleftrightarrow> items = []" "r = Some s \<Longrightarrow> sp_len s = length items"
    using s(4-6) by (simp_all add: st')
  show "ra_errBlk (ws_results (worker_of st' i)) = ra_errBlk (ws_results ?wk)"
    "ra_errLen (ws_results (worker_of st' i)) = ra_errLen (ws_results ?wk)" "h_err st' = h_err st"
    using i by (simp_all add: st')
  show "err_arenas st' = err_arenas st" by (rule er)
qed

lemma step_errs:
  assumes ok: "wm_ok st" and i: "i < length (wm_workers st)"
  shows "wm_ok (store_dir_err E i d st)" and "wm_keeps st (store_dir_err E i d st)"
    and "mem_read (h_err (store_dir_err E i d st)) (err_span (ws_results (worker_of (store_dir_err E i d st) i))) =
         mem_read (h_err st) (err_span (ws_results (worker_of st i))) @ [d]"
proof -
  let ?wk = "worker_of st i" and ?ras = "map ws_results (wm_workers st)"
  obtain ra m where run: "storeDirErr (rt_grow E) d (?ras ! i) (h_err st) = (ra, m)"
    by fastforce
  then have st': "store_dir_err E i d st = set_worker i (?wk\<lparr>ws_results := ra\<rparr>) (st\<lparr>h_err := m\<rparr>)"
    using i by (simp add: store_dir_err_def)
  have wf: "errs_wf ?ras (h_err st)" and i': "i < length ?ras" using ok i by (simp_all add: wm_ok_def)
  note s = storeDirErr_step(1) [OF wf i' run, unfolded err_step_def]
  have rs: "map ws_results (wm_workers (store_dir_err E i d st)) = ?ras[i := ra]"
    by (simp add: st' map_update)
  have en: "map ra_entries (?ras[i := ra]) = map ra_entries ?ras"
    using s by (intro map_update_id) simp
  have ps: "map ws_paths (wm_workers (store_dir_err E i d st)) = map ws_paths (wm_workers st)"
    by (simp add: st') (rule map_update_id, simp)
  show "wm_ok (store_dir_err E i d st)"
    using ok s unfolding wm_ok_def rs en ps anc_wf_def by (simp add: st' split: option.splits)
  show "wm_keeps st (store_dir_err E i d st)"
    using s unfolding wm_keeps_def rs en ps by (simp add: st' anc_keeps_def split: option.splits)
  show "mem_read (h_err (store_dir_err E i d st)) (err_span (ws_results (worker_of (store_dir_err E i d st) i))) =
         mem_read (h_err st) (err_span (ws_results (worker_of st i))) @ [d]"
    using s i by (simp add: st')
qed

lemma step_failed:
  assumes ok: "wm_ok st" and eq: "failed_batch it e st = (b, st')" and p: "path_rel st (path it) v"
  shows "wm_ok st'" and "wm_keeps st st'"
    and "batch_rel st' b \<lparr>b_dir = v, b_entries = [], b_errs = [\<lparr>errName = v, errErr = e\<rparr>]\<rparr>"
proof -
  let ?ras = "map ws_results (wm_workers st)"
  obtain s m where run: "lit_err \<lparr>errName = path it, errErr = e\<rparr> (h_err st) = (s, m)"
    and st': "st' = st\<lparr>h_err := m\<rparr>" and b: "b = \<lparr>Dir = path it, Entries = None, Errs = Some s\<rparr>"
    using eq by (auto simp: failed_batch_def split: prod.splits)
  have wf: "errs_wf ?ras (h_err st)" using ok by (simp add: wm_ok_def)
  note l = lit_err_ok [OF wf run]
  show "wm_ok st'" using ok l(1) by (simp add: wm_ok_def st' anc_wf_def split: option.splits)
  show kp: "wm_keeps st st'"
    using l(2) by (simp add: wm_keeps_def st' anc_keeps_def split: option.splits)
  have "str_rel st' (path it) v" using keeps_path_rel [OF kp p] by (rule path_rel_str)
  then show "batch_rel st' b \<lparr>b_dir = v, b_entries = [], b_errs = [\<lparr>errName = v, errErr = e\<rparr>]\<rparr>"
    using l(3,4) by (simp add: batch_rel_def b st' err_rel_def)
qed

lemma step_path:
  assumes ok: "wm_ok st" and i: "i < length (wm_workers st)"
    and p: "path_rel st p vp" and c: "str_rel st c vc"
  shows "\<exists>s st'. store_path_z i p c st = Ret (s, st') \<and> wm_ok st' \<and> wm_keeps st st' \<and>
           path_rel st' s (path_join vp vc) \<and> map ws_results (wm_workers st') = map ws_results (wm_workers st) \<and>
           h_ent st' = h_ent st \<and> h_err st' = h_err st"
proof -
  let ?wk = "worker_of st i" and ?sss = "map ws_paths (wm_workers st)"
  have wf: "strings_wf ?sss (h_str st)" and i': "i < length ?sss" using ok i by (simp_all add: wm_ok_def)
  have sp: "span_ok (map ss_arena ?sss) (h_str st) p" and sc: "span_ok (map ss_arena ?sss) (h_str st) c"
    and ne: "sp_len p \<noteq> 0" and rd: "mem_read (h_str st) p = vp" "mem_read (h_str st) c = vc"
    using p c by (auto simp: path_rel_def str_rel_def mem_read_eq_Nil dest: strz_ok_span_ok)
  obtain s ss m where put: "string_put 1 (path_join vp vc) (?sss ! i) (h_str st) = (s, ss, m)"
    by (metis prod_cases3)
  then have run: "StorePathZ p c (ws_paths ?wk) (h_str st) = Ret (s, ss, m)"
    using StorePath_put(2) [OF wf i' sp sc ne] rd i by simp
  note o = string_put_ok [OF wf i' put]
  define st' where "st' = set_worker i (?wk\<lparr>ws_paths := ss\<rparr>) (st\<lparr>h_str := m\<rparr>)"
  have st: "wm_ok st'" "wm_keeps st st'"
    using step_strings [OF ok i, of "?wk\<lparr>ws_paths := ss\<rparr>" m] o(1,2) by (simp_all add: st'_def)
  have "path_join vp vc \<noteq> []" using p by (simp add: path_join_def path_rel_def)
  then have "path_rel st' s (path_join vp vc)"
    using o(4,6) by (simp add: path_rel_def st'_def map_update)
  moreover have "map ws_results (wm_workers st') = map ws_results (wm_workers st)"
    by (simp add: st'_def) (rule map_update_id, simp)
  ultimately show ?thesis
    using st run by (simp add: store_path_z_def st'_def)
qed

lemma step_push:
  assumes ok: "wm_ok st" and c: "chain_rel st parent ids" and s: "wm_ancestors st = Some s"
  shows "\<exists>a st'. push_ancestor i sIno sDev parent st = Ret (a, st') \<and> wm_ok st' \<and> wm_keeps st st' \<and>
           chain_rel st' a ((sIno, sDev) # ids) \<and> wm_workers st' = wm_workers st \<and> h_err st' = h_err st"
proof -
  have wf: "generic_wf zeroAncestor (s, h_anc st)" and ch: "chain (s, h_anc st) parent ids"
    using ok c s by (simp_all add: wm_ok_def anc_wf_def chain_rel_def)
  obtain p s' m' where "pushAncestor i sIno sDev parent (Some s) (h_anc st) = Ret (Some p, Some s', m')"
    and "generic_wf zeroAncestor (s', m')" and "keeps [gst_arena s] (h_anc st) [gst_arena s'] m'"
    and "chain (s', m') (Some p) ((sIno, sDev) # ids)"
    using pushAncestor_ok [OF wf ch] by blast
  then show ?thesis
    using ok s by (auto simp: push_ancestor_def wm_ok_def wm_keeps_def anc_wf_def anc_keeps_def
        chain_rel_def simp del: chain.simps)
qed

section \<open>Reading the directory\<close>

definition seen_rel :: "arena list \<Rightarrow> byte mem \<Rightarrow> span \<Rightarrow> sEntry \<Rightarrow> dirent \<Rightarrow> bool" where
  "seen_rel as m dir e d \<longleftrightarrow>
     parentDir e = dir \<and> span_ok as m (entName e) \<and> mem_read m (entName e) = d_name d \<and>
     ino e = d_ino d \<and> etyp e = d_type d"

lemma keeps_seen_rel: "keeps as m as' m' \<Longrightarrow> seen_rel as m dir e d \<Longrightarrow> seen_rel as' m' dir e d"
  by (simp add: seen_rel_def keeps_span_ok keeps_read)

text \<open>The callback stores every name it is given and appends one entry per record.\<close>

lemma feed_on_entry:
  assumes "strings_wf sss m" and "i < length sss"
  shows "\<exists>scr ss' m'. feed skip (on_entry dir) ds (scratch, saw, sss ! i, m) =
             Ret (None, scratch @ scr, saw \<or> (\<exists>e \<in> set scr. etyp e = dtLnk), ss', m') \<and>
           strings_wf (sss[i := ss']) m' \<and>
           keeps (map ss_arena sss) m (map ss_arena (sss[i := ss'])) m' \<and>
           list_all2 (seen_rel (map ss_arena (sss[i := ss'])) m' dir) scr
             (filter (\<lambda>d. d_name d \<notin> dots \<union> skip) ds)"
  using assms
proof (induction ds arbitrary: sss m scratch saw)
  case Nil
  then show ?case by simp
next
  case (Cons d ds)
  show ?case
  proof (cases "d_name d \<in> dots \<union> skip")
    case True
    then show ?thesis using Cons.IH [OF Cons.prems, of scratch saw] by auto
  next
    case False
    obtain s ss1 m1 where put: "string_put 0 (d_name d) (sss ! i) m = (s, ss1, m1)"
      by (metis prod_cases3)
    note o = string_put_ok [OF Cons.prems put]
    let ?e = "\<lparr>parentDir = dir, entName = s, ino = d_ino d, etyp = d_type d\<rparr>"
    let ?sss = "sss[i := ss1]"
    have i: "i < length ?sss" using Cons.prems(2) by simp
    obtain scr ss' m' where rest: "feed skip (on_entry dir) ds (scratch @ [?e], saw \<or> d_type d = dtLnk, ?sss ! i, m1) =
             Ret (None, (scratch @ [?e]) @ scr, (saw \<or> d_type d = dtLnk) \<or> (\<exists>e \<in> set scr. etyp e = dtLnk), ss', m')"
      and wf: "strings_wf (?sss[i := ss']) m'"
      and kp: "keeps (map ss_arena ?sss) m1 (map ss_arena (?sss[i := ss'])) m'"
      and all: "list_all2 (seen_rel (map ss_arena (?sss[i := ss'])) m' dir) scr
             (filter (\<lambda>d. d_name d \<notin> dots \<union> skip) ds)"
      using Cons.IH [OF o(1) i, of "scratch @ [?e]" "saw \<or> d_type d = dtLnk"] by blast
    have "seen_rel (map ss_arena ?sss) m1 dir ?e d"
      using o(3,4) by (simp add: seen_rel_def)
    then have "seen_rel (map ss_arena (?sss[i := ss'])) m' dir ?e d" by (rule keeps_seen_rel [OF kp])
    moreover have "on_entry dir (d_name d) (d_type d) (d_ino d) (scratch, saw, sss ! i, m) =
        Ret (None, scratch @ [?e], saw \<or> d_type d = dtLnk, ss1, m1)"
      by (simp add: on_entry_def StoreBytes_string_put put)
    ultimately show ?thesis
      using rest wf keeps_trans [OF o(2) kp] all False Cons.prems(2)
      by (intro exI [of _ "?e # scr"] exI [of _ ss'] exI [of _ m']) auto
  qed
qed

lemma readEntries_ok:
  assumes ok: "wm_ok st" and i: "i < length (wm_workers st)" and it: "item_rel st it a"
    and view: "view_ok E F" and fs: "fs_list F (cstr (path a)) = (ds, e)"
  shows "\<exists>scr st'. readEntries E i it st = Ret (scr, (\<exists>x \<in> set scr. etyp x = dtLnk), map_option Errno e, st') \<and>
           wm_ok st' \<and> wm_keeps st st' \<and> ws_results (worker_of st' i) = ws_results (worker_of st i) \<and>
           list_all2 (ent_rel st') scr (listed (wm_conf st) (path a) ds)"
proof -
  let ?sss = "map ws_paths (wm_workers st)" and ?wk = "worker_of st i"
  let ?skip = "skipSet (wm_conf st)" and ?P = "\<lambda>d. d_name d \<notin> dots \<union> skipSet (wm_conf st)"
  have wf: "strings_wf ?sss (h_str st)" and i': "i < length ?sss" using ok i by (simp_all add: wm_ok_def)
  have p: "path_rel st (path it) (path a)" using it by (simp add: item_rel_def)
  then have c: "cstring_at (h_str st) (path it) = Some (cstr (path a))"
    using strz_ok_cstring_at by (auto simp: path_rel_def)
  have dr: "dir_reads (kernel_of E) (cstr (path a)) ds e"
    using view fs by (auto simp: view_ok_def dest!: spec [of _ "cstr (path a)"])
  obtain scr ss' m' where fd: "feed ?skip (on_entry (path it)) ds ([], False, ?sss ! i, h_str st) =
             Ret (None, scr, (\<exists>x \<in> set scr. etyp x = dtLnk), ss', m')"
    and wf': "strings_wf (?sss[i := ss']) m'"
    and kp: "keeps (map ss_arena ?sss) (h_str st) (map ss_arena (?sss[i := ss'])) m'"
    and all: "list_all2 (seen_rel (map ss_arena (?sss[i := ss'])) m' (path it)) scr (filter ?P ds)"
    using feed_on_entry [OF wf i', of ?skip "path it" ds "[]" False] by auto
  obtain buf' where run: "readDirRaw (kernel_of E) (h_str st) (path it) ?skip (on_entry (path it)) (ws_buf ?wk)
      ([], False, ws_paths ?wk, h_str st) =
      Ret (map_option Errno e, buf', scr, (\<exists>x \<in> set scr. etyp x = dtLnk), ss', m')"
    using readDirRaw_feed [OF c dr, of ?skip "on_entry (path it)" "ws_buf ?wk" "([], False, ws_paths ?wk, h_str st)"]
      fd i by (auto simp: listing_end_def)
  define wk where "wk = ?wk\<lparr>ws_buf := buf', ws_entryScratch := scr, ws_paths := ss'\<rparr>"
  define st' where "st' = set_worker i wk (st\<lparr>h_str := m'\<rparr>)"
  have st: "wm_ok st'" "wm_keeps st st'"
    using step_strings [OF ok i, of wk m'] wf' kp by (simp_all add: st'_def wk_def)
  have "str_rel st' (path it) (path a)" using keeps_path_rel [OF st(2) p] by (rule path_rel_str)
  moreover have "str_arenas st' = map ss_arena (?sss[i := ss'])" by (simp add: st'_def wk_def map_update)
  ultimately have "list_all2 (ent_rel st') scr (listed (wm_conf st) (path a) ds)"
    using all unfolding listed_def list_all2_map2
    by (auto simp: ent_rel_def seen_rel_def str_rel_def st'_def elim!: list_all2_mono)
  then show ?thesis
    using st run i by (auto simp: readEntries_def Let_def st'_def wk_def)
qed

section \<open>The plain task\<close>

lemma ent_rel_IsDir: "ent_rel st e a \<Longrightarrow> IsDir e = IsDir a"
  by (simp add: ent_rel_def IsDir_def)

lemma chain_rel_nil [simp]: "chain_rel st None []"
  by (simp add: chain_rel_def split: option.split)

lemma spawn_dirs_ok:
  assumes "wm_ok st" and "i < length (wm_workers st)" and "path_rel st (path it) (path a)"
    and "depth it = depth a"
    and "list_all2 (\<lambda>k e. ent_rel st (mcell (h_ent st) (sp_blk s) (sp_off s + k)) e) ks es"
  shows "\<exists>items st'. spawn_dirs i it s ks st = Ret (items, st') \<and> wm_ok st' \<and> wm_keeps st st' \<and>
           list_all2 (item_rel st') items (map (\<lambda>e. child_of a (entName e) []) (filter IsDir es))"
  using assms
proof (induction ks arbitrary: es st)
  case Nil
  then show ?case by simp
next
  case (Cons k ks)
  let ?c = "mcell (h_ent st) (sp_blk s) (sp_off s + k)"
  obtain e es' where es: "es = e # es'" and er: "ent_rel st ?c e"
    and rest: "list_all2 (\<lambda>k e. ent_rel st (mcell (h_ent st) (sp_blk s) (sp_off s + k)) e) ks es'"
    using Cons.prems(5) by (cases es) auto
  show ?case
  proof (cases "IsDir e")
    case False
    then show ?thesis
      using Cons.IH [OF Cons.prems(1-4) rest] ent_rel_IsDir [OF er] by (simp add: es Let_def)
  next
    case True
    have nm: "str_rel st (entName ?c) (entName e)" using er by (simp add: ent_rel_def)
    obtain p st1 where one: "store_path_z i (path it) (entName ?c) st = Ret (p, st1)"
      and ok1: "wm_ok st1" and kp1: "wm_keeps st st1" and p: "path_rel st1 p (path_join (path a) (entName e))"
      and he: "h_ent st1 = h_ent st"
      using step_path [OF Cons.prems(1-3) nm] by blast
    have i1: "i < length (wm_workers st1)" using Cons.prems(2) wm_keepsD(6) [OF kp1] by simp
    have rest1: "list_all2 (\<lambda>k e. ent_rel st1 (mcell (h_ent st1) (sp_blk s) (sp_off s + k)) e) ks es'"
      using rest keeps_ent_rel [OF kp1] by (auto simp: he elim!: list_all2_mono)
    obtain items st' where run: "spawn_dirs i it s ks st1 = Ret (items, st')" and ok': "wm_ok st'"
      and kp: "wm_keeps st1 st'"
      and rel: "list_all2 (item_rel st') items (map (\<lambda>e. child_of a (entName e) []) (filter IsDir es'))"
      using Cons.IH [OF ok1 i1 keeps_path_rel [OF kp1 Cons.prems(3)] Cons.prems(4) rest1] by blast
    have "item_rel st' \<lparr>path = p, depth = depth it + 1, ancestor = None\<rparr> (child_of a (entName e) [])"
      using keeps_path_rel [OF kp p] Cons.prems(4) by (simp add: item_rel_def child_of_def)
    then show ?thesis
      using one run ok' wm_keeps_trans [OF kp1 kp] rel True ent_rel_IsDir [OF er]
      by (simp add: es Let_def)
  qed
qed

lemma at_max_depth_eq:
  "item_rel st it a \<Longrightarrow> at_max_depth st it \<longleftrightarrow> \<not> deeper (wm_conf st) a"
  by (auto simp: at_max_depth_def deeper_def item_rel_def)

text \<open>What a run of a task establishes, given what the specification says of the item.\<close>

definition task_ok ::
  "walkman \<Rightarrow> (DirBatch \<times> item list \<times> walkman) outcome \<Rightarrow> batch \<times> aitem list \<Rightarrow> bool" where
  "task_ok st r sp \<longleftrightarrow>
     (\<exists>b items st'. r = Ret (b, items, st') \<and> wm_ok st' \<and> wm_keeps st st' \<and>
        batch_rel st' b (fst sp) \<and> list_all2 (item_rel st') items (snd sp))"

lemma task_failed:
  assumes ok: "wm_ok st" and kp0: "wm_keeps st0 st" and it: "path_rel st (path it) (path a)"
    and eq: "failed_batch it (Errno n) st = (b, st')"
  shows "task_ok st0 (Ret (b, [], st')) (failed a n, [])"
  using step_failed [OF ok eq it] wm_keeps_trans [OF kp0] by (simp add: task_ok_def failed_def)

lemma visit_ok:
  assumes ok: "wm_ok st" and i: "i < length (wm_workers st)" and it: "item_rel st it a"
    and view: "view_ok E F"
  shows "task_ok st (visit E i it st) (spec_visit (wm_conf st) F a)"
proof -
  obtain ds e where fs: "fs_list F (cstr (path a)) = (ds, e)" by fastforce
  obtain scr saw st1 where rd: "readEntries E i it st = Ret (scr, saw, map_option Errno e, st1)"
    and ok1: "wm_ok st1" and kp1: "wm_keeps st st1"
    and scr: "list_all2 (ent_rel st1) scr (listed (wm_conf st) (path a) ds)"
    using readEntries_ok [OF ok i it view fs] by blast
  note it1 = keeps_item_rel [OF kp1 it]
  have i1: "i < length (wm_workers st1)" and conf: "wm_conf st1 = wm_conf st"
    using i wm_keepsD [OF kp1] by simp_all
  show ?thesis
  proof (cases e)
    case (Some n)
    obtain b st2 where fb: "failed_batch it (Errno n) st1 = (b, st2)" by fastforce
    have "visit E i it st = Ret (b, [], st2)"
      using i rd Some fb by (simp add: visit_def visit_with_def visit_read_def)
    then show ?thesis
      using task_failed [OF ok1 kp1 _ fb] it1 fs Some by (simp add: spec_visit_def item_rel_def)
  next
    case None
    let ?es = "listed (wm_conf st) (path a) ds"
    obtain r st2 where se: "store_entries i scr st1 = (r, st2)" by fastforce
    note s = step_entries [OF ok1 i1 se]
    note kp2 = wm_keeps_trans [OF kp1 s(2)]
    note it2 = keeps_item_rel [OF s(2) it1]
    have i2: "i < length (wm_workers st2)" and conf2: "wm_conf st2 = wm_conf st"
      using i1 conf wm_keepsD [OF s(2)] by simp_all
    have scr2: "list_all2 (ent_rel st2) scr ?es"
      using scr keeps_ent_rel [OF s(2)] by (auto elim!: list_all2_mono)
    have "scr = [] \<longleftrightarrow> ?es = []" using scr by auto
    then have br: "batch_rel st2 \<lparr>Dir = path it, Entries = r, Errs = None\<rparr>
        \<lparr>b_dir = path a, b_entries = ?es, b_errs = []\<rparr>"
      using s(3-5) scr2 it2 by (simp add: batch_rel_def item_rel_def path_rel_str)
    have sp: "\<exists>items st3. visit_spawn i it r st2 = Ret (items, st3) \<and> wm_ok st3 \<and> wm_keeps st2 st3 \<and>
        list_all2 (item_rel st3) items
          (if deeper (wm_conf st) a then map (\<lambda>e. child_of a (entName e) []) (filter IsDir ?es) else [])"
    proof (cases "deeper (wm_conf st) a \<and> r \<noteq> None")
      case False
      then have "?es = []" if "deeper (wm_conf st) a" using that s(5) scr by auto
      then show ?thesis
        using False s(1) at_max_depth_eq [OF it2] conf2 by (auto simp: visit_spawn_def)
    next
      case True
      then obtain q where q: "r = Some q" by auto
      have "map (\<lambda>k. mcell (h_ent st2) (sp_blk q) (sp_off q + k)) [0..<sp_len q] = scr"
        using s(4) by (cases q) (auto simp: q intro!: nth_equalityI)
      then have "list_all2 (\<lambda>k e. ent_rel st2 (mcell (h_ent st2) (sp_blk q) (sp_off q + k)) e) [0..<sp_len q] ?es"
        using scr2 by (metis (no_types) list_all2_map1)
      from spawn_dirs_ok [OF s(1) i2 _ _ this, of it a] show ?thesis
        using True at_max_depth_eq [OF it2] conf2 it2 by (simp add: visit_spawn_def q item_rel_def)
    qed
    then obtain items st3 where run: "visit_spawn i it r st2 = Ret (items, st3)" and ok3: "wm_ok st3"
      and kp3: "wm_keeps st2 st3"
      and rel: "list_all2 (item_rel st3) items
          (if deeper (wm_conf st) a then map (\<lambda>e. child_of a (entName e) []) (filter IsDir ?es) else [])"
      by blast
    have "visit E i it st = Ret (\<lparr>Dir = path it, Entries = r, Errs = None\<rparr>, items, st3)"
      using i rd None se run by (simp add: visit_def visit_with_def visit_read_def)
    then show ?thesis
      using ok3 wm_keeps_trans [OF kp2 kp3] keeps_batch_rel [OF kp3 br] rel fs None
      by (simp add: task_ok_def spec_visit_def Let_def)
  qed
qed

section \<open>The symlink-following task\<close>

definition errs_of :: "walkman \<Rightarrow> nat \<Rightarrow> sDirErr list" where
  "errs_of st i = mem_read (h_err st) (err_span (ws_results (worker_of st i)))"

text \<open>A step of the loop body, against the fate of the entry.\<close>

definition step_ok ::
  "nat \<Rightarrow> walkman \<Rightarrow> (sEntry option \<times> item option \<times> walkman) outcome \<Rightarrow> aentry \<Rightarrow> fate \<Rightarrow> bool" where
  "step_ok i st r ae f \<longleftrightarrow>
     (\<exists>k ch st' ds. r = Ret (k, ch, st') \<and> wm_ok st' \<and> wm_keeps st st' \<and>
        rel_option (ent_rel st') k (fst f) \<and> rel_option (item_rel st') ch (snd (snd f)) \<and>
        errs_of st' i = errs_of st i @ ds \<and>
        list_all2 (err_rel st') ds
          (case fst (snd f) of None \<Rightarrow> [] | Some x \<Rightarrow> [\<lparr>errName = entName ae, errErr = x\<rparr>]))"

lemma step_ok_err:
  assumes ok: "wm_ok st1" and kp: "wm_keeps st st1" and i: "i < length (wm_workers st1)"
    and er: "ent_rel st1 e ae" and same: "errs_of st1 i = errs_of st i"
    and k: "rel_option (ent_rel st1) k ka"
  shows "step_ok i st (Ret (k, None, store_dir_err E i \<lparr>errName = entName e, errErr = x\<rparr> st1)) ae
           (ka, Some x, None)"
proof -
  let ?st = "store_dir_err E i \<lparr>errName = entName e, errErr = x\<rparr> st1"
  note s = step_errs [OF ok i, of E "\<lparr>errName = entName e, errErr = x\<rparr>"]
  have "rel_option (ent_rel ?st) k ka"
    using k by (rule option.rel_mono_strong) (rule keeps_ent_rel [OF s(2)])
  moreover have "err_rel ?st \<lparr>errName = entName e, errErr = x\<rparr> \<lparr>errName = entName ae, errErr = x\<rparr>"
    using keeps_ent_rel [OF s(2) er] by (simp add: err_rel_def ent_rel_def)
  ultimately show ?thesis
    using s wm_keeps_trans [OF kp s(2)] same by (auto simp: step_ok_def errs_of_def)
qed

lemma step_ok_keep:
  assumes "wm_ok st'" and "wm_keeps st st'" and "ent_rel st' e' a'" and "errs_of st' i = errs_of st i"
    and "rel_option (item_rel st') ch c"
  shows "step_ok i st (Ret (Some e', ch, st')) ae (Some a', None, c)"
  using assms by (simp add: step_ok_def)

lemma sym_link_ok:
  assumes ok: "wm_ok st" and i: "i < length (wm_workers st)" and it: "item_rel st it a"
    and er: "ent_rel st e ae" and view: "view_ok E F" and anc: "wm_ancestors st = Some s"
  shows "step_ok i st (sym_link E i it (\<not> deeper (wm_conf st) a) e st) ae (spec_link (wm_conf st) F a ae)"
proof -
  let ?J = "path_join (path a) (entName ae)"
  have p: "path_rel st (path it) (path a)" and nm: "str_rel st (entName e) (entName ae)"
    using it er by (simp_all add: item_rel_def ent_rel_def)
  obtain cp st1 where one: "store_path_z i (path it) (entName e) st = Ret (cp, st1)"
    and ok1: "wm_ok st1" and kp1: "wm_keeps st st1" and cp: "path_rel st1 cp ?J"
    and rs: "map ws_results (wm_workers st1) = map ws_results (wm_workers st)" and he: "h_err st1 = h_err st"
    using step_path [OF ok i p nm] by blast
  have i1: "i < length (wm_workers st1)" using i wm_keepsD(6) [OF kp1] by simp
  have "ws_results (worker_of st1 i) = ws_results (worker_of st i)"
    using arg_cong [OF rs, of "\<lambda>xs. xs ! i"] i i1 by simp
  then have same: "errs_of st1 i = errs_of st i" by (simp add: errs_of_def he)
  note er1 = keeps_ent_rel [OF kp1 er] and it1 = keeps_item_rel [OF kp1 it]
  have stat: "os_Stat E (mem_read (h_str st1) cp) = fs_stat F ?J"
    using cp view by (simp add: path_rel_def view_ok_def)
  obtain s1 where s1: "wm_ancestors st1 = Some s1"
    using anc wm_keepsD(4) [OF kp1] by (auto simp: anc_keeps_def)
  have ch: "chain (s1, h_anc st1) (ancestor it) (ancestor a)"
    using it1 s1 by (simp add: item_rel_def chain_rel_def)
  note cyc = hasCycle_chain [OF ch]
  show ?thesis
  proof (cases "fs_stat F ?J")
    case (Inl n)
    then show ?thesis
      using step_ok_err [OF ok1 kp1 i1 er1 same, of None None E ErrDanglingSymlink]
      by (simp add: sym_link_def one stat spec_link_def)
  next
    case info: (Inr info)
    show ?thesis
    proof (cases "fi_Sys info")
      case None
      then show ?thesis
        using step_ok_err [OF ok1 kp1 i1 er1 same, of "Some e" "Some ae" E ErrNoDevInoInfo] er1 info
        by (simp add: sym_link_def one stat spec_link_def)
    next
      case (Some t)
      obtain ti td where t: "t = (ti, td)" by fastforce
      consider (leaf) "\<not> mode_IsDir (fi_Mode info)"
        | (cycle) "mode_IsDir (fi_Mode info)" "t \<in> set (ancestor a)"
        | (stay) "mode_IsDir (fi_Mode info)" "t \<notin> set (ancestor a)" "\<not> deeper (wm_conf st) a"
        | (down) "mode_IsDir (fi_Mode info)" "t \<notin> set (ancestor a)" "deeper (wm_conf st) a"
        by blast
      then show ?thesis
      proof cases
        case leaf
        have "ent_rel st1 (e\<lparr>etyp := dTypeFromInfo info\<rparr>) (ae\<lparr>etyp := dTypeFromInfo info\<rparr>)"
          using er1 by (simp add: ent_rel_def)
        from step_ok_keep [OF ok1 kp1 this same, of None None] show ?thesis
          using leaf info Some by (simp add: sym_link_def one stat spec_link_def t)
      next
        case cycle
        then show ?thesis
          using step_ok_err [OF ok1 kp1 i1 er1 same, of None None E ErrSymlinkCycle] info Some
          by (simp add: sym_link_def one stat spec_link_def t cyc)
      next
        case stay
        have "ent_rel st1 (e\<lparr>etyp := dtDir\<rparr>) (ae\<lparr>etyp := dtDir\<rparr>)"
          using er1 by (simp add: ent_rel_def)
        from step_ok_keep [OF ok1 kp1 this same, of None None] show ?thesis
          using stay info Some by (simp add: sym_link_def one stat spec_link_def t cyc)
      next
        case down
        have cr: "chain_rel st1 (ancestor it) (ancestor a)" using it1 by (simp add: item_rel_def)
        obtain na st2 where push: "push_ancestor i ti td (ancestor it) st1 = Ret (na, st2)"
          and ok2: "wm_ok st2" and kp2: "wm_keeps st1 st2" and nc: "chain_rel st2 na ((ti, td) # ancestor a)"
          and w2: "wm_workers st2 = wm_workers st1" "h_err st2 = h_err st1"
          using step_push [OF ok1 cr s1] by blast
        have same2: "errs_of st2 i = errs_of st i" using same w2 by (simp add: errs_of_def)
        have e2: "ent_rel st2 (e\<lparr>etyp := dtDir\<rparr>) (ae\<lparr>etyp := dtDir\<rparr>)"
          using keeps_ent_rel [OF kp2 er1] by (simp add: ent_rel_def)
        have c2: "rel_option (item_rel st2) (Some \<lparr>path = cp, depth = depth it + 1, ancestor = na\<rparr>)
            (Some (child_of a (entName ae) ((ti, td) # ancestor a)))"
          using keeps_path_rel [OF kp2 cp] nc it by (simp add: item_rel_def child_of_def)
        from step_ok_keep [OF ok2 wm_keeps_trans [OF kp1 kp2] e2 same2 c2] show ?thesis
          using down info Some push by (simp add: sym_link_def one stat spec_link_def t cyc)
      qed
    qed
  qed
qed

lemma sym_plain_ok:
  assumes ok: "wm_ok st" and i: "i < length (wm_workers st)" and it: "item_rel st it a"
    and er: "ent_rel st e ae" and anc: "wm_ancestors st = Some s" and nl: "etyp ae \<noteq> dtLnk"
  shows "case spec_entry (wm_conf st) F a ae of
      Ret f \<Rightarrow> step_ok i st (sym_plain i it (\<not> deeper (wm_conf st) a) e st) ae f
    | Panic p \<Rightarrow> sym_plain i it (\<not> deeper (wm_conf st) a) e st = Panic p
    | Diverge \<Rightarrow> False"
proof (cases "IsDir ae \<and> deeper (wm_conf st) a")
  case False
  then show ?thesis
    using step_ok_keep [OF ok wm_keeps_refl er refl, of None None] nl er
    by (auto simp: spec_entry_def sym_plain_def IsDir_def ent_rel_def)
next
  case True
  let ?J = "path_join (path a) (entName ae)"
  have p: "path_rel st (path it) (path a)" and nm: "str_rel st (entName e) (entName ae)"
    and dir: "etyp e = dtDir"
    using it er True by (simp_all add: item_rel_def ent_rel_def IsDir_def)
  obtain cp st1 where one: "store_path_z i (path it) (entName e) st = Ret (cp, st1)"
    and ok1: "wm_ok st1" and kp1: "wm_keeps st st1" and cp: "path_rel st1 cp ?J"
    and rs: "map ws_results (wm_workers st1) = map ws_results (wm_workers st)" and he: "h_err st1 = h_err st"
    using step_path [OF ok i p nm] by blast
  have i1: "i < length (wm_workers st1)" using i wm_keepsD(6) [OF kp1] by simp
  have "ws_results (worker_of st1 i) = ws_results (worker_of st i)"
    using arg_cong [OF rs, of "\<lambda>xs. xs ! i"] i i1 by simp
  then have same: "errs_of st1 i = errs_of st i" by (simp add: errs_of_def he)
  note er1 = keeps_ent_rel [OF kp1 er] and it1 = keeps_item_rel [OF kp1 it]
  obtain s1 where s1: "wm_ancestors st1 = Some s1"
    using anc wm_keepsD(4) [OF kp1] by (auto simp: anc_keeps_def)
  have cr: "chain_rel st1 (ancestor it) (ancestor a)" using it1 by (simp add: item_rel_def)
  show ?thesis
  proof (cases "ancestor a")
    case Nil
    then have "ancestor it = None" using cr s1 by (simp add: chain_rel_def)
    then show ?thesis
      using True nl dir one Nil by (simp add: spec_entry_def sym_plain_def)
  next
    case (Cons t ts)
    then obtain q where q: "ancestor it = Some q" and dv: "an_dev (deref (h_anc st1) q) = snd t"
      using cr s1 by (auto simp: chain_rel_def)
    obtain na st2 where push: "push_ancestor i (ino e) (snd t) (ancestor it) st1 = Ret (na, st2)"
      and ok2: "wm_ok st2" and kp2: "wm_keeps st1 st2" and nc: "chain_rel st2 na ((ino e, snd t) # ancestor a)"
      and w2: "wm_workers st2 = wm_workers st1" "h_err st2 = h_err st1"
      using step_push [OF ok1 cr s1] by blast
    have same2: "errs_of st2 i = errs_of st i" using same w2 by (simp add: errs_of_def)
    have "ino e = ino ae" using er by (simp add: ent_rel_def)
    then have c2: "rel_option (item_rel st2) (Some \<lparr>path = cp, depth = depth it + 1, ancestor = na\<rparr>)
        (Some (child_of a (entName ae) ((ino ae, snd t) # ancestor a)))"
      using keeps_path_rel [OF kp2 cp] nc it by (simp add: item_rel_def child_of_def)
    from step_ok_keep [OF ok2 wm_keeps_trans [OF kp1 kp2] keeps_ent_rel [OF kp2 er1] same2 c2] show ?thesis
      using True nl dir one Cons push q dv by (simp add: spec_entry_def sym_plain_def)
  qed
qed

lemma sym_step_ok:
  assumes "wm_ok st" and "i < length (wm_workers st)" and "item_rel st it a"
    and er: "ent_rel st e ae" and "view_ok E F" and "wm_ancestors st = Some s"
    and "etyp e = dtLnk \<Longrightarrow> saw"
  shows "case spec_entry (wm_conf st) F a ae of
      Ret f \<Rightarrow> step_ok i st (sym_step E i it saw (\<not> deeper (wm_conf st) a) e st) ae f
    | Panic p \<Rightarrow> sym_step E i it saw (\<not> deeper (wm_conf st) a) e st = Panic p
    | Diverge \<Rightarrow> False"
proof (cases "etyp ae = dtLnk")
  case True
  then show ?thesis
    using sym_link_ok [OF assms(1-6)] assms(7) er by (simp add: sym_step_def spec_entry_def ent_rel_def)
next
  case False
  then show ?thesis
    using sym_plain_ok [OF assms(1-4,6) False, of F] er
    by (auto simp: sym_step_def ent_rel_def split: outcome.splits)
qed

lemma fates_simps:
  "fates c F a [] = Ret []"
  "fates c F a (e # es) =
     obind (spec_entry c F a e) (\<lambda>f. obind (fates c F a es) (\<lambda>fs. Ret ((e, f) # fs)))"
  by (simp_all add: fates_def obind_assoc)

text \<open>The accumulators of the specification, one fate at a time.\<close>

lemma fate_lists:
  "kept ((e, f) # fs) = (case fst f of None \<Rightarrow> [] | Some k \<Rightarrow> [k]) @ kept fs"
  "reported ((e, f) # fs) =
     (case fst (snd f) of None \<Rightarrow> [] | Some x \<Rightarrow> [\<lparr>errName = entName e, errErr = x\<rparr>]) @ reported fs"
  "spawned ((e, f) # fs) = (case snd (snd f) of None \<Rightarrow> [] | Some c \<Rightarrow> [c]) @ spawned fs"
  by (cases f; auto split: option.split elim: reported.elims)
    (cases f; cases "fst (snd f)"; cases "snd (snd f)"; auto)+

definition loop_ok ::
  "nat \<Rightarrow> walkman \<Rightarrow> (sEntry list \<times> nat \<times> item list \<times> walkman) outcome \<Rightarrow> sEntry list \<Rightarrow> item list \<Rightarrow>
     (aentry \<times> fate) list \<Rightarrow> bool" where
  "loop_ok i st r done spawnBuf fs \<longleftrightarrow>
     (\<exists>scr keep items st' ks ds. r = Ret (scr, keep, spawnBuf @ items, st') \<and> wm_ok st' \<and> wm_keeps st st' \<and>
        take keep scr = done @ ks \<and> list_all2 (ent_rel st') ks (kept fs) \<and>
        list_all2 (item_rel st') items (spawned fs) \<and>
        errs_of st' i = errs_of st i @ ds \<and> list_all2 (err_rel st') ds (reported fs))"

lemma loop_ok_step:
  assumes kp: "wm_keeps st st1" and es1: "errs_of st1 i = errs_of st i @ ds1"
    and k: "rel_option (ent_rel st1) k (fst f)" and ch: "rel_option (item_rel st1) ch (snd (snd f))"
    and d: "list_all2 (err_rel st1) ds1
          (case fst (snd f) of None \<Rightarrow> [] | Some x \<Rightarrow> [\<lparr>errName = entName ae, errErr = x\<rparr>])"
    and rest: "loop_ok i st1 r (done @ (case k of None \<Rightarrow> [] | Some e \<Rightarrow> [e]))
                 (spawnBuf @ (case ch of None \<Rightarrow> [] | Some c \<Rightarrow> [c])) fs"
  shows "loop_ok i st r done spawnBuf ((ae, f) # fs)"
proof -
  obtain scr keep items st' ks ds where r: "r = Ret (scr, keep, (spawnBuf @ (case ch of None \<Rightarrow> [] | Some c \<Rightarrow> [c])) @ items, st')"
    and ok: "wm_ok st'" and kp': "wm_keeps st1 st'"
    and tk: "take keep scr = (done @ (case k of None \<Rightarrow> [] | Some e \<Rightarrow> [e])) @ ks"
    and rel: "list_all2 (ent_rel st') ks (kept fs)" "list_all2 (item_rel st') items (spawned fs)"
      "list_all2 (err_rel st') ds (reported fs)" and es: "errs_of st' i = errs_of st1 i @ ds"
    using rest unfolding loop_ok_def by blast
  have "list_all2 (ent_rel st') ((case k of None \<Rightarrow> [] | Some e \<Rightarrow> [e]) @ ks) (kept ((ae, f) # fs))"
    using k rel(1) keeps_ent_rel [OF kp'] by (cases k; cases "fst f") (auto simp: fate_lists)
  moreover have "list_all2 (item_rel st') ((case ch of None \<Rightarrow> [] | Some c \<Rightarrow> [c]) @ items) (spawned ((ae, f) # fs))"
    using ch rel(2) keeps_item_rel [OF kp'] by (cases ch; cases "snd (snd f)") (auto simp: fate_lists)
  moreover have "list_all2 (err_rel st') (ds1 @ ds) (reported ((ae, f) # fs))"
    using d rel(3) keeps_err_rel [OF kp'] unfolding fate_lists
    by (intro list_all2_appendI) (auto elim!: list_all2_mono)
  ultimately show ?thesis
    using r ok wm_keeps_trans [OF kp kp'] tk es es1 unfolding loop_ok_def
    by (intro exI [of _ scr] exI [of _ keep] exI [of _ "(case ch of None \<Rightarrow> [] | Some c \<Rightarrow> [c]) @ items"]
        exI [of _ st'] exI [of _ "(case k of None \<Rightarrow> [] | Some e \<Rightarrow> [e]) @ ks"] exI [of _ "ds1 @ ds"]) simp
qed

lemma sym_loop_ok:
  assumes "wm_ok st" and "i < length (wm_workers st)" and "item_rel st it a" and "view_ok E F"
    and "wm_ancestors st = Some s" and "list_all2 (ent_rel st) (drop k scr) es"
    and "\<forall>e \<in> set (drop k scr). etyp e = dtLnk \<longrightarrow> saw" and "keep \<le> k" and "k \<le> length scr"
    and "c = wm_conf st"
  shows "case fates c F a es of
      Ret fs \<Rightarrow> loop_ok i st (sym_loop E i it saw (\<not> deeper c a) k keep scr sb st) (take keep scr) sb fs
    | Panic p \<Rightarrow> sym_loop E i it saw (\<not> deeper c a) k keep scr sb st = Panic p
    | Diverge \<Rightarrow> False"
  using assms
proof (induction es arbitrary: k keep scr sb st s)
  case Nil
  then have "k = length scr" by simp
  then show ?case
    using Nil.prems(1) by (subst sym_loop.simps) (auto simp: fates_simps loop_ok_def)
next
  case (Cons ae es)
  have k: "k < length scr" using Cons.prems(6) by (cases "k < length scr") auto
  then have dk: "drop k scr = scr ! k # drop (Suc k) scr" by (rule Cons_nth_drop_Suc [symmetric])
  have er: "ent_rel st (scr ! k) ae" and rest: "list_all2 (ent_rel st) (drop (Suc k) scr) es"
    using Cons.prems(6) by (simp_all add: dk)
  have saw: "etyp (scr ! k) = dtLnk \<Longrightarrow> saw" using Cons.prems(7) by (simp add: dk)
  note one = sym_step_ok [OF Cons.prems(1-3) er Cons.prems(4,5) saw, folded Cons.prems(10)]
  show ?case
  proof (cases "spec_entry c F a ae")
    case (Panic p)
    then show ?thesis using one k by (subst sym_loop.simps) (simp add: fates_simps)
  next
    case Diverge
    then show ?thesis using one by simp
  next
    case (Ret f)
    then obtain kk ch st1 ds1 where step: "sym_step E i it saw (\<not> deeper c a) (scr ! k) st = Ret (kk, ch, st1)"
      and ok1: "wm_ok st1" and kp1: "wm_keeps st st1"
      and rels: "rel_option (ent_rel st1) kk (fst f)" "rel_option (item_rel st1) ch (snd (snd f))"
        "list_all2 (err_rel st1) ds1
          (case fst (snd f) of None \<Rightarrow> [] | Some x \<Rightarrow> [\<lparr>errName = entName ae, errErr = x\<rparr>])"
      and es1: "errs_of st1 i = errs_of st i @ ds1"
      using one unfolding step_ok_def by auto
    define scr1 where "scr1 = (case kk of None \<Rightarrow> scr | Some e \<Rightarrow> scr[keep := e])"
    define keep1 where "keep1 = (case kk of None \<Rightarrow> keep | Some e \<Rightarrow> Suc keep)"
    define sb1 where "sb1 = sb @ (case ch of None \<Rightarrow> [] | Some c \<Rightarrow> [c])"
    have run: "sym_loop E i it saw (\<not> deeper c a) k keep scr sb st =
        sym_loop E i it saw (\<not> deeper c a) (Suc k) keep1 scr1 sb1 st1"
      using k step by (subst sym_loop.simps) (auto simp: scr1_def keep1_def sb1_def split: option.split)
    have dr: "drop (Suc k) scr1 = drop (Suc k) scr" and len: "length scr1 = length scr"
      using Cons.prems(8) by (auto simp: scr1_def split: option.split)
    have tk: "take keep1 scr1 = take keep scr @ (case kk of None \<Rightarrow> [] | Some e \<Rightarrow> [e])"
      using Cons.prems(8) k by (auto simp: keep1_def scr1_def take_Suc_conv_app_nth split: option.split)
    obtain s1 where s1: "wm_ancestors st1 = Some s1"
      using Cons.prems(5) wm_keepsD(4) [OF kp1] by (auto simp: anc_keeps_def)
    have rest1: "list_all2 (ent_rel st1) (drop (Suc k) scr1) es"
      unfolding dr using rest by (rule list_all2_mono) (rule keeps_ent_rel [OF kp1])
    have saw1: "\<forall>e \<in> set (drop (Suc k) scr1). etyp e = dtLnk \<longrightarrow> saw"
      using Cons.prems(7) by (simp add: dk dr)
    have b: "keep1 \<le> Suc k" "Suc k \<le> length scr1" "i < length (wm_workers st1)" "c = wm_conf st1"
      using Cons.prems(2,8,10) k len wm_keepsD(5,6) [OF kp1] by (auto simp: keep1_def split: option.split)
    note ih = Cons.IH [OF ok1 b(3) keeps_item_rel [OF kp1 Cons.prems(3)] Cons.prems(4) s1 rest1 saw1 b(1,2,4), of sb1]
    show ?thesis
    proof (cases "fates c F a es")
      case rr: (Ret fs)
      have "loop_ok i st1 (sym_loop E i it saw (\<not> deeper c a) (Suc k) keep1 scr1 sb1 st1)
          (take keep scr @ (case kk of None \<Rightarrow> [] | Some e \<Rightarrow> [e]))
          (sb @ (case ch of None \<Rightarrow> [] | Some c \<Rightarrow> [c])) fs"
        using ih rr by (simp add: tk sb1_def)
      from loop_ok_step [OF kp1 es1 rels this] show ?thesis
        by (simp add: fates_simps Ret rr run)
    qed (use ih Ret run in \<open>simp_all add: fates_simps\<close>)
  qed
qed

lemma visitSym_ok:
  assumes ok: "wm_ok st" and i: "i < length (wm_workers st)" and it: "item_rel st it a"
    and view: "view_ok E F" and fl: "followLinks (wm_conf st)"
  shows "case spec_visitSym (wm_conf st) F a of
      Ret sp \<Rightarrow> task_ok st (visitSym E i it st) sp
    | Panic p \<Rightarrow> visitSym E i it st = Panic p
    | Diverge \<Rightarrow> False"
proof -
  let ?c = "wm_conf st"
  obtain ds e where fs: "fs_list F (cstr (path a)) = (ds, e)" by fastforce
  let ?es = "listed ?c (path a) ds"
  obtain scr st1 where rd: "readEntries E i it st = Ret (scr, (\<exists>x \<in> set scr. etyp x = dtLnk), map_option Errno e, st1)"
    and ok1: "wm_ok st1" and kp1: "wm_keeps st st1" and scr: "list_all2 (ent_rel st1) scr ?es"
    using readEntries_ok [OF ok i it view fs] by blast
  let ?saw = "\<exists>x \<in> set scr. etyp x = dtLnk"
  note it1 = keeps_item_rel [OF kp1 it]
  have i1: "i < length (wm_workers st1)" and conf: "?c = wm_conf st1" using i wm_keepsD [OF kp1] by simp_all
  obtain s1 where s1: "wm_ancestors st1 = Some s1"
    using ok1 fl conf by (auto simp: wm_ok_def anc_wf_def split: option.splits)
  show ?thesis
  proof (cases e)
    case (Some n)
    obtain b st2 where fb: "failed_batch it (Errno n) st1 = (b, st2)" by fastforce
    have "visitSym E i it st = Ret (b, [], st2)" using i rd Some fb by (simp add: visitSym_def)
    then show ?thesis
      using task_failed [OF ok1 kp1 _ fb] it1 fs Some by (simp add: spec_visitSym_def item_rel_def)
  next
    case None
    let ?off = "getDirErrMark (ws_results (worker_of st1 i))"
    have run: "visitSym E i it st =
        obind (sym_loop E i it ?saw (\<not> deeper ?c a) 0 0 scr [] st1) (\<lambda>(scratch, keep, spawnBuf, st).
           case store_entries i (take keep scratch) st of (entries, st) \<Rightarrow>
             obind (sliceDirErr ?off (ws_results (worker_of st i))) (\<lambda>errs.
               Ret (\<lparr>Dir = path it, Entries = entries, Errs = Some errs\<rparr>, spawnBuf, st)))"
      using i rd None at_max_depth_eq [OF it1] conf by (simp add: visitSym_def Let_def)
    note loop = sym_loop_ok [OF ok1 i1 it1 view s1, of 0 scr ?es ?saw 0 ?c "[]"]
    show ?thesis
    proof (cases "fates ?c F a ?es")
      case (Panic p)
      then show ?thesis using loop scr conf run fs None by (auto simp: spec_visitSym_def)
    next
      case Diverge
      then show ?thesis using loop scr conf by auto
    next
      case (Ret fs')
      then have "loop_ok i st1 (sym_loop E i it ?saw (\<not> deeper ?c a) 0 0 scr [] st1) [] [] fs'"
        using loop scr conf by auto
      then obtain scr2 keep items st2 ks nds where lp: "sym_loop E i it ?saw (\<not> deeper ?c a) 0 0 scr [] st1 = Ret (scr2, keep, items, st2)"
        and ok2: "wm_ok st2" and kp2: "wm_keeps st1 st2" and tk: "take keep scr2 = ks"
        and ents: "list_all2 (ent_rel st2) ks (kept fs')" and its: "list_all2 (item_rel st2) items (spawned fs')"
        and es: "errs_of st2 i = errs_of st1 i @ nds" and ers: "list_all2 (err_rel st2) nds (reported fs')"
        unfolding loop_ok_def by auto
      have i2: "i < length (wm_workers st2)" using i1 wm_keepsD(6) [OF kp2] by simp
      obtain r st3 where se: "store_entries i ks st2 = (r, st3)" by fastforce
      note s = step_entries [OF ok2 i2 se]
      have i3: "i < length (wm_workers st3)" using i2 wm_keepsD(6) [OF s(2)] by simp
      let ?ras = "map ws_results (wm_workers st3)"
      have wf3: "errs_wf ?ras (h_err st3)" and i3': "i < length ?ras" using s(1) i3 by (simp_all add: wm_ok_def)
      have er3: "mem_read (h_err st3) (err_span (?ras ! i)) = errs_of st1 i @ nds"
        using s(7-9) es i3 by (simp add: errs_of_def err_span_def)
      have off: "?off = length (errs_of st1 i)"
        by (simp add: getDirErrMark_def errs_of_def err_span_def)
      obtain q where q: "sliceDirErr ?off (?ras ! i) = Ret q" "mem_read (h_err st3) q = nds"
        "span_ok (err_arenas st3) (h_err st3) q"
        using sliceDirErr_ok [OF err_step_refl [OF wf3 i3', unfolded er3] off] by auto
      let ?b = "\<lparr>Dir = path it, Entries = r, Errs = Some q\<rparr>"
      note kp3 = wm_keeps_trans [OF wm_keeps_trans [OF kp1 kp2] s(2)]
      have "visitSym E i it st = Ret (?b, items, st3)"
        using run lp tk se q(1) i3 by simp
      moreover have "batch_rel st3 ?b \<lparr>b_dir = path a, b_entries = kept fs', b_errs = reported fs'\<rparr>"
      proof -
        have "list_all2 (ent_rel st3) ks (kept fs')"
          using ents by (rule list_all2_mono) (rule keeps_ent_rel [OF s(2)])
        moreover have "list_all2 (err_rel st3) nds (reported fs')"
          using ers by (rule list_all2_mono) (rule keeps_err_rel [OF s(2)])
        moreover have "ks = [] \<longleftrightarrow> kept fs' = []" using ents by auto
        ultimately show ?thesis
          using s(3-5) q(2,3) keeps_item_rel [OF kp3 it] by (simp add: batch_rel_def item_rel_def path_rel_str)
      qed
      moreover have "list_all2 (item_rel st3) items (spawned fs')"
        using its by (rule list_all2_mono) (rule keeps_item_rel [OF s(2)])
      ultimately show ?thesis
        using s(1) kp3 fs None Ret by (simp add: task_ok_def spec_visitSym_def)
    qed
  qed
qed

end
