(* ===== verification/Walk_Demo.thy ===== *)
theory Walk_Demo
  imports Walk_Spec
begin

text \<open>
  A concrete kernel and the file system it serves, at which the theorems about walks are
  applied: a directory \<open>t\<close> holds the subdirectory \<open>a\<close> (empty), the file \<open>b\<close> and the
  symlink \<open>l\<close>, which leads back to \<open>t\<close>.
\<close>

definition demo_records :: "rawrec list" where
  "demo_records = [raw 1 4 [46], raw 2 4 [97], raw 3 8 [98], raw 4 10 [108]]"

definition demo_info :: FileInfo where
  "demo_info = \<lparr>fi_Mode = ModeDir, fi_Sys = Some (1, 1)\<rparr>"

definition demo_env :: env where
  "demo_env =
     \<lparr>k_openat = (\<lambda>_ p _. if p = [116] then Inr 3 else if p = [116, 47, 97] then Inr 4 else Inl 2),
      k_getdents = (\<lambda>fd k. if fd = 3 \<and> k = 0 then Inr (enc_recs demo_records) else Inr []),
      k_stat = (\<lambda>p. if p = [116] \<or> p = [116, 47, 108] then Inr demo_info else Inl 2),
      rt_grow = (\<lambda>_ n. n)\<rparr>"

definition demo_view :: fsview where
  "demo_view =
     \<lparr>fs_list = (\<lambda>p. if p = [116] then (map dirent_of demo_records, None)
                     else if p = [116, 47, 97] then ([], None) else ([], Some 2)),
      fs_stat = os_Stat demo_env\<rparr>"

lemma demo_view_ok: "view_ok demo_env demo_view"
proof -
  have all: "\<forall>r \<in> set demo_records. rec_wf r" "length (enc_recs demo_records) \<le> getdentsBufSize"
    by (auto simp: demo_records_def raw_def rec_wf_def rec_len_def enc_recs_def length_enc_rec
        getdentsBufSize_def)
  have ne: "demo_records \<noteq> []" by (simp add: demo_records_def)
  have "serves (kernel_of demo_env) 3 0 [demo_records] None" "serves (kernel_of demo_env) 4 0 [] None"
    using all ne by (simp_all add: serves_def demo_env_def kernel.truncate_def)
  then have "dir_reads (kernel_of demo_env) p (fst (fs_list demo_view p)) (snd (fs_list demo_view p))" for p
    by (auto simp: dir_reads_def demo_view_def demo_env_def kernel.truncate_def
        intro: exI [of _ "[demo_records]"] exI [of _ "[]"])
  then show ?thesis by (simp add: view_ok_def demo_view_def)
qed

lemma demo_names_ok: "names_ok demo_view"
  by (auto simp: names_ok_def demo_view_def demo_records_def raw_def slash_def)

definition demo_conf :: "bool \<Rightarrow> u32 \<Rightarrow> walkConf" where
  "demo_conf fl md = \<lparr>followLinks = fl, maxDepth = md, skipSet = {}\<rparr>"

lemma demo_conf_sel [simp]:
  "followLinks (demo_conf fl md) = fl" "maxDepth (demo_conf fl md) = md" "skipSet (demo_conf fl md) = {}"
  by (simp_all add: demo_conf_def)

lemma demo_Clean: "Clean [116] = [116]"
  by (simp add: model_defs)

lemma demo_stat:
  "fs_stat demo_view [116] = Inr demo_info" "fs_stat demo_view [116, 47, 108] = Inr demo_info"
  by (simp_all add: demo_view_def os_Stat_def demo_env_def)

lemma demo_root:
  "spec_root (demo_conf False md) demo_view [116] = \<lparr>path = [116], depth = 1, ancestor = []\<rparr>"
  "spec_root (demo_conf True md) demo_view [116] = \<lparr>path = [116], depth = 1, ancestor = [(1, 1)]\<rparr>"
  by (simp_all add: spec_root_def demo_Clean demo_stat demo_info_def)

definition demo_entry :: "gostring \<Rightarrow> u64 \<Rightarrow> byte \<Rightarrow> aentry" where
  "demo_entry n i t = \<lparr>parentDir = [116], entName = n, ino = i, etyp = t\<rparr>"

lemma demo_listed:
  "listed (demo_conf fl md) [116] (map dirent_of demo_records) =
     [demo_entry [97] 2 4, demo_entry [98] 3 8, demo_entry [108] 4 10]"
  by (simp add: listed_def demo_records_def raw_def demo_entry_def dots_def)

lemma demo_list: "fs_list demo_view [116] = (map dirent_of demo_records, None)"
  by (simp add: demo_view_def)

lemma demo_join: "path_join [116] n = [116, 47] @ n"
  by (simp add: path_join_def PathSeparator_def)

lemma demo_cstr: "cstr [116] = [116]" "cstr [116, 47, 97] = [116, 47, 97]"
  by (simp_all add: cstr_def)

text \<open>The plain walk shows the link as it is; with links followed it is a reported cycle.\<close>

lemma demo_plain_root:
  "spec_task (demo_conf False 0) demo_view \<lparr>path = [116], depth = 1, ancestor = []\<rparr> =
     Ret (\<lparr>b_dir = [116], b_entries = [demo_entry [97] 2 4, demo_entry [98] 3 8, demo_entry [108] 4 10],
           b_errs = []\<rparr>,
          [\<lparr>path = [116, 47, 97], depth = 2, ancestor = []\<rparr>])"
  by (simp add: spec_task_def spec_visit_def demo_cstr demo_listed deeper_def child_of_def
      demo_join demo_view_def demo_entry_def IsDir_def dt_defs)

lemma demo_sym_root:
  "spec_task (demo_conf True 0) demo_view \<lparr>path = [116], depth = 1, ancestor = [(1, 1)]\<rparr> =
     Ret (\<lparr>b_dir = [116], b_entries = [demo_entry [97] 2 4, demo_entry [98] 3 8],
           b_errs = [\<lparr>errName = [108], errErr = ErrSymlinkCycle\<rparr>]\<rparr>,
          [\<lparr>path = [116, 47, 97], depth = 2, ancestor = [(2, 1), (1, 1)]\<rparr>])"
proof -
  have l: "fs_list demo_view [116] = (map dirent_of demo_records, None)" by (simp add: demo_view_def)
  have d: "mode_IsDir ModeDir" by (simp add: mode_IsDir_def ModeDir_def)
  show ?thesis
    by (simp add: spec_task_def spec_visitSym_def demo_cstr demo_listed l deeper_def child_of_def
        demo_join demo_entry_def IsDir_def dt_defs fates_def spec_entry_def spec_link_def demo_stat
        demo_info_def d)
qed

lemma demo_sub:
  "spec_task (demo_conf fl 0) demo_view \<lparr>path = [116, 47, 97], depth = 2, ancestor = ids\<rparr> =
     Ret (\<lparr>b_dir = [116, 47, 97], b_entries = [], b_errs = []\<rparr>, [])"
  by (simp add: spec_task_def spec_visitSym_def spec_visit_def demo_cstr demo_view_def listed_def
      fates_def)

text \<open>What the walk of \<open>t\<close> delivers, in each mode.\<close>

definition demo_batches :: "bool \<Rightarrow> batch list" where
  "demo_batches fl =
     [\<lparr>b_dir = [116],
       b_entries = [demo_entry [97] 2 4, demo_entry [98] 3 8] @ (if fl then [] else [demo_entry [108] 4 10]),
       b_errs = (if fl then [\<lparr>errName = [108], errErr = ErrSymlinkCycle\<rparr>] else [])\<rparr>,
      \<lparr>b_dir = [116, 47, 97], b_entries = [], b_errs = []\<rparr>]"

lemma demo_batches_simps:
  "demo_batches False =
     [\<lparr>b_dir = [116], b_entries = [demo_entry [97] 2 4, demo_entry [98] 3 8, demo_entry [108] 4 10], b_errs = []\<rparr>,
      \<lparr>b_dir = [116, 47, 97], b_entries = [], b_errs = []\<rparr>]"
  "demo_batches True =
     [\<lparr>b_dir = [116], b_entries = [demo_entry [97] 2 4, demo_entry [98] 3 8],
       b_errs = [\<lparr>errName = [108], errErr = ErrSymlinkCycle\<rparr>]\<rparr>,
      \<lparr>b_dir = [116, 47, 97], b_entries = [], b_errs = []\<rparr>]"
  by (simp_all add: demo_batches_def)

section \<open>Endless worlds\<close>

text \<open>
  A kernel for which every path is a directory that holds one entry, of type \<open>t\<close> and name
  \<open>n\<close>, and every path leads to one of nine directories.
\<close>

definition loop_env :: "byte \<Rightarrow> gostring \<Rightarrow> env" where
  "loop_env t n =
     \<lparr>k_openat = (\<lambda>_ _ _. Inr 3),
      k_getdents = (\<lambda>fd k. if k = 0 then Inr (enc_recs [raw 5 t n]) else Inr []),
      k_stat = (\<lambda>p. Inr \<lparr>fi_Mode = ModeDir, fi_Sys = Some (of_nat (length p) mod 9, 1)\<rparr>),
      rt_grow = (\<lambda>_ n. n)\<rparr>"

definition loop_view :: "byte \<Rightarrow> gostring \<Rightarrow> fsview" where
  "loop_view t n =
     \<lparr>fs_list = (\<lambda>_. ([dirent_of (raw 5 t n)], None)), fs_stat = os_Stat (loop_env t n)\<rparr>"

lemma loop_view_ok:
  assumes "rec_wf (raw 5 t n)" and "length (enc_recs [raw 5 t n]) \<le> getdentsBufSize"
  shows "view_ok (loop_env t n) (loop_view t n)"
proof -
  have "serves (kernel_of (loop_env t n)) 3 0 [[raw 5 t n]] None"
    using assms by (simp add: serves_def loop_env_def kernel.truncate_def)
  then have "dir_reads (kernel_of (loop_env t n)) p (fst (fs_list (loop_view t n) p)) (snd (fs_list (loop_view t n) p))" for p
    by (auto simp: dir_reads_def loop_view_def loop_env_def kernel.truncate_def intro: exI [of _ "[[raw 5 t n]]"])
  then show ?thesis by (simp add: view_ok_def loop_view_def)
qed

end
