(* ===== verification/Walk_Run.thy ===== *)
theory Walk_Run
  imports Walk_Refine Walk_Demo
begin

text \<open>
  A whole walk. The work-stealing pool is a dependency outside the repository; what the code
  relies on is that every submitted or spawned item is run once, by some worker, in some
  order, until none is left. So a run is any sequence of steps of \<open>pool_step\<close>, each of which
  picks a pending item and a worker and runs the task; the batches sent so far are in
  \<open>p_out\<close>. Tasks are atomic here (\<open>Conc_Run\<close> lets their operations interleave): a worker writes only its own arenas, and the one structure
  workers share, the ancestor store, behaves as its sequential version under any interleaving
  (\<open>Generic_Store\<close>).

  The reference is \<open>forest\<close>: the batches of a depth-first walk by the specification. The
  theorems show that every run delivers a permutation of them, without a crash, in exactly
  as many steps, and that each batch still reads as it should at the end of the run.
\<close>

section \<open>The task and the root against the specification\<close>

lemma execute_ok:
  assumes "wm_ok st" and "i < length (wm_workers st)" and "item_rel st it a" and "view_ok E F"
  shows "case spec_task (wm_conf st) F a of
      Ret sp \<Rightarrow> task_ok st (execute E i it st) sp
    | Panic p \<Rightarrow> execute E i it st = Panic p
    | Diverge \<Rightarrow> False"
  using visit_ok [OF assms] visitSym_ok [OF assms]
  by (cases "followLinks (wm_conf st)")
    (auto simp: spec_task_def execute_def split: outcome.splits)

lemma add_worker_ok:
  assumes ok: "wm_ok st"
  shows "wm_ok (add_worker st)" and "wm_conf (add_worker st) = wm_conf st"
    and "length (wm_workers (add_worker st)) = Suc (length (wm_workers st))"
proof -
  obtain ra me md where r: "newResultArena 0 (h_ent st) (h_err st) = (ra, me, md)" by (metis prod_cases3)
  obtain ss ms where s: "NewStringStore (h_str st) = (ss, ms)" by fastforce
  have "strings_wf (map ws_paths (wm_workers st) @ [ss]) ms"
    using ok NewStringStore_ok(1) [OF _ s] by (simp add: wm_ok_def)
  moreover have "entries_wf (map ra_entries (map ws_results (wm_workers st) @ [ra])) me"
    and "errs_wf (map ws_results (wm_workers st) @ [ra]) md"
    using ok newResultArena_ok [OF _ _ r, of "map ws_results (wm_workers st)"] by (simp_all add: wm_ok_def)
  ultimately show "wm_ok (add_worker st)"
    using ok by (simp add: wm_ok_def add_worker_def r s anc_wf_def split: option.splits)
  show "wm_conf (add_worker st) = wm_conf st"
    and "length (wm_workers (add_worker st)) = Suc (length (wm_workers st))"
    by (simp_all add: add_worker_def r s)
qed

lemma add_workers_ok:
  assumes "wm_ok st"
  shows "wm_ok ((add_worker ^^ n) st) \<and> wm_conf ((add_worker ^^ n) st) = wm_conf st \<and>
         length (wm_workers ((add_worker ^^ n) st)) = length (wm_workers st) + n"
  using assms add_worker_ok by (induction n) auto

lemma fold_insert_set: "fold (\<lambda>v s. insert v s) xs A = set xs \<union> A"
  by (induction xs arbitrary: A) auto

lemma NewWalkmanWithConfig_ok:
  assumes "pool_fits pc"
  shows "\<exists>st. NewWalkmanWithConfig fl md skips pc = Ret st \<and> wm_ok st \<and>
           wm_conf st = \<lparr>followLinks = fl, maxDepth = md, skipSet = set skips\<rparr> \<and>
           length (wm_workers st) = nat (PoolSize pc)"
proof -
  let ?c = "\<lparr>followLinks = fl, maxDepth = md, skipSet = set skips\<rparr>"
  let ?w = "\<lparr>wm_conf = ?c, wm_workers = [], wm_ancestors = None, h_str = empty_mem 0,
               h_ent = empty_mem zeroEntry, h_err = empty_mem zeroDirErr,
               h_anc = empty_mem zeroAncestor\<rparr>"
  obtain s m where n: "newAncestorStore (empty_mem zeroAncestor) = (s, m)" by fastforce
  define w where "w = (if fl then ?w\<lparr>wm_ancestors := Some s, h_anc := m\<rparr> else ?w)"
  have ok: "wm_ok w"
    using newAncestorStore_ok [OF n]
    by (simp add: w_def wm_ok_def strings_wf_def entries_wf_def errs_wf_def arenas_ok_def anc_wf_def)
  have "NewWalkmanWithConfig fl md skips pc = Ret ((add_worker ^^ nat (PoolSize pc)) w)"
    using assms n by (simp add: NewWalkmanWithConfig_def Let_def fold_insert_set w_def)
  moreover have "wm_conf w = ?c" "wm_workers w = []" by (simp_all add: w_def)
  ultimately show ?thesis using add_workers_ok [OF ok, of "nat (PoolSize pc)"] by simp
qed

lemma Walk_stat_ok:
  assumes ok: "wm_ok st" and view: "fs_stat F = os_Stat E"
  shows "\<exists>it st'. Walk E root st = Ret (it, st') \<and> wm_ok st' \<and> wm_keeps st st' \<and>
           item_rel st' it (spec_root (wm_conf st) F root)"
proof -
  let ?sss = "map ws_paths (wm_workers st)"
  obtain p m where z: "NewStringZ (Clean root) (h_str st) = (p, m)" by fastforce
  have wf: "strings_wf ?sss (h_str st)" using ok by (simp add: wm_ok_def)
  note n = NewStringZ_ok [OF wf z]
  let ?st = "st\<lparr>h_str := m\<rparr>"
  have ok1: "wm_ok ?st" using ok n(1) by (simp add: wm_ok_def anc_wf_def split: option.splits)
  have kp1: "wm_keeps st ?st"
    using n(2) by (simp add: wm_keeps_def anc_keeps_def split: option.splits)
  have p: "path_rel ?st p (Clean root)" using n(3,4) Clean_ne by (simp add: path_rel_def)
  let ?it = "\<lparr>path = p, depth = 1, ancestor = None\<rparr>"
  have stop: ?thesis if "Walk E root st = Ret (?it, ?st)" and "ancestor (spec_root (wm_conf st) F root) = []"
    using that ok1 kp1 p by (simp add: item_rel_def spec_root_def)
  have stat: "os_Stat E (Clean root) = fs_stat F (Clean root)" using view by simp
  show ?thesis
  proof (cases "followLinks (wm_conf st)")
    case False
    then show ?thesis by (intro stop) (simp_all add: Walk_def z Let_def spec_root_def)
  next
    case fl: True
    show ?thesis
    proof (cases "fs_stat F (Clean root)")
      case (Inl e)
      then show ?thesis by (intro stop) (simp_all add: Walk_def z Let_def spec_root_def fl stat)
    next
      case info: (Inr info)
      show ?thesis
      proof (cases "fi_Sys info")
        case None
        then show ?thesis by (intro stop) (simp_all add: Walk_def z Let_def spec_root_def fl stat info)
      next
        case (Some t)
        obtain s where s: "wm_ancestors ?st = Some s"
          using ok fl by (auto simp: wm_ok_def anc_wf_def split: option.splits)
        obtain ti td where t: "t = (ti, td)" by fastforce
        obtain a st2 where push: "push_ancestor 0 ti td None ?st = Ret (a, st2)" and ok2: "wm_ok st2"
          and kp2: "wm_keeps ?st st2" and ch: "chain_rel st2 a [(ti, td)]"
          using step_push [OF ok1 chain_rel_nil s] by blast
        have "item_rel st2 (?it\<lparr>ancestor := a\<rparr>) (spec_root (wm_conf st) F root)"
          using keeps_path_rel [OF kp2 p] ch by (simp add: item_rel_def spec_root_def fl info Some t)
        moreover have "Walk E root st = Ret (?it\<lparr>ancestor := a\<rparr>, st2)"
          using push by (simp add: Walk_def z Let_def fl stat info Some t)
        ultimately show ?thesis using ok2 wm_keeps_trans [OF kp1 kp2] by blast
      qed
    qed
  qed
qed

lemma Walk_ok:
  assumes "wm_ok st" and "view_ok E F"
  shows "\<exists>it st'. Walk E root st = Ret (it, st') \<and> wm_ok st' \<and> wm_keeps st st' \<and>
           item_rel st' it (spec_root (wm_conf st) F root)"
  using Walk_stat_ok [OF assms(1)] assms(2) by (simp add: view_ok_def)

text \<open>Starting a walk never fails, whatever the file system.\<close>

lemma Walk_starts: "wm_ok st \<Longrightarrow> \<exists>it st'. Walk E root st = Ret (it, st')"
  using Walk_stat_ok [of st "\<lparr>fs_list = \<lambda>_. ([], None), fs_stat = os_Stat E\<rparr>" E root] by auto

text \<open>A walker with two workers, before and after \<open>Walk\<close>, to apply the theorems at.\<close>

lemma demo_walker:
  obtains st it st0 where "NewWalkmanWithConfig fl 0 [] \<lparr>PoolSize = 2, InitialWorkerCap = 64, ResultBuffSize = 256\<rparr> = Ret st"
    and "wm_ok st" and "wm_conf st = demo_conf fl 0" and "length (wm_workers st) = 2"
    and "Walk demo_env [116] st = Ret (it, st0)" and "wm_ok st0" and "wm_conf st0 = demo_conf fl 0"
    and "length (wm_workers st0) = 2" and "item_rel st0 it (spec_root (demo_conf fl 0) demo_view [116])"
proof -
  obtain st where st: "NewWalkmanWithConfig fl 0 [] \<lparr>PoolSize = 2, InitialWorkerCap = 64, ResultBuffSize = 256\<rparr> = Ret st"
    "wm_ok st" "wm_conf st = demo_conf fl 0" "length (wm_workers st) = 2"
    using NewWalkmanWithConfig_ok [of "\<lparr>PoolSize = 2, InitialWorkerCap = 64, ResultBuffSize = 256\<rparr>" fl 0 "[]"]
    by (auto simp: demo_conf_def pool_fits_iff)
  obtain it st0 where "Walk demo_env [116] st = Ret (it, st0)" "wm_ok st0" "wm_keeps st st0"
    "item_rel st0 it (spec_root (wm_conf st) demo_view [116])"
    using Walk_ok [OF st(2) demo_view_ok] by blast
  then show ?thesis using st that wm_keepsD(5,6) [of st st0] by simp
qed

text \<open>
  C4. \<open>visit\<close> implements its specification. On a well-formed walker, for an item that stands
  for the path \<open>path a\<close>, the task returns; its batch reads as the listing of that directory
  minus dot entries and skipped names, or as the one error of a directory that could not be
  read; the items it spawns stand for the subdirectories, in order, one deeper, none at the
  depth limit; the state is well-formed again; and every string, batch and item that was
  readable before reads the same.
\<close>

theorem visit_refines:
  assumes "wm_ok st" and "i < length (wm_workers st)" and "item_rel st it a" and "view_ok E F"
  shows "\<exists>b items st'. visit E i it st = Ret (b, items, st') \<and> wm_ok st' \<and>
           batch_rel st' b (fst (spec_visit (wm_conf st) F a)) \<and>
           list_all2 (item_rel st') items (snd (spec_visit (wm_conf st) F a)) \<and>
           (\<forall>s v. str_rel st s v \<longrightarrow> str_rel st' s v) \<and>
           (\<forall>ob oa. batch_rel st ob oa \<longrightarrow> batch_rel st' ob oa) \<and>
           (\<forall>oi oa. item_rel st oi oa \<longrightarrow> item_rel st' oi oa)"
proof -
  obtain b items st' where r: "visit E i it st = Ret (b, items, st')" "wm_ok st'"
    "batch_rel st' b (fst (spec_visit (wm_conf st) F a))"
    "list_all2 (item_rel st') items (snd (spec_visit (wm_conf st) F a))" and kp: "wm_keeps st st'"
    using visit_ok [OF assms] unfolding task_ok_def by blast
  show ?thesis
    using r keeps_str_rel [OF kp] keeps_batch_rel [OF kp] keeps_item_rel [OF kp] by blast
qed

theorem visit_refines_witness:
  "\<exists>st it b items st'. visit demo_env 1 it st = Ret (b, items, st') \<and>
     batch_rel st' b \<lparr>b_dir = [116],
       b_entries = [demo_entry [97] 2 4, demo_entry [98] 3 8, demo_entry [108] 4 10], b_errs = []\<rparr>"
proof -
  obtain st it st0 where w: "wm_ok st0" "wm_conf st0 = demo_conf False 0" "length (wm_workers st0) = 2"
    "item_rel st0 it (spec_root (demo_conf False 0) demo_view [116])"
    by (rule demo_walker [of False])
  have "fst (spec_visit (demo_conf False 0) demo_view (spec_root (demo_conf False 0) demo_view [116])) =
      \<lparr>b_dir = [116], b_entries = [demo_entry [97] 2 4, demo_entry [98] 3 8, demo_entry [108] 4 10], b_errs = []\<rparr>"
    using demo_plain_root by (simp add: demo_root spec_task_def)
  then show ?thesis
    using visit_refines [OF w(1) _ w(4) demo_view_ok, of 1] w(2,3) by (metis one_less_numeral_iff semiring_norm(76))
qed

text \<open>
  C3. \<open>visitSym\<close> implements its specification. On a well-formed walker that follows links,
  for an item with its ancestor chain: if the specification gives a result, the task returns
  it, with the kept entries, the errors in order, and for every spawned item its chain; if
  the specification panics, so does the code, and it panics nowhere else; cycle detection
  always ends; and everything readable before reads the same.
\<close>

theorem visitSym_refines:
  assumes "wm_ok st" and "i < length (wm_workers st)" and "item_rel st it a" and "view_ok E F"
    and "followLinks (wm_conf st)"
  shows "case spec_visitSym (wm_conf st) F a of
      Ret (ab, kids) \<Rightarrow>
        (\<exists>b items st'. visitSym E i it st = Ret (b, items, st') \<and> wm_ok st' \<and>
           batch_rel st' b ab \<and> list_all2 (item_rel st') items kids \<and>
           (\<forall>s v. str_rel st s v \<longrightarrow> str_rel st' s v) \<and>
           (\<forall>ob oa. batch_rel st ob oa \<longrightarrow> batch_rel st' ob oa) \<and>
           (\<forall>oi oa. item_rel st oi oa \<longrightarrow> item_rel st' oi oa))
    | Panic p \<Rightarrow> visitSym E i it st = Panic p
    | Diverge \<Rightarrow> False"
proof (cases "spec_visitSym (wm_conf st) F a")
  case (Ret sp)
  then have "task_ok st (visitSym E i it st) sp" using visitSym_ok [OF assms] by simp
  then show ?thesis using wm_keeps_dest unfolding Ret task_ok_def by (cases sp) fastforce
qed (use visitSym_ok [OF assms] in simp_all)

theorem visitSym_refines_witness:
  "\<exists>st it b items st'. visitSym demo_env 0 it st = Ret (b, items, st') \<and>
     batch_rel st' b \<lparr>b_dir = [116], b_entries = [demo_entry [97] 2 4, demo_entry [98] 3 8],
       b_errs = [\<lparr>errName = [108], errErr = ErrSymlinkCycle\<rparr>]\<rparr>"
proof -
  obtain st it st0 where w: "wm_ok st0" "wm_conf st0 = demo_conf True 0" "length (wm_workers st0) = 2"
    "item_rel st0 it (spec_root (demo_conf True 0) demo_view [116])"
    by (rule demo_walker [of True])
  have i: "0 < length (wm_workers st0)" and fl: "followLinks (wm_conf st0)" using w(2,3) by simp_all
  show ?thesis
    using visitSym_refines [OF w(1) i w(4) demo_view_ok fl] demo_sym_root w(2)
    by (simp add: demo_root spec_task_def) blast
qed

section \<open>Runs of the pool\<close>

datatype walkrun =
    Walking (p_pending: "item list") (p_out: "DirBatch list") (p_state: walkman)
  | Crashed panic
  | Hung

inductive pool_step :: "env \<Rightarrow> walkrun \<Rightarrow> walkrun \<Rightarrow> bool" for E :: env where
  task: "j < length pend \<Longrightarrow> i < length (wm_workers st) \<Longrightarrow>
     execute E i (pend ! j) st = Ret (b, items, st') \<Longrightarrow>
     pool_step E (Walking pend out st)
       (Walking (take j pend @ drop (Suc j) pend @ items) (out @ [b]) st')"
| crash: "j < length pend \<Longrightarrow> i < length (wm_workers st) \<Longrightarrow>
     execute E i (pend ! j) st = Panic p \<Longrightarrow> pool_step E (Walking pend out st) (Crashed p)"
| hang: "j < length pend \<Longrightarrow> i < length (wm_workers st) \<Longrightarrow>
     execute E i (pend ! j) st = Diverge \<Longrightarrow> pool_step E (Walking pend out st) Hung"

inductive_cases pool_stepE: "pool_step E (Walking pend out st) s"
inductive_simps pool_step_Crashed [simp]: "pool_step E (Crashed p) s"
inductive_simps pool_step_Hung [simp]: "pool_step E Hung s"

section \<open>The reference walk\<close>

inductive forest :: "walkConf \<Rightarrow> fsview \<Rightarrow> aitem list \<Rightarrow> batch list \<Rightarrow> bool"
  for c :: walkConf and F :: fsview where
  nil: "forest c F [] []"
| tree: "spec_task c F a = Ret (b, as) \<Longrightarrow> forest c F as bs \<Longrightarrow> forest c F rest bs' \<Longrightarrow>
     forest c F (a # rest) (b # bs @ bs')"

inductive_simps forest_Nil [simp]: "forest c F [] bs"
inductive_cases forest_ConsE: "forest c F (a # rest) bs"

lemma forest_append:
  "forest c F (xs @ ys) bs \<longleftrightarrow> (\<exists>bx by'. bs = bx @ by' \<and> forest c F xs bx \<and> forest c F ys by')"
proof (induction xs arbitrary: bs)
  case Nil
  then show ?case by simp
next
  case (Cons a xs)
  show ?case
  proof
    assume "forest c F ((a # xs) @ ys) bs"
    then obtain b as b1 b2 where "spec_task c F a = Ret (b, as)" "forest c F as b1" "forest c F (xs @ ys) b2"
      and bs: "bs = b # b1 @ b2"
      by (auto elim: forest_ConsE)
    moreover obtain bx by' where "b2 = bx @ by'" "forest c F xs bx" "forest c F ys by'"
      using Cons.IH \<open>forest c F (xs @ ys) b2\<close> by blast
    ultimately show "\<exists>bx by'. bs = bx @ by' \<and> forest c F (a # xs) bx \<and> forest c F ys by'"
      by (intro exI [of _ "b # b1 @ bx"] exI [of _ by']) (auto intro: forest.tree)
  next
    assume "\<exists>bx by'. bs = bx @ by' \<and> forest c F (a # xs) bx \<and> forest c F ys by'"
    then obtain b as b1 b2 by' where "spec_task c F a = Ret (b, as)" "forest c F as b1" "forest c F xs b2"
      "forest c F ys by'" and bs: "bs = (b # b1 @ b2) @ by'"
      by (auto elim: forest_ConsE)
    moreover have "forest c F (xs @ ys) (b2 @ by')" using Cons.IH calculation by blast
    ultimately show "forest c F ((a # xs) @ ys) bs"
      using forest.tree [of c F a b as b1 "xs @ ys" "b2 @ by'"] by simp
  qed
qed

lemma forest_det: "forest c F as bs \<Longrightarrow> forest c F as bs' \<Longrightarrow> bs = bs'"
proof (induction arbitrary: bs' rule: forest.induct)
  case nil
  then show ?case by simp
next
  case (tree a b as bs rest bs2)
  from tree.prems obtain b' as' c1 c2 where
    "spec_task c F a = Ret (b', as')" "forest c F as' c1" "forest c F rest c2" "bs' = b' # c1 @ c2"
    by (auto elim: forest_ConsE)
  then show ?case using tree by auto
qed

text \<open>Taking any pending item out and putting its children at the end loses nothing.\<close>

lemma forest_pick:
  assumes "forest c F as bs" and "j < length as"
  shows "\<exists>b kids bs'. spec_task c F (as ! j) = Ret (b, kids) \<and>
           forest c F (take j as @ drop (Suc j) as @ kids) bs' \<and> mset bs = add_mset b (mset bs')"
proof -
  have "forest c F (take j as @ as ! j # drop (Suc j) as) bs"
    using assms by (simp add: id_take_nth_drop [symmetric])
  then obtain b1 b b2 b3 kids where f: "forest c F (take j as) b1" "forest c F kids b2"
    "forest c F (drop (Suc j) as) b3" and t: "spec_task c F (as ! j) = Ret (b, kids)"
    and bs: "bs = b1 @ b # b2 @ b3"
    by (auto simp: forest_append elim: forest_ConsE)
  then have "forest c F (take j as @ drop (Suc j) as @ kids) (b1 @ b3 @ b2)"
    by (auto simp: forest_append)
  then show ?thesis using t bs by (intro exI [of _ b] exI [of _ kids] exI [of _ "b1 @ b3 @ b2"]) auto
qed

section \<open>Every run delivers the reference walk\<close>

text \<open>
  A run so far against the walk \<open>all\<close>: the batches \<open>aout\<close> it has sent and the part \<open>left\<close>
  that is still to come.
\<close>

definition run_rel ::
  "walkConf \<Rightarrow> fsview \<Rightarrow> batch list \<Rightarrow> walkrun \<Rightarrow> batch list \<Rightarrow> batch list \<Rightarrow> bool" where
  "run_rel c F all s aout left \<longleftrightarrow>
     (\<exists>pend out st apend. s = Walking pend out st \<and> wm_ok st \<and> wm_conf st = c \<and>
        wm_workers st \<noteq> [] \<and>
        list_all2 (item_rel st) pend apend \<and> list_all2 (batch_rel st) out aout \<and>
        forest c F apend left \<and> mset all = mset aout + mset left)"

lemma run_rel_step:
  assumes rel: "run_rel c F all s aout left" and step: "pool_step E s s'" and view: "view_ok E F"
  shows "\<exists>b left'. run_rel c F all s' (aout @ [b]) left' \<and> length left = Suc (length left')"
proof -
  obtain pend out st apend where s: "s = Walking pend out st" and ok: "wm_ok st"
    and c: "wm_conf st = c" and ne: "wm_workers st \<noteq> []"
    and ps: "list_all2 (item_rel st) pend apend" and os: "list_all2 (batch_rel st) out aout"
    and fo: "forest c F apend left" and ms: "mset all = mset aout + mset left"
    using rel by (auto simp: run_rel_def)
  obtain j i where j: "j < length pend" and i: "i < length (wm_workers st)"
    and cases: "(\<exists>b items st'. execute E i (pend ! j) st = Ret (b, items, st') \<and>
        s' = Walking (take j pend @ drop (Suc j) pend @ items) (out @ [b]) st') \<or>
      (\<exists>p. execute E i (pend ! j) st = Panic p) \<or> execute E i (pend ! j) st = Diverge"
    using step s by (auto elim!: pool_stepE)
  have ir: "item_rel st (pend ! j) (apend ! j)" and ja: "j < length apend"
    using ps j by (auto simp: list_all2_conv_all_nth)
  obtain ab kids left' where t: "spec_task c F (apend ! j) = Ret (ab, kids)"
    and fo': "forest c F (take j apend @ drop (Suc j) apend @ kids) left'"
    and ml: "mset left = add_mset ab (mset left')"
    using forest_pick [OF fo ja] by blast
  obtain b items st' where ex: "execute E i (pend ! j) st = Ret (b, items, st')" and ok': "wm_ok st'"
    and kp: "wm_keeps st st'" and br: "batch_rel st' b ab" and its: "list_all2 (item_rel st') items kids"
    using execute_ok [OF ok i ir view] t c by (auto simp: task_ok_def)
  have s': "s' = Walking (take j pend @ drop (Suc j) pend @ items) (out @ [b]) st'"
    using cases ex by auto
  have "list_all2 (item_rel st') pend apend"
    using ps by (rule list_all2_mono) (rule keeps_item_rel [OF kp])
  then have "list_all2 (item_rel st') (take j pend @ drop (Suc j) pend @ items)
      (take j apend @ drop (Suc j) apend @ kids)"
    using its by (intro list_all2_appendI) auto
  moreover have "list_all2 (batch_rel st') (out @ [b]) (aout @ [ab])"
    using os br keeps_batch_rel [OF kp] by (intro list_all2_appendI) (auto elim!: list_all2_mono)
  moreover have "wm_workers st' \<noteq> []" "wm_conf st' = c" using ne c wm_keepsD(5,6) [OF kp] by auto
  ultimately have "run_rel c F all s' (aout @ [ab]) left'"
    using s' ok' fo' ms ml unfolding run_rel_def by fastforce
  moreover have "length left = Suc (length left')" using arg_cong [OF ml, of size] by simp
  ultimately show ?thesis by blast
qed

lemma run_rel_progress:
  assumes "run_rel c F all s aout left" and "view_ok E F"
  shows "left = [] \<longleftrightarrow> p_pending s = []" and "left \<noteq> [] \<Longrightarrow> \<exists>s'. pool_step E s s'"
proof -
  obtain pend out st apend where s: "s = Walking pend out st" and ok: "wm_ok st"
    and c: "wm_conf st = c" and ne: "wm_workers st \<noteq> []"
    and ps: "list_all2 (item_rel st) pend apend" and fo: "forest c F apend left"
    using assms(1) by (auto simp: run_rel_def)
  have "left = [] \<longleftrightarrow> apend = []" using fo by (auto elim: forest.cases)
  then show e: "left = [] \<longleftrightarrow> p_pending s = []" using ps s by auto
  assume "left \<noteq> []"
  then have j: "0 < length pend" using e s by auto
  have "\<exists>r. execute E 0 (pend ! 0) st = r" by simp
  then show "\<exists>s'. pool_step E s s'"
    unfolding s using j ne
    by (cases "execute E 0 (pend ! 0) st") (auto intro: pool_step.intros [of 0 _ 0])
qed

lemma run_rel_steps:
  assumes "(pool_step E ^^ k) s s'" and "run_rel c F all s aout left" and "view_ok E F"
  shows "\<exists>aout' left'. run_rel c F all s' aout' left' \<and> length left = k + length left'"
  using assms(1)
proof (induction k arbitrary: s')
  case 0
  then show ?case using assms(2) by auto
next
  case (Suc k)
  then obtain s1 where 1: "(pool_step E ^^ k) s s1" and 2: "pool_step E s1 s'" by auto
  obtain a1 l1 where l1: "run_rel c F all s1 a1 l1" "length left = k + length l1" using Suc.IH [OF 1] by blast
  from run_rel_step [OF l1(1) 2 assms(3)] l1(2) show ?case by auto
qed

text \<open>A walk that starts on a well-formed walker is at the beginning of such a run.\<close>

lemma run_rel_Walk:
  assumes "wm_ok st" and "wm_workers st \<noteq> []" and "view_ok E F"
    and "forest (wm_conf st) F [spec_root (wm_conf st) F root] bs"
  obtains it st0 where "Walk E root st = Ret (it, st0)"
    and "run_rel (wm_conf st) F bs (Walking [it] [] st0) [] bs"
proof -
  obtain it st0 where w: "Walk E root st = Ret (it, st0)" and ok: "wm_ok st0" and kp: "wm_keeps st st0"
    and it: "item_rel st0 it (spec_root (wm_conf st) F root)"
    using Walk_ok [OF assms(1,3)] by blast
  have "run_rel (wm_conf st) F bs (Walking [it] [] st0) [] bs"
    using ok it assms(2,4) wm_keepsD(5,6) [OF kp] unfolding run_rel_def
    by (intro exI [of _ "[it]"] exI [of _ "[]"] exI [of _ st0] exI [of _ "[spec_root (wm_conf st) F root]"]) auto
  then show ?thesis using that w by blast
qed

text \<open>
  C1. Whatever the schedule, the walk delivers the directory tree. From a well-formed walker
  with at least one worker, for a file system whose walk from the root is the finite list of
  batches \<open>bs\<close>: every run makes at most \<open>length bs\<close> steps, never crashes and never hangs; it
  is over exactly after \<open>length bs\<close> steps, and then the batches it has sent, read at that
  time, are a permutation of \<open>bs\<close>; before that it can always go on.
\<close>

theorem walk_delivers_tree:
  assumes "wm_ok st" and "wm_workers st \<noteq> []" and "view_ok E F"
    and "forest (wm_conf st) F [spec_root (wm_conf st) F root] bs"
  shows "\<exists>it st0. Walk E root st = Ret (it, st0) \<and>
           (\<forall>k s. (pool_step E ^^ k) (Walking [it] [] st0) s \<longrightarrow>
              k \<le> length bs \<and>
              (\<exists>pend out st'. s = Walking pend out st' \<and> (pend = [] \<longleftrightarrow> k = length bs) \<and>
                 (pend \<noteq> [] \<longrightarrow> (\<exists>s'. pool_step E s s')) \<and>
                 (pend = [] \<longrightarrow> (\<exists>abs. list_all2 (batch_rel st') out abs \<and> mset abs = mset bs))))"
proof -
  obtain it st0 where w: "Walk E root st = Ret (it, st0)"
    and init: "run_rel (wm_conf st) F bs (Walking [it] [] st0) [] bs"
    using assms by (rule run_rel_Walk)
  have "k \<le> length bs \<and>
      (\<exists>pend out st'. s = Walking pend out st' \<and> (pend = [] \<longleftrightarrow> k = length bs) \<and>
         (pend \<noteq> [] \<longrightarrow> (\<exists>s'. pool_step E s s')) \<and>
         (pend = [] \<longrightarrow> (\<exists>abs. list_all2 (batch_rel st') out abs \<and> mset abs = mset bs)))"
    if run: "(pool_step E ^^ k) (Walking [it] [] st0) s" for k s
  proof -
    obtain aout left where rel: "run_rel (wm_conf st) F bs s aout left" and len: "length bs = k + length left"
      using run_rel_steps [OF run init assms(3)] by blast
    note pr = run_rel_progress [OF rel assms(3)]
    obtain pend out st' where s: "s = Walking pend out st'"
      and os: "list_all2 (batch_rel st') out aout" and ms: "mset bs = mset aout + mset left"
      using rel unfolding run_rel_def by blast
    have "pend = [] \<longleftrightarrow> left = []" using pr(1) s by auto
    then show ?thesis using len pr(2) os ms s by auto
  qed
  then show ?thesis using w by blast
qed

section \<open>Runs that are over\<close>

text \<open>
  \<open>run_ends\<close>: the walk of \<open>root\<close> ends after exactly \<open>n\<close> tasks under every schedule and never
  crashes. \<open>walked\<close>: some run is over in state \<open>st'\<close>, and the batches it sent read as \<open>got\<close>.
\<close>

definition run_ends :: "env \<Rightarrow> gostring \<Rightarrow> walkman \<Rightarrow> nat \<Rightarrow> bool" where
  "run_ends E root st n \<longleftrightarrow>
     (\<exists>it st0. Walk E root st = Ret (it, st0) \<and>
        (\<forall>k s. (pool_step E ^^ k) (Walking [it] [] st0) s \<longrightarrow>
           k \<le> n \<and> (\<exists>pend out st'. s = Walking pend out st' \<and> (pend = [] \<longleftrightarrow> k = n) \<and>
             (pend \<noteq> [] \<longrightarrow> (\<exists>s'. pool_step E s s')))))"

definition walked :: "env \<Rightarrow> gostring \<Rightarrow> walkman \<Rightarrow> walkman \<Rightarrow> batch list \<Rightarrow> bool" where
  "walked E root st st' got \<longleftrightarrow>
     (\<exists>it st0 out k. Walk E root st = Ret (it, st0) \<and>
        (pool_step E ^^ k) (Walking [it] [] st0) (Walking [] out st') \<and>
        list_all2 (batch_rel st') out got)"

lemma forest_run_ends:
  assumes "wm_ok st" and "wm_workers st \<noteq> []" and "view_ok E F"
    and "forest (wm_conf st) F [spec_root (wm_conf st) F root] bs"
  shows "run_ends E root st (length bs)"
proof -
  obtain it st0 where w: "Walk E root st = Ret (it, st0)"
    and init: "run_rel (wm_conf st) F bs (Walking [it] [] st0) [] bs"
    using assms by (rule run_rel_Walk)
  have "k \<le> length bs \<and> (\<exists>pend out st'. s = Walking pend out st' \<and> (pend = [] \<longleftrightarrow> k = length bs) \<and>
      (pend \<noteq> [] \<longrightarrow> (\<exists>s'. pool_step E s s')))"
    if run: "(pool_step E ^^ k) (Walking [it] [] st0) s" for k s
  proof -
    obtain aout left where rel: "run_rel (wm_conf st) F bs s aout left" and len: "length bs = k + length left"
      using run_rel_steps [OF run init assms(3)] by blast
    obtain pend out st' where s: "s = Walking pend out st'" using rel by (auto simp: run_rel_def)
    show ?thesis using run_rel_progress [OF rel assms(3)] len s by auto
  qed
  then show ?thesis using w unfolding run_ends_def by blast
qed

lemma run_to_end:
  assumes "run_rel c F all s aout left" and "view_ok E F"
  shows "\<exists>k s' aout'. (pool_step E ^^ k) s s' \<and> run_rel c F all s' aout' []"
  using assms(1)
proof (induction "length left" arbitrary: s aout left)
  case 0
  then show ?case by (intro exI [of _ 0]) auto
next
  case (Suc n)
  have "left \<noteq> []" using Suc.hyps(2) by auto
  then obtain s1 where s1: "pool_step E s s1" using run_rel_progress(2) [OF Suc.prems assms(2)] by blast
  obtain b left' where r: "run_rel c F all s1 (aout @ [b]) left'" and l: "length left = Suc (length left')"
    using run_rel_step [OF Suc.prems s1 assms(2)] by blast
  obtain k s' aout' where "(pool_step E ^^ k) s1 s'" "run_rel c F all s' aout' []"
    using Suc.hyps(1) [OF _ r] Suc.hyps(2) l by auto
  then show ?case using relpowp_Suc_I2 [of "pool_step E" s s1 k s', OF s1] by blast
qed

lemma forest_walked:
  assumes "wm_ok st" and "wm_workers st \<noteq> []" and "view_ok E F"
    and "forest (wm_conf st) F [spec_root (wm_conf st) F root] bs"
  obtains st' got where "walked E root st st' got" and "mset got = mset bs"
proof -
  obtain it st0 where w: "Walk E root st = Ret (it, st0)"
    and init: "run_rel (wm_conf st) F bs (Walking [it] [] st0) [] bs"
    using assms by (rule run_rel_Walk)
  obtain k s aout where run: "(pool_step E ^^ k) (Walking [it] [] st0) s"
    and rel: "run_rel (wm_conf st) F bs s aout []"
    using run_to_end [OF init assms(3)] by blast
  obtain pend out st' where s: "s = Walking pend out st'" and os: "list_all2 (batch_rel st') out aout"
    and ms: "mset bs = mset aout"
    using rel by (auto simp: run_rel_def)
  have "pend = []" using run_rel_progress(1) [OF rel assms(3)] s by simp
  then have "walked E root st st' aout" using w run os s unfolding walked_def by blast
  then show ?thesis using that ms by simp
qed

text \<open>Conversely, a run that is over shows that the reference walk is finite.\<close>

lemma forest_unpick:
  assumes "forest c F (take j as @ drop (Suc j) as @ kids) bs" and "j < length as"
    and "spec_task c F (as ! j) = Ret (b, kids)"
  shows "\<exists>bs'. forest c F as bs'"
proof -
  obtain b1 b2 b3 where "forest c F (take j as) b1" "forest c F (drop (Suc j) as) b2" "forest c F kids b3"
    using assms(1) by (auto simp: forest_append)
  then have "forest c F (take j as @ as ! j # drop (Suc j) as) (b1 @ b # b3 @ b2)"
    using forest.tree [OF assms(3)] unfolding forest_append by blast
  then show ?thesis using assms(2) by (auto simp: id_take_nth_drop [symmetric])
qed

lemma run_over_forest:
  assumes "(pool_step E ^^ k) (Walking pend out st) (Walking [] out' st')" and "wm_ok st"
    and "list_all2 (item_rel st) pend apend" and "view_ok E F"
  shows "\<exists>bs. forest (wm_conf st) F apend bs"
  using assms(1-3)
proof (induction k arbitrary: pend out st apend)
  case 0
  then show ?case by auto
next
  case (Suc k)
  obtain s1 where 1: "pool_step E (Walking pend out st) s1" and run: "(pool_step E ^^ k) s1 (Walking [] out' st')"
    using Suc.prems(1) by (blast elim: relpowp_Suc_E2)
  have stuck: "s = s'" if "(pool_step E ^^ k) s s'" "\<And>x. \<not> pool_step E s x" for s s'
    using that(1)
  proof (cases k)
    case (Suc n)
    then show ?thesis using that relpowp_Suc_D2 [of n "pool_step E" s s'] by blast
  qed simp
  have no_crash: "(pool_step E ^^ k) (Crashed p) (Walking [] out' st') = False"
    "(pool_step E ^^ k) Hung (Walking [] out' st') = False" for p
    using stuck [of "Crashed p"] stuck [of Hung] by auto
  obtain j i b items st1 where j: "j < length pend" and i: "i < length (wm_workers st)"
    and ex: "execute E i (pend ! j) st = Ret (b, items, st1)"
    and s1: "s1 = Walking (take j pend @ drop (Suc j) pend @ items) (out @ [b]) st1"
    using 1 run no_crash by (auto elim!: pool_stepE)
  have ja: "j < length apend" and ir: "item_rel st (pend ! j) (apend ! j)"
    using Suc.prems(3) j by (auto simp: list_all2_conv_all_nth)
  obtain ab kids where t: "spec_task (wm_conf st) F (apend ! j) = Ret (ab, kids)"
    using execute_ok [OF Suc.prems(2) i ir assms(4)] ex
    by (cases "spec_task (wm_conf st) F (apend ! j)") auto
  have ok: "wm_ok st1" "wm_keeps st st1" "list_all2 (item_rel st1) items kids"
    using execute_ok [OF Suc.prems(2) i ir assms(4)] ex t by (auto simp: task_ok_def)
  have "list_all2 (item_rel st1) pend apend"
    using Suc.prems(3) by (rule list_all2_mono) (rule keeps_item_rel [OF ok(2)])
  then have "list_all2 (item_rel st1) (take j pend @ drop (Suc j) pend @ items)
      (take j apend @ drop (Suc j) apend @ kids)"
    using ok(3) by (intro list_all2_appendI) auto
  from Suc.IH [OF run [unfolded s1] ok(1) this] obtain bs
    where "forest (wm_conf st) F (take j apend @ drop (Suc j) apend @ kids) bs"
    using wm_keepsD(5) [OF ok(2)] by auto
  then show ?case using forest_unpick ja t by blast
qed

text \<open>What a run delivers is the reference walk, up to order.\<close>

lemma walked_forest:
  assumes "walked E root st st' got" and "wm_ok st" and "wm_workers st \<noteq> []" and "view_ok E F"
  obtains bs where "forest (wm_conf st) F [spec_root (wm_conf st) F root] bs" and "mset got = mset bs"
proof -
  obtain it st0 out k where w: "Walk E root st = Ret (it, st0)"
    and run: "(pool_step E ^^ k) (Walking [it] [] st0) (Walking [] out st')"
    and os: "list_all2 (batch_rel st') out got"
    using assms(1) by (auto simp: walked_def)
  have "wm_ok st0" "item_rel st0 it (spec_root (wm_conf st) F root)" "wm_conf st0 = wm_conf st"
    using Walk_ok [OF assms(2,4), of root] w wm_keepsD(5) by auto
  then obtain bs where f: "forest (wm_conf st) F [spec_root (wm_conf st) F root] bs"
    using run_over_forest [OF run _ _ assms(4)] by (metis list.rel_intros)
  obtain it' st0' where w': "Walk E root st = Ret (it', st0')"
    and init: "run_rel (wm_conf st) F bs (Walking [it'] [] st0') [] bs"
    using assms(2-4) f by (rule run_rel_Walk)
  obtain aout left where rel: "run_rel (wm_conf st) F bs (Walking [] out st') aout left"
    using run_rel_steps [OF _ init assms(4)] run w w' by fastforce
  have "left = []" using run_rel_progress(1) [OF rel assms(4)] by simp
  then have "list_all2 (batch_rel st') out aout" "mset bs = mset aout" using rel by (auto simp: run_rel_def)
  moreover have "got = aout"
    using os calculation(1) batch_rel_unique by (auto simp: list_all2_conv_all_nth list_eq_iff_nth_eq)
  ultimately show ?thesis using that f by simp
qed

lemma demo_forest:
  "forest (demo_conf fl 0) demo_view [spec_root (demo_conf fl 0) demo_view [116]] (demo_batches fl)"
proof -
  have leaf: "forest (demo_conf fl 0) demo_view [\<lparr>path = [116, 47, 97], depth = 2, ancestor = ids\<rparr>]
      [\<lparr>b_dir = [116, 47, 97], b_entries = [], b_errs = []\<rparr>]" for fl ids
    using forest.tree [OF demo_sub forest.nil forest.nil] by simp
  show ?thesis
    using forest.tree [OF demo_plain_root leaf forest.nil] forest.tree [OF demo_sym_root leaf forest.nil]
    by (cases fl) (simp_all add: demo_root demo_batches_def)
qed

text \<open>A walker for any mode and depth limit.\<close>

lemma demo_started:
  obtains st where "wm_ok st" and "wm_workers st \<noteq> []" and "wm_conf st = demo_conf fl md"
proof -
  obtain st where "wm_ok st" "wm_conf st = demo_conf fl md" "length (wm_workers st) = 2"
    using NewWalkmanWithConfig_ok [of "\<lparr>PoolSize = 2, InitialWorkerCap = 64, ResultBuffSize = 256\<rparr>" fl md "[]"]
    by (auto simp: demo_conf_def pool_fits_iff)
  then show ?thesis using that by force
qed

text \<open>A run of the demo that is over.\<close>

lemma demo_walked:
  obtains st st' got where "wm_ok st" and "wm_workers st \<noteq> []" and "wm_conf st = demo_conf fl 0"
    and "walked demo_env [116] st st' got" and "mset got = mset (demo_batches fl)"
proof -
  obtain st it0 st1 where w: "wm_ok st" "wm_conf st = demo_conf fl 0" "length (wm_workers st) = 2"
    by (rule demo_walker [of fl])
  then have ne: "wm_workers st \<noteq> []" by auto
  obtain st' got where "walked demo_env [116] st st' got" "mset got = mset (demo_batches fl)"
    by (rule forest_walked [OF w(1) ne demo_view_ok demo_forest [of fl, folded w(2)]])
  then show ?thesis using that w ne by blast
qed

theorem walk_delivers_tree_witness:
  "\<exists>st it st0. Walk demo_env [116] st = Ret (it, st0) \<and>
     (\<forall>s. (pool_step demo_env ^^ 2) (Walking [it] [] st0) s \<longrightarrow>
        (\<exists>out st' abs. s = Walking [] out st' \<and> list_all2 (batch_rel st') out abs \<and>
           mset abs = {#\<lparr>b_dir = [116], b_entries = [demo_entry [97] 2 4, demo_entry [98] 3 8],
                          b_errs = [\<lparr>errName = [108], errErr = ErrSymlinkCycle\<rparr>]\<rparr>,
                        \<lparr>b_dir = [116, 47, 97], b_entries = [], b_errs = []\<rparr>#}))"
proof -
  obtain st it0 st1 where w: "wm_ok st" "wm_conf st = demo_conf True 0" "length (wm_workers st) = 2"
    by (rule demo_walker [of True])
  then have ne: "wm_workers st \<noteq> []" by auto
  let ?bs = "[\<lparr>b_dir = [116], b_entries = [demo_entry [97] 2 4, demo_entry [98] 3 8],
       b_errs = [\<lparr>errName = [108], errErr = ErrSymlinkCycle\<rparr>]\<rparr>,
      \<lparr>b_dir = [116, 47, 97], b_entries = [], b_errs = []\<rparr>]"
  obtain it st0 where walk: "Walk demo_env [116] st = Ret (it, st0)"
    and all: "\<forall>k s. (pool_step demo_env ^^ k) (Walking [it] [] st0) s \<longrightarrow> k \<le> length ?bs \<and>
      (\<exists>pend out st'. s = Walking pend out st' \<and> (pend = [] \<longleftrightarrow> k = length ?bs) \<and>
         (pend \<noteq> [] \<longrightarrow> (\<exists>s'. pool_step demo_env s s')) \<and>
         (pend = [] \<longrightarrow> (\<exists>abs. list_all2 (batch_rel st') out abs \<and> mset abs = mset ?bs)))"
    using walk_delivers_tree [OF w(1) ne demo_view_ok demo_forest [of True, folded w(2)]]
    unfolding demo_batches_simps by blast
  have "\<exists>out st' abs. s = Walking [] out st' \<and> list_all2 (batch_rel st') out abs \<and> mset abs = mset ?bs"
    if run: "(pool_step demo_env ^^ 2) (Walking [it] [] st0) s" for s
  proof -
    obtain pend out st' where s: "s = Walking pend out st'" and fin: "pend = [] \<longleftrightarrow> 2 = length ?bs"
      and out: "pend = [] \<longrightarrow> (\<exists>abs. list_all2 (batch_rel st') out abs \<and> mset abs = mset ?bs)"
      using all [rule_format, OF run] by blast
    have "pend = []" using fin by simp
    then show ?thesis using s out by blast
  qed
  then show ?thesis using walk by (intro exI [of _ st] exI [of _ it] exI [of _ st0]) simp
qed

end
