(* ===== verification/Conc_Tasks.thy ===== *)
theory Conc_Tasks
  imports Walk_Run
begin

text \<open>
  The tasks of \<open>walkman.go\<close> as programs whose steps other workers can interleave with. A
  \<open>task\<close> is what a worker has still to do: an operation on the shared state, the send of its
  batch on the result channel, the call of \<open>spawn\<close>, or the return. One operation is one
  directory read, one store of a path, one reservation of entries, one error, one pass of the
  loop body of \<open>visitSym\<close> or one pass of the loop of \<open>visit\<close>. A worker that runs such a program
  with nobody else about computes \<open>visit\<close> and \<open>visitSym\<close>.
\<close>

section \<open>Programs\<close>

datatype task =
    Finish
  | Send DirBatch task
  | Spawn "item list" task
  | Act "walkman \<Rightarrow> (task \<times> walkman) outcome"

text \<open>\<open>if len(spawnBuf) != 0\<close>.\<close>

definition spawn_all :: "item list \<Rightarrow> task" where
  "spawn_all buf = (if buf = [] then Finish else Spawn buf Finish)"

definition send_failed :: "item \<Rightarrow> err \<Rightarrow> task" where
  "send_failed item e =
     Act (\<lambda>st. case failed_batch item e st of (b, st) \<Rightarrow> Ret (Send b Finish, st))"

section \<open>The plain task\<close>

fun spawn_dirs_task :: "nat \<Rightarrow> item \<Rightarrow> span \<Rightarrow> nat list \<Rightarrow> item list \<Rightarrow> task" where
  "spawn_dirs_task i item ents [] buf = spawn_all buf"
| "spawn_dirs_task i item ents (k # ks) buf =
     Act (\<lambda>st.
       let e = mcell (h_ent st) (sp_blk ents) (sp_off ents + k) in
       if IsDir e then
         obind (store_path_z i (path item) (entName e) st) (\<lambda>(p, st).
           Ret (spawn_dirs_task i item ents ks
                  (buf @ [\<lparr>path = p, depth = depth item + 1, ancestor = None\<rparr>]), st))
       else Ret (spawn_dirs_task i item ents ks buf, st))"

definition visit_store :: "nat \<Rightarrow> item \<Rightarrow> sEntry list \<Rightarrow> task" where
  "visit_store i item scratch =
     Act (\<lambda>st. case store_entries i scratch st of
       (entries, st) \<Rightarrow>
         Ret (Send \<lparr>Dir = path item, Entries = entries, Errs = None\<rparr>
                (if at_max_depth st item then Finish
                 else (case entries of
                         None \<Rightarrow> Finish
                       | Some ents \<Rightarrow> spawn_dirs_task i item ents [0..<sp_len ents] [])), st))"

definition visit_task :: "env \<Rightarrow> nat \<Rightarrow> item \<Rightarrow> task" where
  "visit_task E i item =
     Act (\<lambda>st. obind (readEntries E i item st) (\<lambda>(scratch, _, err, st).
       Ret (case err of Some e \<Rightarrow> send_failed item e | None \<Rightarrow> visit_store i item scratch, st)))"

section \<open>The symlink-following task\<close>

definition sym_finish :: "nat \<Rightarrow> item \<Rightarrow> nat \<Rightarrow> sEntry list \<Rightarrow> item list \<Rightarrow> task" where
  "sym_finish i item errsOff scratch spawnBuf =
     Act (\<lambda>st. case store_entries i scratch st of
       (entries, st) \<Rightarrow>
         Ret (Act (\<lambda>st. obind (sliceDirErr errsOff (ws_results (worker_of st i))) (\<lambda>errs.
                Ret (Send \<lparr>Dir = path item, Entries = entries, Errs = Some errs\<rparr> (spawn_all spawnBuf), st))),
              st))"

fun sym_loop_task ::
  "env \<Rightarrow> nat \<Rightarrow> item \<Rightarrow> bool \<Rightarrow> bool \<Rightarrow> nat \<Rightarrow> nat list \<Rightarrow> nat \<Rightarrow> sEntry list \<Rightarrow> item list \<Rightarrow> task" where
  "sym_loop_task E i item sawLink atMax errsOff [] keep scratch spawnBuf =
     sym_finish i item errsOff (take keep scratch) spawnBuf"
| "sym_loop_task E i item sawLink atMax errsOff (k # ks) keep scratch spawnBuf =
     Act (\<lambda>st. obind (sym_step E i item sawLink atMax (scratch ! k) st) (\<lambda>(kept, child, st).
       let spawnBuf = (case child of None \<Rightarrow> spawnBuf | Some c \<Rightarrow> spawnBuf @ [c]) in
       Ret (case kept of
              None \<Rightarrow> sym_loop_task E i item sawLink atMax errsOff ks keep scratch spawnBuf
            | Some e \<Rightarrow>
                sym_loop_task E i item sawLink atMax errsOff ks (Suc keep) (scratch[keep := e]) spawnBuf, st)))"

definition visitSym_task :: "env \<Rightarrow> nat \<Rightarrow> item \<Rightarrow> task" where
  "visitSym_task E i item =
     Act (\<lambda>st. obind (readEntries E i item st) (\<lambda>(scratch, sawLink, err, st).
       Ret (case err of
              Some e \<Rightarrow> send_failed item e
            | None \<Rightarrow>
                sym_loop_task E i item sawLink (at_max_depth st item)
                  (getDirErrMark (ws_results (worker_of st i))) [0..<length scratch] 0 scratch [], st)))"

definition execute_task :: "env \<Rightarrow> bool \<Rightarrow> nat \<Rightarrow> item \<Rightarrow> task" where
  "execute_task E follow i item = (if follow then visitSym_task E i item else visit_task E i item)"

section \<open>A task alone\<close>

primrec run_task :: "task \<Rightarrow> walkman \<Rightarrow> (DirBatch list \<times> item list \<times> walkman) outcome" where
  "run_task Finish = (\<lambda>st. Ret ([], [], st))"
| "run_task (Send b t) = (\<lambda>st. obind (run_task t st) (\<lambda>(bs, items, st). Ret (b # bs, items, st)))"
| "run_task (Spawn items t) = (\<lambda>st. obind (run_task t st) (\<lambda>(bs, items', st). Ret (bs, items @ items', st)))"
| "run_task (Act f) =
     (\<lambda>st. obind (((map_outcome (map_prod run_task id)) \<circ> f) st) (\<lambda>(g, st). g st))"

lemma run_Act: "run_task (Act f) st = obind (f st) (\<lambda>(t, st). run_task t st)"
  by (cases "f st") auto

declare run_task.simps(4) [simp del]

lemmas run_simps = run_Act obind_assoc case_prod_unfold

lemma run_spawn_all [simp]: "run_task (spawn_all buf) st = Ret ([], buf, st)"
  by (simp add: spawn_all_def)

lemma run_send_failed: "run_task (send_failed item e) st =
    (case failed_batch item e st of (b, st) \<Rightarrow> Ret ([b], [], st))"
  by (simp add: send_failed_def run_Act split: prod.split)

lemma run_spawn_dirs:
  "run_task (spawn_dirs_task i item ents ks buf) st =
     obind (spawn_dirs i item ents ks st) (\<lambda>(items, st). Ret ([], buf @ items, st))"
proof (induction ks arbitrary: buf st)
  case (Cons k ks)
  then show ?case by (simp add: run_Act Let_def obind_assoc case_prod_unfold)
qed simp

lemma run_sym_finish:
  "run_task (sym_finish i item errsOff scratch spawnBuf) st =
     (case store_entries i scratch st of (entries, st) \<Rightarrow>
        obind (sliceDirErr errsOff (ws_results (worker_of st i))) (\<lambda>errs.
          Ret ([\<lparr>Dir = path item, Entries = entries, Errs = Some errs\<rparr>], spawnBuf, st)))"
  by (simp add: sym_finish_def run_Act obind_assoc split: prod.split)

lemma run_sym_loop:
  "run_task (sym_loop_task E i item saw atMax off [k..<length scr] keep scr buf) st =
     obind (sym_loop E i item saw atMax k keep scr buf st) (\<lambda>(scr, keep, buf, st).
       run_task (sym_finish i item off (take keep scr) buf) st)"
proof (induction "length scr - k" arbitrary: k keep scr buf st)
  case 0
  then show ?case by (subst sym_loop.simps) simp
next
  case (Suc n)
  then have k: "k < length scr" and n: "n = length scr - Suc k" by auto
  have upt: "[k..<length scr] = k # [Suc k..<length scr]" using k by (rule upt_conv_Cons)
  have ih: "run_task (sym_loop_task E i item saw atMax off [Suc k..<length scr] keep' scr' buf') st' =
      obind (sym_loop E i item saw atMax (Suc k) keep' scr' buf' st') (\<lambda>(scr, keep, buf, st).
       run_task (sym_finish i item off (take keep scr) buf) st)" if "length scr' = length scr" for keep' scr' buf' st'
    using Suc.hyps(1) [of scr' "Suc k" keep' buf' st'] n that by simp
  show ?case
    unfolding upt
    by (subst sym_loop.simps)
      (auto simp: run_Act k obind_assoc ih case_prod_unfold Let_def intro!: arg_cong2 [of _ _ _ _ obind] split: option.split)
qed

lemma run_visit_task:
  assumes "i < length (wm_workers st)"
  shows "run_task (visit_task E i item) st = obind (visit E i item st) (\<lambda>(b, items, st'). Ret ([b], items, st'))"
proof (cases "readEntries E i item st")
  case (Ret r)
  obtain scratch saw err st1 where r: "r = (scratch, saw, err, st1)" by (cases r) auto
  obtain entries st2 where se: "store_entries i scratch st1 = (entries, st2)" by fastforce
  show ?thesis
  proof (cases err)
    case (Some e)
    then show ?thesis
      using assms Ret r
      by (simp add: visit_task_def run_Act run_send_failed visit_def visit_with_def visit_read_def split: prod.split)
  next
    case None
    have "run_task (visit_store i item scratch) st1 =
        obind (visit_spawn i item entries st2) (\<lambda>(items, st). Ret ([\<lparr>Dir = path item, Entries = entries, Errs = None\<rparr>], items, st))"
      by (auto simp: visit_store_def run_Act se visit_spawn_def run_spawn_dirs obind_assoc case_prod_unfold split: option.split)
    then show ?thesis
      using assms Ret r None se
      by (simp add: visit_task_def run_Act visit_def visit_with_def visit_read_def obind_assoc case_prod_unfold)
  qed
qed (use assms in \<open>simp_all add: visit_task_def run_Act visit_def visit_with_def visit_read_def\<close>)

lemma run_visitSym_task:
  assumes "i < length (wm_workers st)"
  shows "run_task (visitSym_task E i item) st = obind (visitSym E i item st) (\<lambda>(b, items, st'). Ret ([b], items, st'))"
proof (cases "readEntries E i item st")
  case (Ret r)
  obtain scratch saw err st1 where r: "r = (scratch, saw, err, st1)" by (cases r) auto
  show ?thesis
    using assms Ret r
    by (cases err)
      (simp_all add: visitSym_task_def run_Act run_send_failed run_sym_loop run_sym_finish visitSym_def Let_def
        obind_assoc case_prod_unfold)
qed (use assms in \<open>simp_all add: visitSym_task_def run_Act visitSym_def\<close>)

text \<open>
  A task that nobody interleaves with is the task of the sequential model: run alone, the
  program of \<open>visit\<close> or \<open>visitSym\<close> sends the one batch, spawns the items and leaves the state
  that the sequential definition gives, and panics or diverges exactly when it does.
\<close>

lemma task_alone:
  assumes "i < length (wm_workers st)"
  shows "run_task (execute_task E (followLinks (wm_conf st)) i item) st =
           obind (execute E i item st) (\<lambda>(b, items, st'). Ret ([b], items, st'))"
  using run_visit_task [OF assms] run_visitSym_task [OF assms]
  by (simp add: execute_task_def execute_def)

end
