(* ===== verification/Conc_Refine.thy ===== *)
theory Conc_Refine
  imports Conc_Tasks
begin

text \<open>
  What a task promises while others interfere. Between two of its operations the other
  workers may do anything that keeps the walker well-formed, leaves this worker's own state
  alone and overwrites no cell that was handed out (\<open>rely\<close>); every operation of the task gives
  the others the same (\<open>guar\<close>). \<open>sim\<close> says that a program, under such interference, sends the
  batch and spawns the items of the specification and then returns; its first number bounds
  the steps it has left.
\<close>

section \<open>Rely and guarantee\<close>

definition rely :: "nat \<Rightarrow> walkman \<Rightarrow> walkman \<Rightarrow> bool" where
  "rely i st st' \<longleftrightarrow> wm_ok st' \<and> wm_keeps st st' \<and> worker_of st' i = worker_of st i"

definition guar :: "nat \<Rightarrow> walkman \<Rightarrow> walkman \<Rightarrow> bool" where
  "guar i st st' \<longleftrightarrow> wm_ok st' \<and> wm_keeps st st' \<and> (\<forall>j. j \<noteq> i \<longrightarrow> worker_of st' j = worker_of st j)"

lemma rely_refl: "wm_ok st \<Longrightarrow> rely i st st"
  by (simp add: rely_def)

lemma rely_trans: "rely i a b \<Longrightarrow> rely i b c \<Longrightarrow> rely i a c"
  by (auto simp: rely_def elim: wm_keeps_trans)

lemma guar_rely: "guar i st st' \<Longrightarrow> j \<noteq> i \<Longrightarrow> rely j st st'"
  by (simp add: guar_def rely_def)

lemma rely_keeps: "rely i st st' \<Longrightarrow> wm_keeps st st'"
  by (simp add: rely_def)

text \<open>Every operation of worker \<open>i\<close> leaves the state of the other workers alone.\<close>

definition only :: "nat \<Rightarrow> walkman \<Rightarrow> walkman \<Rightarrow> bool" where
  "only i st st' \<longleftrightarrow> (\<forall>j. j \<noteq> i \<longrightarrow> worker_of st' j = worker_of st j)"

lemma only_refl [simp]: "only i st st"
  by (simp add: only_def)

lemma only_trans: "only i a b \<Longrightarrow> only i b c \<Longrightarrow> only i a c"
  by (simp add: only_def)

lemma only_set_worker: "wm_workers st' = wm_workers st \<Longrightarrow> only i st (set_worker i wk st')"
  by (simp add: only_def)

lemma only_ops:
  "readEntries E i it st = Ret (scr, saw, err, st') \<Longrightarrow> only i st st'"
  "store_entries i items st = (r, st') \<Longrightarrow> only i st st'"
  "failed_batch it e st = (b, st') \<Longrightarrow> only i st st'"
  "store_path_z i p c st = Ret (s, st') \<Longrightarrow> only i st st'"
  "only i st (store_dir_err E i d st)"
  "push_ancestor i sIno sDev parent st = Ret (a, st') \<Longrightarrow> only i st st'"
  by (auto simp: only_def readEntries_def store_entries_def failed_batch_def store_path_z_def store_dir_err_def
      push_ancestor_def Let_def split: prod.splits)

lemma only_sym_link:
  assumes "sym_link E i it atMax e st = Ret (k, ch, st')"
  shows "only i st st'"
proof -
  obtain cp st1 where one: "store_path_z i (path it) (entName e) st = Ret (cp, st1)"
    using assms by (auto simp: sym_link_def obind_Ret_iff)
  have "only i st1 st'"
    using assms only_ops(5) [of i st1 E] only_ops(6) [of i _ _ _ st1]
    by (auto simp: sym_link_def one obind_Ret_iff split: sum.splits option.splits prod.splits if_splits bool.splits)
  then show ?thesis using only_trans [OF only_ops(4) [OF one]] by simp
qed

lemma only_sym_plain:
  assumes "sym_plain i it atMax e st = Ret (k, ch, st')"
  shows "only i st st'"
proof (cases "etyp e = dtDir \<and> \<not> atMax")
  case True
  then obtain cp st1 where one: "store_path_z i (path it) (entName e) st = Ret (cp, st1)"
    using assms by (auto simp: sym_plain_def obind_Ret_iff)
  have "only i st1 st'"
    using assms True only_ops(6) [of i _ _ _ st1]
    by (auto simp: sym_plain_def one obind_Ret_iff split: option.splits)
  then show ?thesis using only_trans [OF only_ops(4) [OF one]] by simp
qed (use assms in \<open>auto simp: sym_plain_def\<close>)

lemma only_sym_step: "sym_step E i it saw atMax e st = Ret (k, ch, st') \<Longrightarrow> only i st st'"
  using only_sym_link only_sym_plain by (auto simp: sym_step_def split: if_splits)

lemma guarI: "wm_ok st' \<Longrightarrow> wm_keeps st st' \<Longrightarrow> only i st st' \<Longrightarrow> guar i st st'"
  by (simp add: guar_def only_def)

lemma rely_len: "rely i st st' \<Longrightarrow> length (wm_workers st') = length (wm_workers st)"
  by (simp add: rely_def wm_keeps_def)

lemma rely_conf: "rely i st st' \<Longrightarrow> wm_conf st' = wm_conf st"
  by (simp add: rely_def wm_keeps_def)

text \<open>The errors of a worker are its own, whatever the others do.\<close>

lemma rely_errs:
  assumes "wm_ok st" and "i < length (wm_workers st)" and "rely i st st'"
  shows "errs_of st' i = errs_of st i"
proof -
  let ?ras = "map ws_results (wm_workers st)"
  have "errs_wf ?ras (h_err st)" and "i < length ?ras" using assms(1,2) by (simp_all add: wm_ok_def)
  then have "span_ok (err_arenas st) (h_err st) (err_span (ws_results (worker_of st i)))"
    using err_step_refl assms(2) by (fastforce simp: err_step_def)
  then show ?thesis
    using keeps_read [OF wm_keepsD(3) [OF rely_keeps [OF assms(3)]]] assms(3) by (simp add: errs_of_def rely_def)
qed

section \<open>Simulation under interference\<close>

inductive sim :: "nat \<Rightarrow> nat \<Rightarrow> task \<Rightarrow> walkman \<Rightarrow> batch option \<Rightarrow> aitem list \<Rightarrow> bool" for i :: nat where
  finish: "sim i n Finish st None []"
| send: "batch_rel st b ab \<Longrightarrow> sim i n t st None kids \<Longrightarrow> sim i (Suc n) (Send b t) st (Some ab) kids"
| spawn: "list_all2 (item_rel st) items kids \<Longrightarrow> sim i n t st None [] \<Longrightarrow>
     sim i (Suc n) (Spawn items t) st None kids"
| act: "(\<And>st1. rely i st st1 \<Longrightarrow>
       \<exists>t st2. f st1 = Ret (t, st2) \<and> guar i st1 st2 \<and> sim i n t st2 ab kids) \<Longrightarrow>
     sim i (Suc n) (Act f) st ab kids"

inductive_cases sim_FinishE: "sim i n Finish st ab kids"
inductive_cases sim_SendE: "sim i n (Send b t) st ab kids"
inductive_cases sim_SpawnE: "sim i n (Spawn items t) st ab kids"
inductive_cases sim_ActE: "sim i n (Act f) st ab kids"

text \<open>Interference cannot spoil it.\<close>

lemma sim_stable: "sim i n t st ab kids \<Longrightarrow> rely i st st' \<Longrightarrow> sim i n t st' ab kids"
proof (induction arbitrary: st' rule: sim.induct)
  case (finish n st)
  show ?case by (rule sim.finish)
next
  case (send st b ab n t kids)
  then show ?case using keeps_batch_rel [OF rely_keeps] by (auto intro!: sim.send)
next
  case (spawn st items kids n t)
  then show ?case
    using keeps_item_rel [OF rely_keeps] by (auto intro!: sim.spawn elim!: list_all2_mono)
next
  case (act st f n ab kids)
  show ?case
  proof (rule sim.act)
    fix st1 assume "rely i st' st1"
    then have "rely i st st1" by (rule rely_trans [OF act.prems])
    then show "\<exists>t st2. f st1 = Ret (t, st2) \<and> guar i st1 st2 \<and> sim i n t st2 ab kids"
      using act.IH by blast
  qed
qed

text \<open>What is left to do when a worker starts: spawn, and nothing else.\<close>

lemma sim_spawn_all: "list_all2 (item_rel st) items kids \<Longrightarrow> sim i (Suc n) (spawn_all items) st None kids"
  by (cases "items = []") (auto simp: spawn_all_def intro: sim.intros)

lemma sim_send_failed:
  assumes "path_rel st (path it) (path a)"
  shows "sim i (Suc (Suc n)) (send_failed it (Errno e)) st (Some (failed a e)) []"
  unfolding send_failed_def
proof (rule sim.act)
  fix st1 assume r: "rely i st st1"
  obtain b st2 where fb: "failed_batch it (Errno e) st1 = (b, st2)" by fastforce
  have p: "path_rel st1 (path it) (path a)" using keeps_path_rel [OF rely_keeps [OF r] assms] .
  have ok: "wm_ok st1" using r by (simp add: rely_def)
  note f = step_failed [OF ok fb p]
  have "guar i st1 st2" using f only_ops(3) [OF fb] by (simp add: guarI)
  moreover have "sim i (Suc n) (Send b Finish) st2 (Some (failed a e)) []"
    using f(3) by (auto simp: failed_def intro: sim.intros)
  ultimately show "\<exists>t st2. (case failed_batch it (Errno e) st1 of (b, st) \<Rightarrow> Ret (Send b Finish, st)) = Ret (t, st2) \<and>
      guar i st1 st2 \<and> sim i (Suc n) t st2 (Some (failed a e)) []"
    by (simp add: fb)
qed

section \<open>The plain task\<close>

lemma sim_mono: "sim i n t st ab kids \<Longrightarrow> n \<le> m \<Longrightarrow> sim i m t st ab kids"
proof (induction arbitrary: m rule: sim.induct)
  case (finish n st)
  show ?case by (rule sim.finish)
next
  case (send st b ab n t kids)
  then show ?case by (cases m) (auto intro: sim.send)
next
  case (spawn st items kids n t)
  then show ?case by (cases m) (auto intro: sim.spawn)
next
  case (act st f n ab kids)
  then obtain m' where m: "m = Suc m'" "n \<le> m'" by (cases m) auto
  show ?case unfolding m(1)
  proof (rule sim.act)
    fix st1 assume "rely i st st1"
    then show "\<exists>t st2. f st1 = Ret (t, st2) \<and> guar i st1 st2 \<and> sim i m' t st2 ab kids"
      using act.IH m(2) by blast
  qed
qed

text \<open>To run an operation: it returns, keeps the guarantee, and what is left simulates the rest.\<close>

lemma sim_actI:
  assumes "\<And>st1. rely i st st1 \<Longrightarrow>
    \<exists>t st2. f st1 = Ret (t, st2) \<and> wm_ok st2 \<and> wm_keeps st1 st2 \<and> only i st1 st2 \<and> sim i n t st2 ab kids"
  shows "sim i (Suc n) (Act f) st ab kids"
  by (rule sim.act) (use assms guarI in blast)

lemma mem_read_nth: "k < sp_len s \<Longrightarrow> mem_read m s ! k = mcell m (sp_blk s) (sp_off s + k)"
  by (cases s) simp

lemma sim_spawn_dirs:
  assumes "wm_ok st" and "i < length (wm_workers st)" and "path_rel st (path it) (path a)" and "depth it = depth a"
    and "span_ok (ent_arenas st) (h_ent st) s"
    and "list_all2 (ent_rel st) (drop k (mem_read (h_ent st) s)) es" and "k \<le> sp_len s"
    and "list_all2 (item_rel st) buf kids"
  shows "sim i (Suc (length es)) (spawn_dirs_task i it s [k..<sp_len s] buf) st None
           (kids @ map (\<lambda>e. child_of a (entName e) []) (filter IsDir es))"
  using assms
proof (induction es arbitrary: k buf kids st)
  case Nil
  then have "k = sp_len s" by simp
  then show ?case using sim_spawn_all [OF Nil.prems(8), of i 0] by simp
next
  case (Cons e es)
  have k: "k < sp_len s" using list_all2_lengthD [OF Cons.prems(6)] by simp
  have upt: "[k..<sp_len s] = k # [Suc k..<sp_len s]" using k by (rule upt_conv_Cons)
  show ?case unfolding upt spawn_dirs_task.simps length_Cons
  proof (rule sim_actI)
    fix st1 assume r: "rely i st st1"
    let ?c = "mcell (h_ent st1) (sp_blk s) (sp_off s + k)"
    note kp = rely_keeps [OF r]
    have ok1: "wm_ok st1" and i1: "i < length (wm_workers st1)" using r Cons.prems(2) rely_len by (auto simp: rely_def)
    note p1 = keeps_path_rel [OF kp Cons.prems(3)]
    have s1: "span_ok (ent_arenas st1) (h_ent st1) s" and rd: "mem_read (h_ent st1) s = mem_read (h_ent st) s"
      using keeps_span_ok [OF wm_keepsD(2) [OF kp] Cons.prems(5)] keeps_read [OF wm_keepsD(2) [OF kp] Cons.prems(5)]
      by simp_all
    have "drop k (mem_read (h_ent st) s) = ?c # drop (Suc k) (mem_read (h_ent st1) s)"
      using k by (simp add: Cons_nth_drop_Suc [symmetric] mem_read_nth [symmetric] rd)
    then have er: "ent_rel st1 ?c e" and rest: "list_all2 (ent_rel st1) (drop (Suc k) (mem_read (h_ent st1) s)) es"
      using Cons.prems(6) keeps_ent_rel [OF kp] by (auto elim!: list_all2_mono)
    have buf: "list_all2 (item_rel st1) buf kids"
      using Cons.prems(8) by (rule list_all2_mono) (rule keeps_item_rel [OF kp])
    show "\<exists>t st2. (let e = ?c in if IsDir e then
         obind (store_path_z i (path it) (entName e) st1) (\<lambda>(p, st).
           Ret (spawn_dirs_task i it s [Suc k..<sp_len s] (buf @ [\<lparr>path = p, depth = depth it + 1, ancestor = None\<rparr>]), st))
       else Ret (spawn_dirs_task i it s [Suc k..<sp_len s] buf, st1)) = Ret (t, st2) \<and>
      wm_ok st2 \<and> wm_keeps st1 st2 \<and> only i st1 st2 \<and>
      sim i (Suc (length es)) t st2 None (kids @ map (\<lambda>e. child_of a (entName e) []) (filter IsDir (e # es)))"
    proof (cases "IsDir e")
      case False
      then show ?thesis
        using Cons.IH [OF ok1 i1 p1 Cons.prems(4) s1 rest _ buf] k ent_rel_IsDir [OF er] ok1 by (simp add: Let_def)
    next
      case True
      have nm: "str_rel st1 (entName ?c) (entName e)" using er by (simp add: ent_rel_def)
      obtain p st2 where one: "store_path_z i (path it) (entName ?c) st1 = Ret (p, st2)"
        and ok2: "wm_ok st2" and kp2: "wm_keeps st1 st2" and p: "path_rel st2 p (path_join (path a) (entName e))"
        and he: "h_ent st2 = h_ent st1"
        using step_path [OF ok1 i1 p1 nm] by blast
      have i2: "i < length (wm_workers st2)" using i1 wm_keepsD(6) [OF kp2] by simp
      have "item_rel st2 \<lparr>path = p, depth = depth it + 1, ancestor = None\<rparr> (child_of a (entName e) [])"
        using p Cons.prems(4) by (simp add: item_rel_def child_of_def)
      then have buf2: "list_all2 (item_rel st2) (buf @ [\<lparr>path = p, depth = depth it + 1, ancestor = None\<rparr>])
          (kids @ [child_of a (entName e) []])"
        using buf keeps_item_rel [OF kp2] by (intro list_all2_appendI) (auto elim!: list_all2_mono)
      have rest2: "list_all2 (ent_rel st2) (drop (Suc k) (mem_read (h_ent st2) s)) es"
        unfolding he using rest by (rule list_all2_mono) (rule keeps_ent_rel [OF kp2])
      from Cons.IH [OF ok2 i2 keeps_path_rel [OF kp2 p1] Cons.prems(4)
          keeps_span_ok [OF wm_keepsD(2) [OF kp2] s1] rest2 _ buf2] show ?thesis
        using True ent_rel_IsDir [OF er] one ok2 kp2 only_ops(4) [OF one] k by (simp add: Let_def)
    qed
  qed
qed

lemma sim_visit_store:
  assumes "item_rel st it a" and "i < length (wm_workers st)" and "list_all2 (ent_rel st) scr es"
  shows "sim i (length es + 3) (visit_store i it scr) st (Some \<lparr>b_dir = path a, b_entries = es, b_errs = []\<rparr>)
           (if deeper (wm_conf st) a then map (\<lambda>e. child_of a (entName e) []) (filter IsDir es) else [])"
proof -
  let ?kids = "if deeper (wm_conf st) a then map (\<lambda>e. child_of a (entName e) []) (filter IsDir es) else []"
  have "sim i (Suc (Suc (Suc (length es)))) (visit_store i it scr) st
      (Some \<lparr>b_dir = path a, b_entries = es, b_errs = []\<rparr>) ?kids"
    unfolding visit_store_def
  proof (rule sim_actI)
    fix st1 assume r: "rely i st st1"
    note kp = rely_keeps [OF r]
    have ok1: "wm_ok st1" and i1: "i < length (wm_workers st1)" using r assms(2) rely_len by (auto simp: rely_def)
    obtain q st2 where se: "store_entries i scr st1 = (q, st2)" by fastforce
    note s = step_entries [OF ok1 i1 se]
    note kp2 = wm_keeps_trans [OF kp s(2)]
    note it2 = keeps_item_rel [OF kp2 assms(1)]
    have i2: "i < length (wm_workers st2)" and conf: "wm_conf st2 = wm_conf st"
      using i1 wm_keepsD(5,6) [OF s(2)] rely_conf [OF r] by simp_all
    have scr2: "list_all2 (ent_rel st2) scr es" using assms(3) keeps_ent_rel [OF kp2] by (auto elim!: list_all2_mono)
    have "scr = [] \<longleftrightarrow> es = []" using assms(3) by auto
    then have br: "batch_rel st2 \<lparr>Dir = path it, Entries = q, Errs = None\<rparr> \<lparr>b_dir = path a, b_entries = es, b_errs = []\<rparr>"
      using s(3-5) scr2 it2 by (simp add: batch_rel_def item_rel_def path_rel_str)
    have rest: "sim i (Suc (length es)) (if at_max_depth st2 it then Finish
          else (case q of None \<Rightarrow> Finish | Some ents \<Rightarrow> spawn_dirs_task i it ents [0..<sp_len ents] [])) st2 None ?kids"
    proof (cases "deeper (wm_conf st) a \<and> q \<noteq> None")
      case False
      then have "?kids = []" using s(5) scr2 by auto
      then show ?thesis using False at_max_depth_eq [OF it2] conf by (auto intro: sim.finish)
    next
      case True
      then obtain sp where q: "q = Some sp" by auto
      have "span_ok (ent_arenas st2) (h_ent st2) sp" "mem_read (h_ent st2) sp = scr" using s(3,4) by (simp_all add: q)
      from sim_spawn_dirs [OF s(1) i2 _ _ this(1), of it a 0 es "[]" "[]"] this(2) scr2 it2 show ?thesis
        using True at_max_depth_eq [OF it2] conf by (simp add: q item_rel_def)
    qed
    show "\<exists>t st2. (case store_entries i scr st1 of (entries, st) \<Rightarrow>
         Ret (Send \<lparr>Dir = path it, Entries = entries, Errs = None\<rparr>
                (if at_max_depth st it then Finish
                 else (case entries of None \<Rightarrow> Finish
                       | Some ents \<Rightarrow> spawn_dirs_task i it ents [0..<sp_len ents] [])), st)) = Ret (t, st2) \<and>
      wm_ok st2 \<and> wm_keeps st1 st2 \<and> only i st1 st2 \<and>
      sim i (Suc (Suc (length es))) t st2 (Some \<lparr>b_dir = path a, b_entries = es, b_errs = []\<rparr>) ?kids"
      using s(1,2) only_ops(2) [OF se] sim.send [OF br rest] by (simp add: se)
  qed
  then show ?thesis by (simp add: eval_nat_numeral)
qed

lemma sim_visit:
  assumes "item_rel st it a" and "i < length (wm_workers st)" and "view_ok E F"
    and "fs_list F (cstr (path a)) = (ds, e)"
  shows "sim i (length (listed (wm_conf st) (path a) ds) + 4) (visit_task E i it) st
           (Some (fst (spec_visit (wm_conf st) F a))) (snd (spec_visit (wm_conf st) F a))"
proof -
  let ?es = "listed (wm_conf st) (path a) ds"
  have "sim i (Suc (length ?es + 3)) (visit_task E i it) st
           (Some (fst (spec_visit (wm_conf st) F a))) (snd (spec_visit (wm_conf st) F a))"
    unfolding visit_task_def
  proof (rule sim_actI)
    fix st1 assume r: "rely i st st1"
    note kp = rely_keeps [OF r]
    have ok1: "wm_ok st1" and i1: "i < length (wm_workers st1)" using r assms(2) rely_len by (auto simp: rely_def)
    note it1 = keeps_item_rel [OF kp assms(1)]
    obtain scr saw st2 where rd: "readEntries E i it st1 = Ret (scr, saw, map_option Errno e, st2)"
      and ok2: "wm_ok st2" and kp2: "wm_keeps st1 st2"
      and scr: "list_all2 (ent_rel st2) scr (listed (wm_conf st1) (path a) ds)"
      using readEntries_ok [OF ok1 i1 it1 assms(3,4)] by blast
    have conf: "wm_conf st1 = wm_conf st" "wm_conf st2 = wm_conf st"
      using rely_conf [OF r] wm_keepsD(5) [OF kp2] by simp_all
    have i2: "i < length (wm_workers st2)" using i1 wm_keepsD(6) [OF kp2] by simp
    note it2 = keeps_item_rel [OF kp2 it1]
    have "sim i (length ?es + 3) (case map_option Errno e of Some x \<Rightarrow> send_failed it x | None \<Rightarrow> visit_store i it scr)
        st2 (Some (fst (spec_visit (wm_conf st) F a))) (snd (spec_visit (wm_conf st) F a))"
    proof (cases e)
      case None
      then show ?thesis
        using sim_visit_store [OF it2 i2 scr, unfolded conf] assms(4) by (simp add: spec_visit_def Let_def split: if_splits)
    next
      case (Some n)
      have "sim i (Suc (Suc (length ?es + 1))) (send_failed it (Errno n)) st2 (Some (failed a n)) []"
        using it2 by (intro sim_send_failed) (simp add: item_rel_def)
      then show ?thesis using Some assms(4) by (simp add: spec_visit_def eval_nat_numeral)
    qed
    then show "\<exists>t st2. obind (readEntries E i it st1) (\<lambda>(scratch, _, err, st).
         Ret (case err of Some e \<Rightarrow> send_failed it e | None \<Rightarrow> visit_store i it scratch, st)) = Ret (t, st2) \<and>
      wm_ok st2 \<and> wm_keeps st1 st2 \<and> only i st1 st2 \<and>
      sim i (length ?es + 3) t st2 (Some (fst (spec_visit (wm_conf st) F a))) (snd (spec_visit (wm_conf st) F a))"
      using ok2 kp2 only_ops(1) [OF rd] by (simp add: rd)
  qed
  then show ?thesis by (simp add: eval_nat_numeral)
qed

section \<open>The symlink-following task\<close>

lemma sim_sym_finish:
  assumes "item_rel st it a" and "wm_ok st" and "i < length (wm_workers st)"
    and "list_all2 (ent_rel st) scr es" and "list_all2 (item_rel st) buf kids"
    and "errs_of st i = old @ ds" and "length old = off" and "list_all2 (err_rel st) ds es'"
  shows "sim i 4 (sym_finish i it off scr buf) st (Some \<lparr>b_dir = path a, b_entries = es, b_errs = es'\<rparr>) kids"
proof -
  let ?ab = "Some \<lparr>b_dir = path a, b_entries = es, b_errs = es'\<rparr>"
  have "sim i (Suc (Suc (Suc (Suc 0)))) (sym_finish i it off scr buf) st ?ab kids"
    unfolding sym_finish_def
  proof (rule sim_actI)
    fix st1 assume r: "rely i st st1"
    note kp = rely_keeps [OF r]
    have ok1: "wm_ok st1" and i1: "i < length (wm_workers st1)" using r assms(3) rely_len by (auto simp: rely_def)
    obtain q st2 where se: "store_entries i scr st1 = (q, st2)" by fastforce
    note s = step_entries [OF ok1 i1 se]
    note kp2 = wm_keeps_trans [OF kp s(2)]
    have i2: "i < length (wm_workers st2)" using i1 wm_keepsD(6) [OF s(2)] by simp
    have es2: "errs_of st2 i = old @ ds"
      using s(7-9) assms(6) rely_errs [OF assms(2,3) r] by (simp add: errs_of_def err_span_def)
    have "sim i (Suc (Suc (Suc 0))) (Act (\<lambda>st. obind (sliceDirErr off (ws_results (worker_of st i))) (\<lambda>errs.
          Ret (Send \<lparr>Dir = path it, Entries = q, Errs = Some errs\<rparr> (spawn_all buf), st)))) st2 ?ab kids"
    proof (rule sim_actI)
      fix st3 assume r3: "rely i st2 st3"
      note kp3 = rely_keeps [OF r3] and all = wm_keeps_trans [OF kp2 rely_keeps [OF r3]]
      have ok3: "wm_ok st3" and i3: "i < length (wm_workers st3)" using r3 i2 rely_len by (auto simp: rely_def)
      let ?ras = "map ws_results (wm_workers st3)"
      have wf3: "errs_wf ?ras (h_err st3)" and i3': "i < length ?ras" using ok3 i3 by (simp_all add: wm_ok_def)
      have er3: "mem_read (h_err st3) (err_span (?ras ! i)) = old @ ds"
        using es2 rely_errs [OF s(1) i2 r3] i3 by (simp add: errs_of_def)
      obtain p where p: "sliceDirErr off (?ras ! i) = Ret p" "mem_read (h_err st3) p = ds"
        "span_ok (err_arenas st3) (h_err st3) p"
        using sliceDirErr_ok [OF err_step_refl [OF wf3 i3', unfolded er3]] assms(7) by auto
      have "scr = [] \<longleftrightarrow> es = []" using assms(4) by auto
      moreover have "list_all2 (ent_rel st3) scr es" "list_all2 (err_rel st3) ds es'"
        using assms(4,8) keeps_ent_rel [OF all] keeps_err_rel [OF all] by (auto elim!: list_all2_mono)
      ultimately have "batch_rel st3 \<lparr>Dir = path it, Entries = q, Errs = Some p\<rparr> \<lparr>b_dir = path a, b_entries = es, b_errs = es'\<rparr>"
        using s(3-5) p keeps_item_rel [OF all assms(1)] keeps_opt [OF wm_keepsD(2) [OF kp3] s(3)]
        by (simp add: batch_rel_def item_rel_def path_rel_str)
      moreover have "list_all2 (item_rel st3) buf kids"
        using assms(5) by (rule list_all2_mono) (rule keeps_item_rel [OF all])
      ultimately have "sim i (Suc (Suc 0)) (Send \<lparr>Dir = path it, Entries = q, Errs = Some p\<rparr> (spawn_all buf)) st3 ?ab kids"
        by (intro sim.send sim_spawn_all)
      then show "\<exists>t st2. obind (sliceDirErr off (ws_results (worker_of st3 i))) (\<lambda>errs.
          Ret (Send \<lparr>Dir = path it, Entries = q, Errs = Some errs\<rparr> (spawn_all buf), st3)) = Ret (t, st2) \<and>
        wm_ok st2 \<and> wm_keeps st3 st2 \<and> only i st3 st2 \<and> sim i (Suc (Suc 0)) t st2 ?ab kids"
        using p(1) i3 ok3 by simp
    qed
    then show "\<exists>t st2. (case store_entries i scr st1 of (entries, st) \<Rightarrow>
         Ret (Act (\<lambda>st. obind (sliceDirErr off (ws_results (worker_of st i))) (\<lambda>errs.
                Ret (Send \<lparr>Dir = path it, Entries = entries, Errs = Some errs\<rparr> (spawn_all buf), st))),
              st)) = Ret (t, st2) \<and>
      wm_ok st2 \<and> wm_keeps st1 st2 \<and> only i st1 st2 \<and> sim i (Suc (Suc (Suc 0))) t st2 ?ab kids"
      using s(1,2) only_ops(2) [OF se] by (simp add: se)
  qed
  then show ?thesis by (simp add: eval_nat_numeral)
qed

lemma sim_sym_loop:
  assumes "wm_ok st" and "i < length (wm_workers st)" and "item_rel st it a" and "view_ok E F"
    and "wm_ancestors st \<noteq> None" and "list_all2 (ent_rel st) (drop k scr) es"
    and "\<forall>e \<in> set (drop k scr). etyp e = dtLnk \<longrightarrow> saw" and "keep \<le> k" and "k \<le> length scr"
    and "c = wm_conf st" and "fates c F a es = Ret fs"
    and "errs_of st i = old @ ds" and "length old = off"
    and "list_all2 (ent_rel st) (take keep scr) ks" and "list_all2 (item_rel st) buf kids"
    and "list_all2 (err_rel st) ds rs"
  shows "sim i (length es + 4) (sym_loop_task E i it saw (\<not> deeper c a) off [k..<length scr] keep scr buf) st
           (Some \<lparr>b_dir = path a, b_entries = ks @ kept fs, b_errs = rs @ reported fs\<rparr>) (kids @ spawned fs)"
  using assms
proof (induction es arbitrary: k keep scr buf st fs ds ks kids rs)
  case Nil
  then have "k = length scr" by simp
  then show ?case
    using sim_sym_finish [OF Nil.prems(3,1,2,14,15,12,13,16)] Nil.prems(11) by (simp add: fates_simps)
next
  case (Cons ae es)
  have k: "k < length scr" using Cons.prems(6) by (cases "k < length scr") auto
  then have dk: "drop k scr = scr ! k # drop (Suc k) scr" by (rule Cons_nth_drop_Suc [symmetric])
  have upt: "[k..<length scr] = k # [Suc k..<length scr]" using k by (rule upt_conv_Cons)
  have er: "ent_rel st (scr ! k) ae" and rest: "list_all2 (ent_rel st) (drop (Suc k) scr) es"
    using Cons.prems(6) by (simp_all add: dk)
  have saw: "etyp (scr ! k) = dtLnk \<Longrightarrow> saw" using Cons.prems(7) by (simp add: dk)
  obtain f fs' where f: "spec_entry c F a ae = Ret f" and fs': "fates c F a es = Ret fs'" and fs: "fs = (ae, f) # fs'"
    using Cons.prems(11) by (auto simp: fates_simps obind_Ret_iff)
  let ?ab = "Some \<lparr>b_dir = path a, b_entries = ks @ kept fs, b_errs = rs @ reported fs\<rparr>"
  have "sim i (Suc (length es + 4)) (sym_loop_task E i it saw (\<not> deeper c a) off [k..<length scr] keep scr buf) st
      ?ab (kids @ spawned fs)"
    unfolding upt sym_loop_task.simps
  proof (rule sim_actI)
    fix st1 assume r: "rely i st st1"
    note kp = rely_keeps [OF r]
    have ok1: "wm_ok st1" and i1: "i < length (wm_workers st1)" and c1: "c = wm_conf st1"
      using r Cons.prems(2,10) rely_len rely_conf by (auto simp: rely_def)
    note it1 = keeps_item_rel [OF kp Cons.prems(3)] and er1 = keeps_ent_rel [OF kp er]
    obtain s1 where s1: "wm_ancestors st1 = Some s1"
      using Cons.prems(5) wm_keepsD(4) [OF kp] by (auto simp: anc_keeps_def)
    obtain kk ch st2 ds1 where step: "sym_step E i it saw (\<not> deeper c a) (scr ! k) st1 = Ret (kk, ch, st2)"
      and ok2: "wm_ok st2" and kp2: "wm_keeps st1 st2"
      and rels: "rel_option (ent_rel st2) kk (fst f)" "rel_option (item_rel st2) ch (snd (snd f))"
        "list_all2 (err_rel st2) ds1
          (case fst (snd f) of None \<Rightarrow> [] | Some x \<Rightarrow> [\<lparr>errName = entName ae, errErr = x\<rparr>])"
      and es2: "errs_of st2 i = errs_of st1 i @ ds1"
      using sym_step_ok [OF ok1 i1 it1 er1 Cons.prems(4) s1 saw, folded c1] f unfolding step_ok_def by auto
    note all = wm_keeps_trans [OF kp kp2]
    define scr1 where "scr1 = (case kk of None \<Rightarrow> scr | Some e \<Rightarrow> scr[keep := e])"
    define keep1 where "keep1 = (case kk of None \<Rightarrow> keep | Some e \<Rightarrow> Suc keep)"
    define buf1 where "buf1 = buf @ (case ch of None \<Rightarrow> [] | Some c \<Rightarrow> [c])"
    have dr: "drop (Suc k) scr1 = drop (Suc k) scr" and len: "length scr1 = length scr"
      using Cons.prems(8) by (auto simp: scr1_def split: option.split)
    have tk: "take keep1 scr1 = take keep scr @ (case kk of None \<Rightarrow> [] | Some e \<Rightarrow> [e])"
      using Cons.prems(8) k by (auto simp: keep1_def scr1_def take_Suc_conv_app_nth split: option.split)
    have n1: "list_all2 (ent_rel st2) (drop (Suc k) scr1) es"
      unfolding dr using rest by (rule list_all2_mono) (rule keeps_ent_rel [OF all])
    have n2: "\<forall>e \<in> set (drop (Suc k) scr1). etyp e = dtLnk \<longrightarrow> saw" using Cons.prems(7) by (simp add: dk dr)
    have n3: "keep1 \<le> Suc k" "Suc k \<le> length scr1" "i < length (wm_workers st2)" "c = wm_conf st2" "wm_ancestors st2 \<noteq> None"
      using Cons.prems(8) k len c1 i1 wm_keepsD(4-6) [OF kp2] s1
      by (auto simp: keep1_def anc_keeps_def split: option.splits)
    have n4: "errs_of st2 i = old @ (ds @ ds1)"
      using es2 rely_errs [OF Cons.prems(1,2) r] Cons.prems(12) by simp
    have n5: "list_all2 (ent_rel st2) (take keep1 scr1) (ks @ (case fst f of None \<Rightarrow> [] | Some e \<Rightarrow> [e]))"
      unfolding tk using Cons.prems(14) rels(1) keeps_ent_rel [OF all]
      by (intro list_all2_appendI; cases kk; cases "fst f") (auto elim!: list_all2_mono)
    have n6: "list_all2 (item_rel st2) buf1 (kids @ (case snd (snd f) of None \<Rightarrow> [] | Some c \<Rightarrow> [c]))"
      unfolding buf1_def using Cons.prems(15) rels(2) keeps_item_rel [OF all]
      by (intro list_all2_appendI; cases ch; cases "snd (snd f)") (auto elim!: list_all2_mono)
    have n7: "list_all2 (err_rel st2) (ds @ ds1)
        (rs @ (case fst (snd f) of None \<Rightarrow> [] | Some x \<Rightarrow> [\<lparr>errName = entName ae, errErr = x\<rparr>]))"
      using Cons.prems(16) rels(3) keeps_err_rel [OF all] by (intro list_all2_appendI) (auto elim!: list_all2_mono)
    have "sim i (length es + 4) (sym_loop_task E i it saw (\<not> deeper c a) off [Suc k..<length scr1] keep1 scr1 buf1) st2
        ?ab (kids @ spawned fs)"
      using Cons.IH [OF ok2 n3(3) keeps_item_rel [OF kp2 it1] Cons.prems(4) n3(5) n1 n2 n3(1,2,4) fs' n4 Cons.prems(13) n5 n6 n7]
      by (simp add: fs fate_lists)
    then show "\<exists>t st2. obind (sym_step E i it saw (\<not> deeper c a) (scr ! k) st1) (\<lambda>(kept, child, st).
       let spawnBuf = (case child of None \<Rightarrow> buf | Some c \<Rightarrow> buf @ [c]) in
       Ret (case kept of
              None \<Rightarrow> sym_loop_task E i it saw (\<not> deeper c a) off [Suc k..<length scr] keep scr spawnBuf
            | Some e \<Rightarrow>
                sym_loop_task E i it saw (\<not> deeper c a) off [Suc k..<length scr] (Suc keep) (scr[keep := e]) spawnBuf, st)) =
         Ret (t, st2) \<and> wm_ok st2 \<and> wm_keeps st1 st2 \<and> only i st1 st2 \<and>
      sim i (length es + 4) t st2 ?ab (kids @ spawned fs)"
      using ok2 kp2 only_sym_step [OF step] len
      by (auto simp: step scr1_def keep1_def buf1_def Let_def split: option.splits)
  qed
  then show ?case by simp
qed

lemma sim_visitSym:
  assumes "item_rel st it a" and "i < length (wm_workers st)" and "view_ok E F" and "followLinks (wm_conf st)"
    and "fs_list F (cstr (path a)) = (ds, e)" and "spec_visitSym (wm_conf st) F a = Ret (ab, kids)"
  shows "sim i (length (listed (wm_conf st) (path a) ds) + 5) (visitSym_task E i it) st (Some ab) kids"
proof -
  let ?es = "listed (wm_conf st) (path a) ds"
  have "sim i (Suc (length ?es + 4)) (visitSym_task E i it) st (Some ab) kids"
    unfolding visitSym_task_def
  proof (rule sim_actI)
    fix st1 assume r: "rely i st st1"
    note kp = rely_keeps [OF r]
    have ok1: "wm_ok st1" and i1: "i < length (wm_workers st1)" using r assms(2) rely_len by (auto simp: rely_def)
    note it1 = keeps_item_rel [OF kp assms(1)]
    obtain scr st2 where rd: "readEntries E i it st1 = Ret (scr, (\<exists>x \<in> set scr. etyp x = dtLnk), map_option Errno e, st2)"
      and ok2: "wm_ok st2" and kp2: "wm_keeps st1 st2"
      and scr: "list_all2 (ent_rel st2) scr (listed (wm_conf st1) (path a) ds)"
      using readEntries_ok [OF ok1 i1 it1 assms(3,5)] by blast
    let ?saw = "\<exists>x \<in> set scr. etyp x = dtLnk"
    have conf: "wm_conf st1 = wm_conf st" and conf2: "wm_conf st = wm_conf st2"
      using rely_conf [OF r] wm_keepsD(5) [OF kp2] by simp_all
    have i2: "i < length (wm_workers st2)" using i1 wm_keepsD(6) [OF kp2] by simp
    note it2 = keeps_item_rel [OF kp2 it1]
    have "sim i (length ?es + 4) (case map_option Errno e of Some x \<Rightarrow> send_failed it x
        | None \<Rightarrow> sym_loop_task E i it ?saw (at_max_depth st2 it)
            (getDirErrMark (ws_results (worker_of st2 i))) [0..<length scr] 0 scr []) st2 (Some ab) kids"
    proof (cases e)
      case (Some n)
      have "sim i (Suc (Suc (length ?es + 2))) (send_failed it (Errno n)) st2 (Some (failed a n)) []"
        using it2 by (intro sim_send_failed) (simp add: item_rel_def)
      then show ?thesis using Some assms(5,6) by (simp add: spec_visitSym_def eval_nat_numeral)
    next
      case None
      then obtain fs where fs: "fates (wm_conf st) F a ?es = Ret fs" and ab: "ab = \<lparr>b_dir = path a, b_entries = kept fs, b_errs = reported fs\<rparr>"
        and kids: "kids = spawned fs"
        using assms(5,6) by (auto simp: spec_visitSym_def obind_Ret_iff)
      have anc: "wm_ancestors st2 \<noteq> None"
        using ok2 assms(4) conf2 by (auto simp: wm_ok_def anc_wf_def split: option.splits)
      have off: "length (errs_of st2 i) = getDirErrMark (ws_results (worker_of st2 i))"
        by (simp add: getDirErrMark_def errs_of_def err_span_def)
      have "at_max_depth st2 it = (\<not> deeper (wm_conf st) a)" using at_max_depth_eq [OF it2] conf2 by simp
      then show ?thesis
        using sim_sym_loop [OF ok2 i2 it2 assms(3) anc, of 0 scr ?es ?saw 0 "wm_conf st" fs "errs_of st2 i" "[]"
            "getDirErrMark (ws_results (worker_of st2 i))" "[]" "[]" "[]" "[]"] scr fs off conf conf2 None
        by (simp add: ab kids)
    qed
    then show "\<exists>t st2. obind (readEntries E i it st1) (\<lambda>(scratch, sawLink, err, st).
         Ret (case err of Some e \<Rightarrow> send_failed it e
            | None \<Rightarrow> sym_loop_task E i it sawLink (at_max_depth st it)
                (getDirErrMark (ws_results (worker_of st i))) [0..<length scratch] 0 scratch [], st)) = Ret (t, st2) \<and>
      wm_ok st2 \<and> wm_keeps st1 st2 \<and> only i st1 st2 \<and> sim i (length ?es + 4) t st2 (Some ab) kids"
      using ok2 kp2 only_ops(1) [OF rd] by (simp add: rd)
  qed
  then show ?thesis by (simp add: eval_nat_numeral)
qed

text \<open>The steps a task may take: linear in the number of entries of its directory.\<close>

definition task_cost :: "walkConf \<Rightarrow> fsview \<Rightarrow> aitem \<Rightarrow> nat" where
  "task_cost c F a = length (listed c (path a) (fst (fs_list F (cstr (path a))))) + 5"

lemma sim_execute:
  assumes "item_rel st it a" and "i < length (wm_workers st)" and "view_ok E F"
    and "spec_task (wm_conf st) F a = Ret (ab, kids)"
  shows "sim i (task_cost (wm_conf st) F a) (execute_task E (followLinks (wm_conf st)) i it) st (Some ab) kids"
proof -
  obtain ds e where fs: "fs_list F (cstr (path a)) = (ds, e)" by fastforce
  show ?thesis
  proof (cases "followLinks (wm_conf st)")
    case True
    then show ?thesis
      using sim_visitSym [OF assms(1-3) True fs] assms(4) fs
      by (simp add: execute_task_def spec_task_def task_cost_def)
  next
    case False
    then show ?thesis
      using sim_mono [OF sim_visit [OF assms(1-3) fs], of "task_cost (wm_conf st) F a"] assms(4) fs
      by (simp add: execute_task_def spec_task_def task_cost_def)
  qed
qed

end
