(* ===== verification/Conc_Run.thy ===== *)
theory Conc_Run
  imports Conc_Refine
begin

text \<open>
  Runs of the pool in which the workers' tasks interleave at every operation. A worker that is
  free takes any pending item; a worker that runs a task makes its next step at any time. The
  theorem: every such run delivers the reference walk, gets stuck nowhere and comes to an end,
  and every batch is readable from the moment it is sent.
\<close>

section \<open>The pool\<close>

datatype conc =
    Pool "item list" "task option list" "DirBatch list" walkman
  | PoolCrashed panic
  | PoolHung

inductive conc_step :: "env \<Rightarrow> conc \<Rightarrow> conc \<Rightarrow> bool" for E :: env where
  start: "j < length pend \<Longrightarrow> i < length running \<Longrightarrow> running ! i = None \<Longrightarrow>
     conc_step E (Pool pend running out st)
       (Pool (take j pend @ drop (Suc j) pend)
         (running[i := Some (execute_task E (followLinks (wm_conf st)) i (pend ! j))]) out st)"
| act: "i < length running \<Longrightarrow> running ! i = Some (Act f) \<Longrightarrow> f st = Ret (t, st') \<Longrightarrow>
     conc_step E (Pool pend running out st) (Pool pend (running[i := Some t]) out st')"
| send: "i < length running \<Longrightarrow> running ! i = Some (Send b t) \<Longrightarrow>
     conc_step E (Pool pend running out st) (Pool pend (running[i := Some t]) (out @ [b]) st)"
| spawn: "i < length running \<Longrightarrow> running ! i = Some (Spawn items t) \<Longrightarrow>
     conc_step E (Pool pend running out st) (Pool (pend @ items) (running[i := Some t]) out st)"
| finish: "i < length running \<Longrightarrow> running ! i = Some Finish \<Longrightarrow>
     conc_step E (Pool pend running out st) (Pool pend (running[i := None]) out st)"
| crash: "i < length running \<Longrightarrow> running ! i = Some (Act f) \<Longrightarrow> f st = Panic p \<Longrightarrow>
     conc_step E (Pool pend running out st) (PoolCrashed p)"
| hang: "i < length running \<Longrightarrow> running ! i = Some (Act f) \<Longrightarrow> f st = Diverge \<Longrightarrow>
     conc_step E (Pool pend running out st) PoolHung"

inductive_cases conc_stepE: "conc_step E (Pool pend running out st) s"

definition conc_start :: "item \<Rightarrow> walkman \<Rightarrow> conc" where
  "conc_start it st = Pool [it] (replicate (length (wm_workers st)) None) [] st"

fun conc_over :: "conc \<Rightarrow> bool" where
  "conc_over (Pool pend running out st) \<longleftrightarrow> pend = [] \<and> (\<forall>i < length running. running ! i = None)"
| "conc_over _ \<longleftrightarrow> False"

section \<open>What the workers still owe\<close>

text \<open>For a worker that runs a task: the batch still to send, the items still to spawn, its bound.\<close>

type_synonym owed = "(batch option \<times> aitem list \<times> nat) option"

fun owed_batch :: "owed \<Rightarrow> batch list" where
  "owed_batch (Some (Some b, kids, n)) = [b]"
| "owed_batch _ = []"

fun owed_kids :: "owed \<Rightarrow> aitem list" where
  "owed_kids (Some (ab, kids, n)) = kids"
| "owed_kids None = []"

fun owed_steps :: "owed \<Rightarrow> nat" where
  "owed_steps (Some (ab, kids, n)) = Suc n"
| "owed_steps None = 0"

fun run_sim :: "nat \<Rightarrow> walkman \<Rightarrow> task option \<Rightarrow> owed \<Rightarrow> bool" where
  "run_sim i st None None \<longleftrightarrow> True"
| "run_sim i st (Some t) (Some (ab, kids, n)) \<longleftrightarrow> sim i n t st ab kids"
| "run_sim i st _ _ \<longleftrightarrow> False"

lemma run_sim_stable: "run_sim i st t g \<Longrightarrow> rely i st st' \<Longrightarrow> run_sim i st' t g"
  by (cases "(i, st, t, g)" rule: run_sim.cases) (auto intro: sim_stable)

lemma run_sim_SomeD:
  assumes "run_sim i st (Some t) g"
  obtains ab kids n where "g = Some (ab, kids, n)" and "sim i n t st ab kids"
  using assms by (cases "(i, st, Some t, g)" rule: run_sim.cases) auto

lemma run_sim_None [simp]: "run_sim i st None g \<longleftrightarrow> g = None"
  by (cases "(i, st, None :: task option, g)" rule: run_sim.cases) auto

section \<open>The invariant\<close>

definition conc_base ::
  "walkConf \<Rightarrow> item list \<Rightarrow> task option list \<Rightarrow> DirBatch list \<Rightarrow> walkman \<Rightarrow> aitem list \<Rightarrow> batch list \<Rightarrow> owed list \<Rightarrow> bool" where
  "conc_base c pend running out st apend aout gs \<longleftrightarrow>
     wm_ok st \<and> wm_conf st = c \<and> wm_workers st \<noteq> [] \<and> length running = length (wm_workers st) \<and>
     length gs = length running \<and> list_all2 (item_rel st) pend apend \<and> list_all2 (batch_rel st) out aout \<and>
     (\<forall>i < length running. run_sim i st (running ! i) (gs ! i))"

lemma guar_refl: "wm_ok st \<Longrightarrow> guar i st st"
  by (simp add: guar_def)

lemma base_update:
  assumes base: "conc_base c pend running out st apend aout gs" and i: "i < length running"
    and g: "guar i st st'" and new: "run_sim i st' t g'"
  shows "conc_base c pend (running[i := t]) out st' apend aout (gs[i := g'])"
proof -
  have kp: "wm_keeps st st'" using g by (simp add: guar_def)
  have "run_sim k st' (running[i := t] ! k) (gs[i := g'] ! k)" if "k < length running" for k
    using base that new i run_sim_stable [OF _ guar_rely [OF g]] by (cases "k = i") (auto simp: conc_base_def)
  moreover have "list_all2 (item_rel st') pend apend" "list_all2 (batch_rel st') out aout"
    using base keeps_item_rel [OF kp] keeps_batch_rel [OF kp] by (auto simp: conc_base_def elim!: list_all2_mono)
  moreover have "wm_workers st' \<noteq> []" using base wm_keepsD(6) [OF kp] by (auto simp: conc_base_def)
  ultimately show ?thesis
    using base g wm_keepsD(5,6) [OF kp] by (simp add: conc_base_def guar_def)
qed

lemma mset_concat_update:
  "i < length xs \<Longrightarrow>
     mset (concat (map g (xs[i := x]))) + mset (g (xs ! i)) = mset (concat (map g xs)) + mset (g x)"
proof -
  assume i: "i < length xs"
  then have "mset (concat (map g xs)) = mset (concat (map g (take i xs @ xs ! i # drop (Suc i) xs)))"
    by (simp add: id_take_nth_drop [symmetric])
  then show ?thesis using i by (simp add: upd_conv_take_nth_drop)
qed

lemma steps_update:
  "i < length gs \<Longrightarrow> owed_steps g < owed_steps (gs ! i) \<Longrightarrow>
     sum_list (map owed_steps (gs[i := g])) < sum_list (map owed_steps gs)"
proof -
  assume i: "i < length gs" and l: "owed_steps g < owed_steps (gs ! i)"
  then have "sum_list (map owed_steps gs) = sum_list (map owed_steps (take i gs @ gs ! i # drop (Suc i) gs))"
    by (simp add: id_take_nth_drop [symmetric])
  then show ?thesis using i l by (simp add: upd_conv_take_nth_drop)
qed

text \<open>The order in which items are taken does not matter to what is delivered.\<close>

lemma forest_mset:
  "forest c F as bs \<Longrightarrow> mset as = mset as' \<Longrightarrow> \<exists>bs'. forest c F as' bs' \<and> mset bs' = mset bs"
proof (induction as arbitrary: as' bs)
  case Nil
  then show ?case by auto
next
  case (Cons a as)
  then have "a \<in> set as'" by (metis list.set_intros(1) mset_eq_setD)
  then obtain x y where as': "as' = x @ a # y" by (meson split_list)
  obtain b kids b1 b2 where t: "spec_task c F a = Ret (b, kids)" and f1: "forest c F kids b1"
    and f2: "forest c F as b2" and bs: "bs = b # b1 @ b2"
    using Cons.prems(1) by (auto elim: forest_ConsE)
  obtain b3 where "forest c F (x @ y) b3" and m: "mset b3 = mset b2"
    using Cons.IH [OF f2, of "x @ y"] Cons.prems(2) as' by auto
  then obtain bx by' where "forest c F x bx" "forest c F y by'" and b3: "b3 = bx @ by'"
    by (auto simp: forest_append)
  then have "forest c F as' (bx @ b # b1 @ by')"
    unfolding as' using forest.tree [OF t f1] forest_append by blast
  then show ?case using bs b3 m [symmetric] by (intro exI [of _ "bx @ b # b1 @ by'"]) (simp add: ac_simps)
qed

text \<open>Of the batches \<open>all\<close>, those sent so far are \<open>aout\<close>.\<close>

definition conc_rel ::
  "walkConf \<Rightarrow> fsview \<Rightarrow> batch list \<Rightarrow> conc \<Rightarrow> batch list \<Rightarrow> nat \<times> nat \<Rightarrow> bool" where
  "conc_rel c F all s aout m \<longleftrightarrow>
     (\<exists>pend running out st apend gs todo left. s = Pool pend running out st \<and>
        conc_base c pend running out st apend aout gs \<and>
        mset todo = mset apend + mset (concat (map owed_kids gs)) \<and> forest c F todo left \<and>
        mset all = mset aout + mset (concat (map owed_batch gs)) + mset left \<and>
        m = (length left, sum_list (map owed_steps gs)))"

abbreviation conc_less :: "((nat \<times> nat) \<times> (nat \<times> nat)) set" where
  "conc_less \<equiv> less_than <*lex*> less_than"

lemma mset_balance:
  fixes p :: "'b multiset"
  assumes "a = p + k" and "k' + old = k + new" and "p' + new = p + old"
  shows "a = p' + k'"
proof -
  have "(p' + k') + (old + new) = (p' + new) + (k' + old)" by (simp only: ac_simps)
  also have "\<dots> = a + (old + new)" using assms by (simp add: ac_simps)
  finally show ?thesis by simp
qed

text \<open>What a worker has paid, the pool has gained: the pending items, or the batches sent.\<close>

lemma rel_pay:
  assumes base: "conc_base c pend' running' out' st' apend' aout' (gs[i := g])" and i: "i < length gs"
    and todo: "mset todo = mset apend + mset (concat (map owed_kids gs))" and f: "forest c F todo left"
    and all: "mset all = mset aout + mset (concat (map owed_batch gs)) + mset left"
    and kids: "mset apend' + mset (owed_kids g) = mset apend + mset (owed_kids (gs ! i))"
    and batches: "mset aout' + mset (owed_batch g) = mset aout + mset (owed_batch (gs ! i))"
    and less: "owed_steps g < owed_steps (gs ! i)"
  shows "\<exists>m'. conc_rel c F all (Pool pend' running' out' st') aout' m' \<and>
           (m', length left, sum_list (map owed_steps gs)) \<in> conc_less"
proof -
  have "mset todo = mset apend' + mset (concat (map owed_kids (gs[i := g])))"
    using mset_balance [OF todo mset_concat_update [OF i] kids] .
  moreover have "mset all = mset aout' + mset (concat (map owed_batch (gs[i := g]))) + mset left"
    using mset_balance [OF refl mset_concat_update [OF i] batches] all by simp
  ultimately have "conc_rel c F all (Pool pend' running' out' st') aout' (length left, sum_list (map owed_steps (gs[i := g])))"
    unfolding conc_rel_def using base f by blast
  then show ?thesis using steps_update [OF i less] by (auto intro!: exI)
qed

lemma base_worker:
  assumes "conc_base c pend running out st apend aout gs" and "i < length running" and "running ! i = Some t"
  obtains ab kids n where "gs ! i = Some (ab, kids, n)" and "sim i n t st ab kids"
  using assms by (auto simp: conc_base_def elim!: allE [of _ i] run_sim_SomeD)

lemma base_ok: "conc_base c pend running out st apend aout gs \<Longrightarrow> wm_ok st"
  by (simp add: conc_base_def)

text \<open>An operation of a worker never crashes and never hangs.\<close>

lemma base_act:
  assumes base: "conc_base c pend running out st apend aout gs" and i: "i < length running"
    and t: "running ! i = Some (Act f)"
  obtains ab kids n t' st' where "gs ! i = Some (ab, kids, Suc n)" and "f st = Ret (t', st')"
    and "guar i st st'" and "sim i n t' st' ab kids"
  by (rule base_worker [OF base i t]) (use that rely_refl [OF base_ok [OF base]] in \<open>blast elim: sim_ActE\<close>)

lemma rel_start:
  assumes view: "view_ok E F" and base: "conc_base c pend running out st apend aout gs"
    and todo: "mset todo = mset apend + mset (concat (map owed_kids gs))" and f: "forest c F todo left"
    and all: "mset all = mset aout + mset (concat (map owed_batch gs)) + mset left"
    and j: "j < length pend" and i: "i < length running" and free: "running ! i = None"
  shows "\<exists>m'. conc_rel c F all (Pool (take j pend @ drop (Suc j) pend)
           (running[i := Some (execute_task E (followLinks (wm_conf st)) i (pend ! j))]) out st) aout m' \<and>
           (m', length left, sum_list (map owed_steps gs)) \<in> conc_less"
proof -
  let ?t = "execute_task E (followLinks (wm_conf st)) i (pend ! j)" and ?apend = "take j apend @ drop (Suc j) apend"
  have c: "wm_conf st = c" and pend: "list_all2 (item_rel st) pend apend" and iw: "i < length (wm_workers st)"
    and ig: "i < length gs" and none: "gs ! i = None"
    using base i free by (auto simp: conc_base_def)
  have ja: "j < length apend" and ir: "item_rel st (pend ! j) (apend ! j)"
    using pend j by (auto simp: list_all2_conv_all_nth)
  have ap: "mset apend = add_mset (apend ! j) (mset ?apend)"
    by (subst id_take_nth_drop [OF ja]) simp
  let ?rest = "?apend @ concat (map owed_kids gs)"
  obtain left' where f': "forest c F (apend ! j # ?rest) left'" and ml: "mset left' = mset left"
    using forest_mset [OF f, of "apend ! j # ?rest"] todo ap by auto
  obtain b kids b1 b2 where sp: "spec_task c F (apend ! j) = Ret (b, kids)" and f1: "forest c F kids b1"
    and f2: "forest c F ?rest b2" and left': "left' = b # b1 @ b2"
    using f' by (auto elim: forest_ConsE)
  let ?g = "Some (Some b, kids, task_cost c F (apend ! j))"
  have "run_sim i st (Some ?t) ?g" using sim_execute [OF ir iw view, unfolded c, OF sp] c by simp
  then have "conc_base c pend (running[i := Some ?t]) out st apend aout (gs[i := ?g])"
    using base_update [OF base i guar_refl [OF base_ok [OF base]]] by blast
  then have base': "conc_base c (take j pend @ drop (Suc j) pend) (running[i := Some ?t]) out st ?apend aout (gs[i := ?g])"
    using pend unfolding conc_base_def by (auto intro: list_all2_appendI)
  have f3: "forest c F (kids @ ?rest) (b1 @ b2)" using f1 f2 forest_append by blast
  have td: "mset (kids @ ?rest) = mset ?apend + mset (concat (map owed_kids (gs[i := ?g])))"
    using mset_concat_update [OF ig, of owed_kids ?g] none by simp
  have al: "mset all = mset aout + mset (concat (map owed_batch (gs[i := ?g]))) + mset (b1 @ b2)"
    using mset_concat_update [OF ig, of owed_batch ?g] none all ml [symmetric] left' by simp
  have "length left = length left'" using ml by (metis size_mset)
  then have len: "length (b1 @ b2) < length left" using left' by simp
  have "conc_rel c F all (Pool (take j pend @ drop (Suc j) pend) (running[i := Some ?t]) out st) aout
      (length (b1 @ b2), sum_list (map owed_steps (gs[i := ?g])))"
    unfolding conc_rel_def using base' td f3 al by blast
  then show ?thesis using len by (intro exI conjI) auto
qed

text \<open>Every step of every worker keeps the invariant and lowers the measure.\<close>

lemma conc_rel_step:
  assumes rel: "conc_rel c F all s aout m" and step: "conc_step E s s'" and view: "view_ok E F"
  shows "\<exists>new m'. conc_rel c F all s' (aout @ new) m' \<and> length new \<le> 1 \<and> (m', m) \<in> conc_less"
proof -
  obtain pend running out st apend gs todo left where s: "s = Pool pend running out st"
    and base: "conc_base c pend running out st apend aout gs"
    and todo: "mset todo = mset apend + mset (concat (map owed_kids gs))" and f: "forest c F todo left"
    and all: "mset all = mset aout + mset (concat (map owed_batch gs)) + mset left"
    and m: "m = (length left, sum_list (map owed_steps gs))"
    using rel by (auto simp: conc_rel_def)
  have len: "length gs = length running" using base by (simp add: conc_base_def)
  note pay = rel_pay [OF _ _ todo f all, folded m]
  have same: ?thesis if "\<exists>m'. conc_rel c F all s' aout m' \<and> (m', m) \<in> conc_less"
    using that by (intro exI [of _ "[]"]) simp
  note update = base_update [OF base _ guar_refl [OF base_ok [OF base]]]
  show ?thesis
  proof (cases rule: conc_stepE [OF step [unfolded s]])
    case (1 j i)
    show ?thesis by (rule same) (use 1 rel_start [OF view base todo f all 1(2-4)] m in simp)
  next
    case (2 i g t st')
    obtain ab kids n where gi: "gs ! i = Some (ab, kids, Suc n)" and gu: "guar i st st'" and sim: "sim i n t st' ab kids"
      by (rule base_act [OF base 2(2,3)]) (use 2(4) in auto)
    have "conc_base c pend (running[i := Some t]) out st' apend aout (gs[i := Some (ab, kids, n)])"
      using base_update [OF base 2(2) gu, of "Some t" "Some (ab, kids, n)"] sim by simp
    from pay [OF this] show ?thesis using 2(1,2) gi len by (intro same) (cases ab; simp)
  next
    case (3 i b t)
    obtain n ab kids where gi: "gs ! i = Some (Some ab, kids, Suc n)" and br: "batch_rel st b ab"
      and sim: "sim i n t st None kids"
      by (rule base_worker [OF base 3(2,3)]) (blast elim: sim_SendE)
    have "conc_base c pend (running[i := Some t]) (out @ [b]) st apend (aout @ [ab]) (gs[i := Some (None, kids, n)])"
      using update [OF 3(2), of "Some t" "Some (None, kids, n)"] sim br by (simp add: conc_base_def list_all2_appendI)
    from pay [OF this] show ?thesis using 3(1,2) gi len by (intro exI [of _ "[ab]"]) simp
  next
    case (4 i items t)
    obtain n kids where gi: "gs ! i = Some (None, kids, Suc n)" and ir: "list_all2 (item_rel st) items kids"
      and sim: "sim i n t st None []"
      by (rule base_worker [OF base 4(2,3)]) (blast elim: sim_SpawnE)
    have "conc_base c (pend @ items) (running[i := Some t]) out st (apend @ kids) aout (gs[i := Some (None, [], n)])"
      using update [OF 4(2), of "Some t" "Some (None, [], n)"] sim ir by (simp add: conc_base_def list_all2_appendI)
    from pay [OF this] show ?thesis using 4(1,2) gi len by (intro same) simp
  next
    case (5 i)
    obtain n where gi: "gs ! i = Some (None, [], n)"
      by (rule base_worker [OF base 5(2,3)]) (blast elim: sim_FinishE)
    have "conc_base c pend (running[i := None]) out st apend aout (gs[i := None])"
      using update [OF 5(2), of None None] by simp
    from pay [OF this] show ?thesis using 5(1,2) gi len by (intro same) simp
  next
    case (6 i g p)
    show ?thesis by (rule base_act [OF base 6(2,3)]) (use 6(4) in simp)
  next
    case (7 i g)
    show ?thesis by (rule base_act [OF base 7(2,3)]) (use 7(4) in simp)
  qed
qed

lemma conc_rel_steps:
  assumes "(conc_step E)\<^sup>*\<^sup>* s s'" and "conc_rel c F all s aout m" and "view_ok E F"
  shows "\<exists>aout' m'. conc_rel c F all s' aout' m'"
  using assms(1,2) by (induction) (use conc_rel_step assms(3) in blast)+

text \<open>A run stops only when nothing is pending and every worker is free; then nothing is owed.\<close>

lemma base_progress:
  assumes base: "conc_base c pend running out st apend aout gs"
    and more: "\<not> conc_over (Pool pend running out st)"
  shows "\<exists>s'. conc_step E (Pool pend running out st) s'"
proof (cases "\<exists>i < length running. running ! i \<noteq> None")
  case True
  then obtain i t where i: "i < length running" and t: "running ! i = Some t" by auto
  show ?thesis
  proof (cases t)
    case (Act f)
    obtain t' st' where "f st = Ret (t', st')" using base_act [OF base i t [unfolded Act]] by blast
    then show ?thesis using conc_step.act [OF i t [unfolded Act]] by blast
  next
    case Finish
    then show ?thesis using conc_step.finish [OF i] t by blast
  next
    case (Send b t')
    then show ?thesis using conc_step.send [OF i] t by blast
  next
    case (Spawn items t')
    then show ?thesis using conc_step.spawn [OF i] t by blast
  qed
next
  case False
  then have "0 < length pend" and "running ! 0 = None" and "0 < length running"
    using base more by (auto simp: conc_base_def)
  then show ?thesis by (intro exI) (rule conc_step.start)
qed

lemma base_over:
  assumes base: "conc_base c pend running out st apend aout gs" and over: "conc_over (Pool pend running out st)"
  shows "apend = []" and "map owed_kids gs = replicate (length gs) []" and "map owed_batch gs = replicate (length gs) []"
proof -
  have "gs ! k = None" if "k < length gs" for k using base over that by (auto simp: conc_base_def)
  then have "gs = replicate (length gs) None" by (intro nth_equalityI) auto
  then obtain k where gs: "gs = replicate k None" by blast
  show "map owed_kids gs = replicate (length gs) []" and "map owed_batch gs = replicate (length gs) []"
    by (simp_all add: gs map_replicate)
  show "apend = []" using base over by (simp add: conc_base_def)
qed

lemma conc_rel_sound:
  assumes "conc_rel c F all s aout m"
  obtains pend running out st where "s = Pool pend running out st" and "list_all2 (batch_rel st) out aout"
    and "mset aout \<subseteq># mset all" and "conc_over s \<Longrightarrow> mset aout = mset all"
    and "\<not> conc_over s \<Longrightarrow> \<exists>s'. conc_step E s s'"
proof -
  obtain pend running out st apend gs todo left where s: "s = Pool pend running out st"
    and base: "conc_base c pend running out st apend aout gs"
    and todo: "mset todo = mset apend + mset (concat (map owed_kids gs))" and f: "forest c F todo left"
    and all: "mset all = mset aout + mset (concat (map owed_batch gs)) + mset left"
    using assms by (auto simp: conc_rel_def)
  have over: "mset aout = mset all" if "conc_over s"
  proof -
    note o = base_over [OF base that [unfolded s]]
    have "todo = []" using todo o(1,2) by simp
    then show ?thesis using f all o(3) by simp
  qed
  have "list_all2 (batch_rel st) out aout" using base by (simp add: conc_base_def)
  moreover have "mset aout \<subseteq># mset all" using all by (simp add: add.assoc)
  moreover have "\<exists>s'. conc_step E s s'" if "\<not> conc_over s" using base_progress [OF base] s that by simp
  ultimately show ?thesis by (intro that [OF s _ _ over])
qed

section \<open>Every interleaving delivers the tree\<close>

lemma conc_rel_start:
  assumes "wm_ok st" and "wm_workers st \<noteq> []" and "item_rel st it a" and "forest (wm_conf st) F [a] bs"
  shows "conc_rel (wm_conf st) F bs (conc_start it st) [] (length bs, 0)"
proof -
  let ?n = "length (wm_workers st)"
  have base: "conc_base (wm_conf st) [it] (replicate ?n None) [] st [a] [] (replicate ?n None)"
    using assms(1-3) by (simp add: conc_base_def)
  have none: "concat (map owed_kids (replicate ?n None)) = []" "concat (map owed_batch (replicate ?n None)) = []"
    "sum_list (map owed_steps (replicate ?n None)) = 0"
    by (simp_all add: map_replicate)
  have td: "mset [a] = mset [a] + mset (concat (map owed_kids (replicate ?n None)))"
    and al: "mset bs = mset [] + mset (concat (map owed_batch (replicate ?n None))) + mset bs"
    and m: "(length bs, 0::nat) = (length bs, sum_list (map owed_steps (replicate ?n None)))"
    unfolding none by simp_all
  show ?thesis unfolding conc_rel_def conc_start_def using base td assms(4) al m by blast
qed

lemma conc_rel_Walk:
  assumes "wm_ok st" and "wm_workers st \<noteq> []" and "view_ok E F"
    and "forest (wm_conf st) F [spec_root (wm_conf st) F root] bs"
  obtains it st0 where "Walk E root st = Ret (it, st0)" and "length (wm_workers st0) = length (wm_workers st)"
    and "conc_rel (wm_conf st) F bs (conc_start it st0) [] (length bs, 0)"
proof -
  obtain it st0 where w: "Walk E root st = Ret (it, st0)" "wm_ok st0" "item_rel st0 it (spec_root (wm_conf st) F root)"
    and kp: "wm_keeps st st0"
    using Walk_ok [OF assms(1,3)] by blast
  have c: "wm_conf st0 = wm_conf st" and l: "length (wm_workers st0) = length (wm_workers st)"
    using wm_keepsD(5,6) [OF kp] by simp_all
  have "wm_workers st0 \<noteq> []" using assms(2) l by auto
  then have "conc_rel (wm_conf st) F bs (conc_start it st0) [] (length bs, 0)"
    using conc_rel_start [OF w(2) _ w(3)] assms(4) c by metis
  then show ?thesis by (rule that [OF w(1) l])
qed

lemma no_infinite_descent:
  assumes "wf R" and step: "\<And>k m. P (f k) m \<Longrightarrow> \<exists>m'. P (f (Suc k)) m' \<and> (m', m) \<in> R" and "P (f (0::nat)) m0"
  shows False
proof -
  have "\<exists>g. (\<forall>k. P (f k) (g k)) \<and> (\<forall>k. (g (Suc k), g k) \<in> R)"
    using dependent_nat_choice [of "\<lambda>k m. P (f k) m" "\<lambda>k m m'. (m', m) \<in> R"] assms(2,3) by blast
  then show False using assms(1) by (auto simp: wf_iff_no_infinite_down_chain)
qed

lemma conc_no_infinite_run:
  assumes init: "conc_rel c F all (f 0) aout m" and view: "view_ok E F" and steps: "\<And>k. conc_step E (f k) (f (Suc k))"
  shows False
proof -
  have "wf conc_less" by auto
  then show False
    by (rule no_infinite_descent [of _ "\<lambda>s m. \<exists>aout. conc_rel c F all s aout m" f])
      (use conc_rel_step [OF _ steps view] init in blast)+
qed

text \<open>
  C2. Every interleaving delivers the tree. The tasks of the workers interleave at every
  operation: one directory read, one stored path, one reservation, one pass of a loop, one
  send, one spawn. From a well-formed walker with at least one worker, for a file system whose
  walk from the root is the finite list of batches \<open>bs\<close>: in every state any run can reach,
  nothing has crashed or hangs, the batches sent so far all read as they should, and are
  batches of the reference walk, each at most once; a run that is over has sent all of them,
  one that is not can go on, and no run goes on forever.
\<close>

theorem interleaved_walk_delivers_tree:
  assumes "wm_ok st" and "wm_workers st \<noteq> []" and "view_ok E F"
    and "forest (wm_conf st) F [spec_root (wm_conf st) F root] bs"
  shows "\<exists>it st0. Walk E root st = Ret (it, st0) \<and>
           (\<forall>s. (conc_step E)\<^sup>*\<^sup>* (conc_start it st0) s \<longrightarrow>
              (\<exists>pend running out st' abs. s = Pool pend running out st' \<and> list_all2 (batch_rel st') out abs \<and>
                 mset abs \<subseteq># mset bs \<and> (conc_over s \<longrightarrow> mset abs = mset bs) \<and>
                 (\<not> conc_over s \<longrightarrow> (\<exists>s'. conc_step E s s')))) \<and>
           \<not> (\<exists>f. f 0 = conc_start it st0 \<and> (\<forall>k. conc_step E (f k) (f (Suc k))))"
proof -
  obtain it st0 where w: "Walk E root st = Ret (it, st0)"
    and init: "conc_rel (wm_conf st) F bs (conc_start it st0) [] (length bs, 0)"
    using assms by (rule conc_rel_Walk)
  have sound: "\<exists>pend running out st' abs. s = Pool pend running out st' \<and> list_all2 (batch_rel st') out abs \<and>
                 mset abs \<subseteq># mset bs \<and> (conc_over s \<longrightarrow> mset abs = mset bs) \<and>
                 (\<not> conc_over s \<longrightarrow> (\<exists>s'. conc_step E s s'))"
    if run: "(conc_step E)\<^sup>*\<^sup>* (conc_start it st0) s" for s
  proof -
    obtain aout m where "conc_rel (wm_conf st) F bs s aout m" using conc_rel_steps [OF run init assms(3)] by blast
    then show ?thesis by (rule conc_rel_sound [of _ _ _ _ _ _ E]) blast
  qed
  have "\<not> (\<exists>f. f 0 = conc_start it st0 \<and> (\<forall>k. conc_step E (f k) (f (Suc k))))"
    using conc_no_infinite_run [OF _ assms(3)] init by metis
  then show ?thesis using w sound by blast
qed

theorem interleaved_walk_delivers_tree_witness:
  "\<exists>st it st0. length (wm_workers st0) = 2 \<and> Walk demo_env [116] st = Ret (it, st0) \<and>
     (\<forall>s. (conc_step demo_env)\<^sup>*\<^sup>* (conc_start it st0) s \<and> conc_over s \<longrightarrow>
        (\<exists>running out st' abs. s = Pool [] running out st' \<and> list_all2 (batch_rel st') out abs \<and>
           mset abs = {#\<lparr>b_dir = [116], b_entries = [demo_entry [97] 2 4, demo_entry [98] 3 8],
                          b_errs = [\<lparr>errName = [108], errErr = ErrSymlinkCycle\<rparr>]\<rparr>,
                        \<lparr>b_dir = [116, 47, 97], b_entries = [], b_errs = []\<rparr>#}))"
proof -
  obtain st it0 st1 where w: "wm_ok st" "wm_conf st = demo_conf True 0" "length (wm_workers st) = 2"
    "Walk demo_env [116] st = Ret (it0, st1)" "length (wm_workers st1) = 2"
    by (rule demo_walker [of True])
  then have ne: "wm_workers st \<noteq> []" by auto
  let ?bs = "demo_batches True"
  obtain it st0 where walk: "Walk demo_env [116] st = Ret (it, st0)"
    and all: "\<And>s. (conc_step demo_env)\<^sup>*\<^sup>* (conc_start it st0) s \<Longrightarrow>
      \<exists>pend running out st' abs. s = Pool pend running out st' \<and> list_all2 (batch_rel st') out abs \<and>
         (conc_over s \<longrightarrow> mset abs = mset ?bs)"
    using interleaved_walk_delivers_tree [OF w(1) ne demo_view_ok demo_forest [of True, folded w(2)]] by metis
  have "\<exists>running out st' abs. s = Pool [] running out st' \<and> list_all2 (batch_rel st') out abs \<and> mset abs = mset ?bs"
    if "(conc_step demo_env)\<^sup>*\<^sup>* (conc_start it st0) s \<and> conc_over s" for s
    using all [of s] that by auto
  moreover have "length (wm_workers st0) = 2" using walk w(4,5) by simp
  ultimately show ?thesis using walk unfolding demo_batches_simps
    by (intro exI [of _ st] exI [of _ it] exI [of _ st0]) simp
qed

end
