(* ===== verification/Walk_Props.thy ===== *)
theory Walk_Props
  imports Walk_Run
begin

text \<open>
  What a walk guarantees. The statements are about \<open>forest\<close>, the batches every run delivers
  (\<open>Walk_Run\<close>): one batch per reported directory, the skip list and the depth limit, the two
  reasons a walk ends (the depth limit, and cycle detection over finitely many directories),
  and the agreement of the two tasks on trees without symlinks. The last section states the
  behaviours that deviate: a root with a NUL byte, the inherited device number, the depth
  limit that is the largest 32-bit value.
\<close>

section \<open>One task of the specification\<close>

lemma fates_Ret:
  assumes "fates c F a es = Ret fs"
  shows "map fst fs = es" and "\<And>e f. (e, f) \<in> set fs \<Longrightarrow> spec_entry c F a e = Ret f"
proof -
  have "map fst fs = es \<and> (\<forall>(e, f) \<in> set fs. spec_entry c F a e = Ret f)"
    using assms by (induction es arbitrary: fs) (auto simp: fates_simps obind_Ret_iff)
  then show "map fst fs = es" and "\<And>e f. (e, f) \<in> set fs \<Longrightarrow> spec_entry c F a e = Ret f" by auto
qed

lemma fates_total:
  assumes "\<And>e. e \<in> set es \<Longrightarrow> \<exists>f. spec_entry c F a e = Ret f"
  shows "\<exists>fs. fates c F a es = Ret fs"
  using assms
proof (induction es)
  case (Cons e es)
  then obtain f fs where "spec_entry c F a e = Ret f" "fates c F a es = Ret fs" by (meson list.set_intros)
  then show ?case by (simp add: fates_simps)
qed (simp add: fates_simps)

lemma fates_panic:
  assumes "e \<in> set es" and "spec_entry c F a e = Panic NilDeref"
    and "\<And>e'. (\<exists>f. spec_entry c F a e' = Ret f) \<or> spec_entry c F a e' = Panic NilDeref"
  shows "fates c F a es = Panic NilDeref"
  using assms(1)
proof (induction es)
  case (Cons x es)
  show ?case
  proof (cases "spec_entry c F a x = Panic NilDeref")
    case True
    then show ?thesis by (simp add: fates_simps)
  next
    case False
    then obtain f where "spec_entry c F a x = Ret f" using assms(3) by blast
    moreover have "e \<in> set es" using Cons.prems False assms(2) by auto
    ultimately show ?thesis using Cons.IH by (simp add: fates_simps)
  qed
qed simp

lemma fate_sets:
  "e' \<in> set (kept fs) \<longleftrightarrow> (\<exists>e r. (e, Some e', r) \<in> set fs)"
  "d \<in> set (reported fs) \<longleftrightarrow>
     (\<exists>e k x r. (e, k, Some x, r) \<in> set fs \<and> d = \<lparr>errName = entName e, errErr = x\<rparr>)"
  "ch \<in> set (spawned fs) \<longleftrightarrow> (\<exists>e k x. (e, k, x, Some ch) \<in> set fs)"
  subgoal by (induction fs rule: kept.induct) auto
  subgoal by (induction fs rule: reported.induct) auto
  subgoal by (induction fs rule: spawned.induct) auto
  done

text \<open>The fate of an entry, by cases.\<close>

lemma spec_entry_cases:
  assumes "spec_entry c F a e = Ret (k, x, ch)"
  shows "k = Some e' \<Longrightarrow> entName e' = entName e \<and> parentDir e' = parentDir e"
    and "ch = Some kid \<Longrightarrow> \<exists>e'. k = Some e' \<and> IsDir e' \<and> deeper c a \<and>
           (\<exists>t. kid = child_of a (entName e) (t # ancestor a) \<and>
              (etyp e = dtLnk \<and> t \<notin> set (ancestor a) \<and>
                 (\<exists>info. fs_stat F (path_join (path a) (entName e)) = Inr info \<and>
                    mode_IsDir (fi_Mode info) \<and> fi_Sys info = Some t)
               \<or> etyp e = dtDir \<and> fst t = ino e \<and> ancestor a \<noteq> [] \<and> snd t = snd (hd (ancestor a))))"
    and "k = Some e' \<Longrightarrow> IsDir e' \<Longrightarrow> deeper c a \<Longrightarrow> \<exists>ids. ch = Some (child_of a (entName e') ids)"
  using assms
  by (auto simp: spec_entry_def spec_link_def IsDir_def dt_defs dTypeFromInfo_def Let_def
      split: if_splits list.splits sum.splits option.splits)


lemma spec_entry_result:
  "followLinks c \<Longrightarrow> ancestor a \<noteq> [] \<Longrightarrow> \<exists>f. spec_entry c F a e = Ret f"
  "(\<exists>f. spec_entry c F a e = Ret f) \<or> spec_entry c F a e = Panic NilDeref"
  by (cases "spec_link c F a e"; auto simp: spec_entry_def split: list.split)+

lemma listed_iff:
  "e \<in> set (listed c dir ds) \<longleftrightarrow>
     (\<exists>d \<in> set ds. d_name d \<notin> dots \<union> skipSet c \<and>
        e = \<lparr>parentDir = dir, entName = d_name d, ino = d_ino d, etyp = d_type d\<rparr>)"
  by (auto simp: listed_def)

text \<open>A task with a chain (or without link following) returns, and says this of its children.\<close>

definition chained :: "walkConf \<Rightarrow> aitem \<Rightarrow> bool" where
  "chained c a \<longleftrightarrow> (followLinks c \<longrightarrow> ancestor a \<noteq> [])"

lemma spec_task_total:
  assumes "chained c a"
  shows "\<exists>b kids. spec_task c F a = Ret (b, kids)"
proof (cases "followLinks c")
  case False
  then show ?thesis by (simp add: spec_task_def)
next
  case fl: True
  obtain ds e where fs: "fs_list F (cstr (path a)) = (ds, e)" by fastforce
  obtain fs' where "fates c F a (listed c (path a) ds) = Ret fs'"
    using fates_total spec_entry_result(1) [OF fl] assms fl by (metis chained_def)
  then show ?thesis using fl fs by (cases e) (simp_all add: spec_task_def spec_visitSym_def)
qed

text \<open>The entries a batch shows are entries of the listing, under their own names.\<close>

lemma spec_task_entries:
  assumes t: "spec_task c F a = Ret (b, kids)" and e: "e \<in> set (b_entries b)"
  shows "b_dir b = path a" and "entName e \<notin> dots \<union> skipSet c" and "parentDir e = path a"
    and "entName e \<in> d_name ` set (fst (fs_list F (cstr (path a))))"
proof -
  obtain ds er where fs: "fs_list F (cstr (path a)) = (ds, er)" by fastforce
  have er: "er = None"
    using t e fs by (cases er) (auto simp: spec_task_def spec_visitSym_def spec_visit_def failed_def split: if_splits)
  have "b_dir b = path a \<and> entName e \<notin> dots \<union> skipSet c \<and> parentDir e = path a \<and>
      entName e \<in> d_name ` set (fst (fs_list F (cstr (path a))))"
  proof (cases "followLinks c")
    case False
    then have "b = \<lparr>b_dir = path a, b_entries = listed c (path a) ds, b_errs = []\<rparr>"
      using t fs er by (simp add: spec_task_def spec_visit_def Let_def)
    then show ?thesis using e fs by (auto simp: listed_iff)
  next
    case True
    then obtain fs' where f: "fates c F a (listed c (path a) ds) = Ret fs'"
      and b: "b = \<lparr>b_dir = path a, b_entries = kept fs', b_errs = reported fs'\<rparr>"
      using t fs er by (auto simp: spec_task_def spec_visitSym_def)
    then obtain e0 r where r: "(e0, Some e, r) \<in> set fs'" using e by (auto simp: fate_sets)
    then have "e0 \<in> set (listed c (path a) ds)"
      using fates_Ret(1) [OF f] by (metis fst_conv image_eqI set_map)
    moreover obtain x ch where "spec_entry c F a e0 = Ret (Some e, x, ch)"
      using fates_Ret(2) [OF f r] by (cases r) auto
    ultimately show ?thesis
      using spec_entry_cases(1) [of c F a e0 "Some e" x ch e] b fs by (auto simp: listed_iff)
  qed
  then show "b_dir b = path a" "entName e \<notin> dots \<union> skipSet c" "parentDir e = path a"
    "entName e \<in> d_name ` set (fst (fs_list F (cstr (path a))))" by auto
qed

lemma spec_task_dir: "spec_task c F a = Ret (b, kids) \<Longrightarrow> b_dir b = path a"
  by (auto simp: spec_task_def spec_visitSym_def spec_visit_def failed_def Let_def
      split: if_splits prod.splits option.splits)

text \<open>The children: one per directory the batch shows, in order, if the depth limit allows.\<close>

lemma fates_spawned:
  assumes "\<And>e f. (e, f) \<in> set fs \<Longrightarrow> spec_entry c F a e = Ret f"
  shows "\<exists>idss. length idss = length (filter IsDir (kept fs)) \<and>
     spawned fs = (if deeper c a then
       map (\<lambda>(e, ids). child_of a (entName e) ids) (zip (filter IsDir (kept fs)) idss) else [])"
  using assms
proof (induction fs)
  case Nil
  then show ?case by simp
next
  case (Cons p fs)
  obtain e k x ch where p: "p = (e, k, x, ch)" by (metis prod_cases4)
  have en: "spec_entry c F a e = Ret (k, x, ch)" using Cons.prems p by auto
  obtain idss where len: "length idss = length (filter IsDir (kept fs))"
    and sp: "spawned fs = (if deeper c a then
       map (\<lambda>(e, ids). child_of a (entName e) ids) (zip (filter IsDir (kept fs)) idss) else [])"
    using Cons.IH Cons.prems by fastforce
  note c = spec_entry_cases [OF en]
  have no: "ch = None" if "\<not> deeper c a \<or> k = None \<or> (\<exists>e'. k = Some e' \<and> \<not> IsDir e')"
    using c(2) that by (cases ch) fastforce+
  show ?case
  proof (cases "\<exists>e'. k = Some e' \<and> IsDir e'")
    case False
    then have "ch = None" using no by (cases k) auto
    then show ?thesis
      using False len sp by (intro exI [of _ idss]) (cases k; cases x; simp add: p)
  next
    case True
    then obtain e' where k: "k = Some e'" "IsDir e'" by auto
    show ?thesis
    proof (cases "deeper c a")
      case False
      then have "ch = None" using no by simp
      then show ?thesis
        using False len sp k by (intro exI [of _ "[] # idss"]) (cases x; simp add: p)
    next
      case True
      then obtain ids where "ch = Some (child_of a (entName e') ids)" using c(3) k by blast
      then show ?thesis
        using True len sp k by (intro exI [of _ "ids # idss"]) (cases x; simp add: p)
    qed
  qed
qed

lemma spec_task_kids:
  assumes t: "spec_task c F a = Ret (b, kids)"
  shows "\<exists>idss. length idss = length (filter IsDir (b_entries b)) \<and>
     kids = (if deeper c a then
       map (\<lambda>(e, ids). child_of a (entName e) ids) (zip (filter IsDir (b_entries b)) idss) else [])"
proof -
  obtain ds er where fs: "fs_list F (cstr (path a)) = (ds, er)" by fastforce
  show ?thesis
  proof (cases er)
    case (Some n)
    then show ?thesis
      using t fs by (auto simp: spec_task_def spec_visitSym_def spec_visit_def failed_def split: if_splits)
  next
    case er: None
    show ?thesis
    proof (cases "followLinks c")
      case True
      then obtain fs' where f: "fates c F a (listed c (path a) ds) = Ret fs'"
        and b: "b = \<lparr>b_dir = path a, b_entries = kept fs', b_errs = reported fs'\<rparr>" "kids = spawned fs'"
        using t fs er by (auto simp: spec_task_def spec_visitSym_def)
      from fates_spawned [of fs' c F a, OF fates_Ret(2) [OF f]] show ?thesis
        unfolding b by (simp only: batch.select_convs)
    next
      case False
      then have b: "b_entries b = listed c (path a) ds"
        and k: "kids = (if deeper c a then map (\<lambda>e. child_of a (entName e) []) (filter IsDir (b_entries b)) else [])"
        using t fs er by (auto simp: spec_task_def spec_visit_def Let_def)
      have "map (\<lambda>e. child_of a (entName e) []) es =
          map (\<lambda>(e, ids). child_of a (entName e) ids) (zip es (map (\<lambda>_. []) es))" for es :: "aentry list"
        by (induction es) auto
      then show ?thesis
        using k by (intro exI [of _ "map (\<lambda>_. []) (filter IsDir (b_entries b))"]) simp
    qed
  qed
qed

lemma zip_fst_map: "length ys = length xs \<Longrightarrow> map (\<lambda>(x, y). f x) (zip xs ys) = map f xs"
  by (induction xs ys rule: list_induct2') auto

lemma spec_task_kid_paths:
  assumes "spec_task c F a = Ret (b, kids)"
  shows "map path kids = (if deeper c a then
           map (\<lambda>e. path_join (path a) (entName e)) (filter IsDir (b_entries b)) else [])"
    and "k \<in> set kids \<Longrightarrow> deeper c a \<and> depth k = depth a + 1"
    and "k \<in> set kids \<Longrightarrow> \<exists>e \<in> set (b_entries b). IsDir e \<and> path k = path_join (path a) (entName e)"
proof -
  obtain idss where len: "length idss = length (filter IsDir (b_entries b))"
    and kids: "kids = (if deeper c a then
       map (\<lambda>(e, ids). child_of a (entName e) ids) (zip (filter IsDir (b_entries b)) idss) else [])"
    using spec_task_kids [OF assms] by blast
  have "map path (map (\<lambda>(e, ids). child_of a (entName e) ids) (zip (filter IsDir (b_entries b)) idss)) =
      map (\<lambda>(e, ids). path_join (path a) (entName e)) (zip (filter IsDir (b_entries b)) idss)"
    by (auto simp: child_of_def)
  then show "map path kids = (if deeper c a then
           map (\<lambda>e. path_join (path a) (entName e)) (filter IsDir (b_entries b)) else [])"
    using kids zip_fst_map [OF len, of "\<lambda>e. path_join (path a) (entName e)"] by simp
  assume k: "k \<in> set kids"
  then obtain e ids where "deeper c a" "(e, ids) \<in> set (zip (filter IsDir (b_entries b)) idss)"
    "k = child_of a (entName e) ids"
    using kids by (auto split: if_splits)
  moreover from this(2) have "e \<in> set (filter IsDir (b_entries b))" by (rule set_zip_leftD)
  ultimately show "deeper c a \<and> depth k = depth a + 1"
    and "\<exists>e \<in> set (b_entries b). IsDir e \<and> path k = path_join (path a) (entName e)"
    by (auto simp: child_of_def)
qed

text \<open>The ancestors of a child extend the parent's.\<close>

lemma spec_task_chains:
  assumes t: "spec_task c F a = Ret (b, kids)" and k: "k \<in> set kids" and fl: "followLinks c"
  shows "\<exists>t e. ancestor k = t # ancestor a \<and> path k = path_join (path a) (entName e) \<and>
     e \<in> set (listed c (path a) (fst (fs_list F (cstr (path a))))) \<and>
     (etyp e = dtLnk \<and> t \<notin> set (ancestor a) \<and>
        (\<exists>info. fs_stat F (path_join (path a) (entName e)) = Inr info \<and>
           mode_IsDir (fi_Mode info) \<and> fi_Sys info = Some t)
      \<or> etyp e = dtDir \<and> t = (ino e, snd (hd (ancestor a))))"
proof -
  obtain ds er where fs: "fs_list F (cstr (path a)) = (ds, er)" by fastforce
  have er: "er = None"
    using t k fs fl by (cases er) (auto simp: spec_task_def spec_visitSym_def)
  then obtain fs' where f: "fates c F a (listed c (path a) ds) = Ret fs'" and kids: "kids = spawned fs'"
    using t fs fl by (auto simp: spec_task_def spec_visitSym_def)
  then obtain e kk x where r: "(e, kk, x, Some k) \<in> set fs'" using k by (auto simp: fate_sets)
  then have "e \<in> set (listed c (path a) ds)"
    using fates_Ret(1) [OF f] by (metis fst_conv image_eqI set_map)
  moreover obtain t where "k = child_of a (entName e) (t # ancestor a)"
    and "etyp e = dtLnk \<and> t \<notin> set (ancestor a) \<and>
                 (\<exists>info. fs_stat F (path_join (path a) (entName e)) = Inr info \<and>
                    mode_IsDir (fi_Mode info) \<and> fi_Sys info = Some t)
               \<or> etyp e = dtDir \<and> fst t = ino e \<and> ancestor a \<noteq> [] \<and> snd t = snd (hd (ancestor a))"
    using spec_entry_cases(2) [OF fates_Ret(2) [OF f r] refl] by blast
  moreover have "t = (ino e, snd (hd (ancestor a)))" if "fst t = ino e" "snd t = snd (hd (ancestor a))"
    using that by (cases t) auto
  ultimately show ?thesis
    by (intro exI [of _ t] exI [of _ e]) (auto simp: child_of_def fs)
qed

lemma chained_kids:
  "spec_task c F a = Ret (b, kids) \<Longrightarrow> k \<in> set kids \<Longrightarrow> chained c k"
  using spec_task_chains [of c F a b kids k] by (auto simp: chained_def)

section \<open>Every reported directory is delivered exactly once\<close>

lemma forest_dirs:
  assumes "forest c F as bs" and "maxDepth c = 0"
  shows "mset (map b_dir bs) = mset (map path as) +
           mset (concat (map (\<lambda>b. map (\<lambda>e. path_join (b_dir b) (entName e)) (filter IsDir (b_entries b))) bs))"
  using assms(1)
proof (induction rule: forest.induct)
  case nil
  then show ?case by simp
next
  case (tree a b as bs rest bs')
  have "map path as = map (\<lambda>e. path_join (b_dir b) (entName e)) (filter IsDir (b_entries b))"
    using spec_task_kid_paths(1) [OF tree.hyps(1)] spec_task_dir [OF tree.hyps(1)] assms(2)
    by (simp add: deeper_def)
  then show ?case using tree.IH spec_task_dir [OF tree.hyps(1)] by simp
qed

text \<open>
  C14. No directory is lost and none is walked twice: when a walk with no depth limit is over,
  under any schedule, the directories of the delivered batches are, counted with
  multiplicity, the cleaned root and one directory \<open>dir/name\<close> for every directory entry of
  every delivered batch; with symlinks followed, the links to directories that are not
  cycles count as directory entries.
\<close>

theorem one_batch_per_directory:
  assumes "wm_ok st" and "wm_workers st \<noteq> []" and "view_ok E F"
    and "walked E root st st' bs" and "maxDepth (wm_conf st) = 0"
  shows "mset (map b_dir bs) = add_mset (Clean root)
           (mset (concat (map (\<lambda>b. map (\<lambda>e. path_join (b_dir b) (entName e)) (filter IsDir (b_entries b))) bs)))"
proof -
  obtain bs' where f: "forest (wm_conf st) F [spec_root (wm_conf st) F root] bs'" and m: "mset bs = mset bs'"
    using assms(4,1-3) by (rule walked_forest)
  show ?thesis
    using forest_dirs [OF f assms(5)] mset_map_cong [OF m, of b_dir]
      mset_concat_cong [OF m, of "\<lambda>b. map (\<lambda>e. path_join (b_dir b) (entName e)) (filter IsDir (b_entries b))"]
    by (simp add: spec_root_def)
qed

theorem one_batch_per_directory_witness:
  "\<exists>st st' bs. walked demo_env [116] st st' bs \<and> mset bs = mset (demo_batches True) \<and>
     mset (map b_dir bs) = add_mset [116]
       (mset (concat (map (\<lambda>b. map (\<lambda>e. path_join (b_dir b) (entName e)) (filter IsDir (b_entries b))) bs)))"
proof -
  obtain st st' bs where w: "wm_ok st" "wm_workers st \<noteq> []" "wm_conf st = demo_conf True 0"
    "walked demo_env [116] st st' bs" "mset bs = mset (demo_batches True)"
    by (rule demo_walked [of True])
  have "maxDepth (wm_conf st) = 0" by (simp add: w(3))
  from one_batch_per_directory [OF w(1,2) demo_view_ok w(4) this] show ?thesis
    using w(4,5) unfolding demo_Clean by blast
qed

section \<open>Skip list and depth limit\<close>

text \<open>
  \<open>below p names d\<close>: the path \<open>d\<close> is reached from \<open>p\<close> by going into the directories \<open>names\<close>,
  one element of a path each. There is at most one such list.
\<close>

definition below :: "gostring \<Rightarrow> gostring list \<Rightarrow> gostring \<Rightarrow> bool" where
  "below p names d \<longleftrightarrow> (\<forall>n \<in> set names. plain n) \<and> d = foldl path_join p names"

lemma foldl_path_join_eq:
  assumes "\<forall>n \<in> set names. plain n" and "names \<noteq> []"
  shows "foldl path_join p names = path_join p (join_on slash names) \<and> last (foldl path_join p names) \<noteq> slash"
  using assms
proof (induction names rule: rev_induct)
  case (snoc n names)
  have n: "n \<noteq> []" "last n \<noteq> slash" using snoc.prems by (auto simp: plain_def dest: last_in_set)
  show ?case
  proof (cases "names = []")
    case True
    then show ?thesis using n by (simp add: path_join_def)
  next
    case False
    have "\<forall>n \<in> set names. plain n" using snoc.prems(1) by simp
    then have ih: "foldl path_join p names = path_join p (join_on slash names)" "last (foldl path_join p names) \<noteq> slash"
      using snoc.IH False by blast+
    have "path_join x n = x @ slash # n" if "last x \<noteq> slash" for x
      using that by (simp add: path_join_def PathSeparator_def slash_def)
    then have "foldl path_join p (names @ [n]) = path_join p (join_on slash names) @ slash # n"
      using ih by simp
    moreover have "path_join p (join_on slash (names @ [n])) = path_join p (join_on slash names) @ slash # n"
      using False by (simp add: path_join_def join_on_snoc)
    ultimately show ?thesis using n by simp
  qed
qed simp

lemma below_unique:
  assumes "below p names d" and "below p names' d"
  shows "names = names'"
proof -
  have split: "names = (if d = p then [] else split_on slash (drop (length (path_join p [])) d))"
    if b: "below p names d" for names
  proof (cases "names = []")
    case True
    then show ?thesis using b by (simp add: below_def)
  next
    case False
    have pl: "\<forall>n \<in> set names. plain n" and d: "d = path_join p (join_on slash names)"
      using b foldl_path_join_eq [OF _ False, of p] by (auto simp: below_def)
    have ne: "join_on slash names \<noteq> []" using False pl by (auto simp: join_on_Nil_iff plain_def)
    have "split_on slash (join_on slash names) = names"
      using pl by (intro split_join False) (auto simp: plain_def)
    moreover have "drop (length (path_join p [])) d = join_on slash names" using d by (simp add: path_join_def)
    moreover have "d \<noteq> p" using d ne by (auto simp: path_join_def)
    ultimately show ?thesis by simp
  qed
  show ?thesis using split [OF assms(1)] split [OF assms(2)] by simp
qed

lemma foldl_path_join:
  "b_dir b = foldl path_join (path_join p n) ns \<Longrightarrow> b_dir b = foldl path_join p (n # ns)"
  by simp

lemma forest_below:
  assumes "forest c F as bs" and "b \<in> set bs" and names: "names_ok F"
  shows "\<exists>a \<in> set as. \<exists>names. below (path a) names (b_dir b) \<and>
           set names \<inter> (dots \<union> skipSet c) = {} \<and>
           (\<forall>e \<in> set (b_entries b). entName e \<notin> dots \<union> skipSet c) \<and>
           (maxDepth c \<noteq> 0 \<and> maxDepth c \<noteq> - 1 \<and> depth a \<le> maxDepth c \<longrightarrow>
              unat (depth a) + length names \<le> unat (maxDepth c))"
  using assms(1,2)
proof (induction arbitrary: rule: forest.induct)
  case nil
  then show ?case by simp
next
  case (tree a b0 as bs rest bs')
  consider (here) "b = b0" | (kid) "b \<in> set bs" | (later) "b \<in> set bs'" using tree.prems by auto
  then show ?case
  proof cases
    case here
    then show ?thesis
      using spec_task_entries [OF tree.hyps(1)] spec_task_dir [OF tree.hyps(1)]
      by (intro bexI [of _ a] exI [of _ "[]"]) (auto simp: word_le_nat_alt below_def)
  next
    case kid
    then obtain k names where k: "k \<in> set as" and d: "below (path k) names (b_dir b)"
      and nm: "set names \<inter> (dots \<union> skipSet c) = {}" "\<forall>e \<in> set (b_entries b). entName e \<notin> dots \<union> skipSet c"
      and lim: "maxDepth c \<noteq> 0 \<and> maxDepth c \<noteq> - 1 \<and> depth k \<le> maxDepth c \<longrightarrow>
              unat (depth k) + length names \<le> unat (maxDepth c)"
      using tree.IH(1) by blast
    obtain e where e: "e \<in> set (b_entries b0)" "path k = path_join (path a) (entName e)"
      using spec_task_kid_paths(3) [OF tree.hyps(1) k] by blast
    have dp: "deeper c a" "depth k = depth a + 1" using spec_task_kid_paths(2) [OF tree.hyps(1) k] by auto
    have "unat (depth a) + length (entName e # names) \<le> unat (maxDepth c)"
      if h: "maxDepth c \<noteq> 0" "maxDepth c \<noteq> - 1" "depth a \<le> maxDepth c"
    proof -
      have "depth a \<noteq> - 1" using h by (metis word_order.extremum_unique)
      then have "1 + depth a \<noteq> 0" by (metis add_eq_0_iff2 add.commute)
      then have "unat (depth a + 1) = Suc (unat (depth a))" using unatSuc [of "depth a"] by (simp add: add.commute)
      moreover have "depth k \<le> maxDepth c" using dp h by (simp add: deeper_def)
      ultimately show ?thesis using lim h dp by simp
    qed
    moreover have "plain (entName e)"
    proof -
      obtain d where "d \<in> set (fst (fs_list F (cstr (path a))))" "entName e = d_name d"
        using spec_task_entries(4) [OF tree.hyps(1) e(1)] by auto
      then show ?thesis
        using spec_task_entries(2) [OF tree.hyps(1) e(1)] names
        by (simp add: names_ok_def plain_def dots_def dot_def dotdot_def)
    qed
    ultimately show ?thesis
      using d e nm spec_task_entries(2) [OF tree.hyps(1) e(1)]
      by (intro bexI [of _ a] exI [of _ "entName e # names"]) (auto simp: below_def)
  next
    case later
    then show ?thesis using tree.IH(2) by (meson list.set_intros(2))
  qed
qed

text \<open>
  C24. The skip list prunes: on a file system whose entry names are single path elements, every
  directory a walk delivers is reached from the cleaned root by exactly one list of names,
  and none of them, at any level, is in the skip list (or a dot entry); so nothing below a
  skipped directory is ever read. And no batch shows an entry with a skipped name.
\<close>

theorem skip_prunes:
  assumes "wm_ok st" and "wm_workers st \<noteq> []" and "view_ok E F" and "names_ok F"
    and "walked E root st st' bs" and "b \<in> set bs"
  shows "(\<exists>names. (\<forall>ns. below (Clean root) ns (b_dir b) \<longleftrightarrow> ns = names) \<and>
            set names \<inter> (dots \<union> skipSet (wm_conf st)) = {}) \<and>
         (\<forall>e \<in> set (b_entries b). entName e \<notin> skipSet (wm_conf st))"
proof -
  obtain bs' where f: "forest (wm_conf st) F [spec_root (wm_conf st) F root] bs'" and m: "mset bs = mset bs'"
    using assms(5,1-3) by (rule walked_forest)
  have b: "b \<in> set bs'" using assms(6) mset_eq_setD [OF m] by simp
  obtain names where "below (Clean root) names (b_dir b)" "set names \<inter> (dots \<union> skipSet (wm_conf st)) = {}"
    and es: "\<forall>e \<in> set (b_entries b). entName e \<notin> skipSet (wm_conf st)"
    using forest_below [OF f b assms(4)] by (auto simp: spec_root_def)
  then have "(\<forall>ns. below (Clean root) ns (b_dir b) \<longleftrightarrow> ns = names) \<and> set names \<inter> (dots \<union> skipSet (wm_conf st)) = {}"
    using below_unique by blast
  then show ?thesis using es by blast
qed

theorem skip_prunes_witness:
  "\<exists>st st' bs b names. walked demo_env [116] st st' bs \<and> b \<in> set bs \<and> b_dir b = [116, 47, 97] \<and>
     (\<forall>ns. below [116] ns (b_dir b) \<longleftrightarrow> ns = names) \<and> set names \<inter> (dots \<union> {}) = {}"
proof -
  obtain st st' bs where w: "wm_ok st" "wm_workers st \<noteq> []" "wm_conf st = demo_conf False 0"
    "walked demo_env [116] st st' bs" "mset bs = mset (demo_batches False)"
    by (rule demo_walked [of False])
  have b: "\<lparr>b_dir = [116, 47, 97], b_entries = [], b_errs = []\<rparr> \<in> set bs"
    using mset_eq_setD [OF w(5)] by (simp add: demo_batches_simps)
  from skip_prunes [OF w(1,2) demo_view_ok demo_names_ok w(4) this] show ?thesis
    using w(4) b unfolding demo_Clean w(3) by (metis batch.select_convs(1) demo_conf_sel(3))
qed

text \<open>
  C25. The depth limit bounds the walk: for a limit other than 0 and the largest 32-bit value,
  on a file system whose entry names are single path elements, every directory a walk delivers
  is reached from the cleaned root by exactly one list of names, and that list has fewer than
  \<open>maxDepth\<close> elements (the root itself has depth 1).
\<close>

theorem depth_limit:
  assumes "wm_ok st" and "wm_workers st \<noteq> []" and "view_ok E F" and "names_ok F"
    and "walked E root st st' bs" and "b \<in> set bs"
    and "maxDepth (wm_conf st) \<noteq> 0" and "maxDepth (wm_conf st) \<noteq> - 1"
  shows "\<exists>names. (\<forall>ns. below (Clean root) ns (b_dir b) \<longleftrightarrow> ns = names) \<and>
           length names < unat (maxDepth (wm_conf st))"
proof -
  obtain bs' where f: "forest (wm_conf st) F [spec_root (wm_conf st) F root] bs'" and m: "mset bs = mset bs'"
    using assms(5,1-3) by (rule walked_forest)
  have b: "b \<in> set bs'" using assms(6) mset_eq_setD [OF m] by simp
  have "1 \<le> maxDepth (wm_conf st)" using assms(7) by (simp add: word_le_nat_alt unat_gt_0 Suc_le_eq)
  then obtain names where "below (Clean root) names (b_dir b)" "length names < unat (maxDepth (wm_conf st))"
    using forest_below [OF f b assms(4)] assms(7,8) by (auto simp: spec_root_def)
  then have "(\<forall>ns. below (Clean root) ns (b_dir b) \<longleftrightarrow> ns = names) \<and> length names < unat (maxDepth (wm_conf st))"
    using below_unique by blast
  then show ?thesis by blast
qed

theorem depth_limit_witness:
  "\<exists>st st' b names. walked demo_env [116] st st' [b] \<and>
     (\<forall>ns. below (Clean [116]) ns (b_dir b) \<longleftrightarrow> ns = names) \<and> length names < 1"
proof -
  obtain b where t: "spec_task (demo_conf False 1) demo_view (spec_root (demo_conf False 1) demo_view [116]) = Ret (b, [])"
    unfolding demo_root by (simp add: spec_task_def spec_visit_def demo_cstr demo_list deeper_def Let_def word_le_nat_alt)
  obtain st where w: "wm_ok st" "wm_workers st \<noteq> []" "wm_conf st = demo_conf False 1"
    by (rule demo_started)
  have "forest (wm_conf st) demo_view [spec_root (wm_conf st) demo_view [116]] [b]"
    using forest.tree [OF t forest.nil forest.nil] w(3) by simp
  then obtain st' bs where r: "walked demo_env [116] st st' bs" "mset bs = mset [b]"
    by (rule forest_walked [OF w(1,2) demo_view_ok])
  then have bs: "bs = [b]" by simp
  from depth_limit [OF w(1,2) demo_view_ok demo_names_ok r(1), of b] show ?thesis
    using r(1) w(3) unfolding bs by auto
qed

end
