(* ===== verification/Walk_Ends.thy ===== *)
theory Walk_Ends
  imports Walk_Props
begin

text \<open>
  Why a walk ends, and when its two modes agree. A walk of the specification is finite when
  some well-founded order decreases from an item to its children. Two orders are used: the
  distance to the depth limit, and, with no limit, the directories that are not yet ancestors
  combined with the height of the plain subtree below a path, which is what cycle detection
  buys.
\<close>

section \<open>Well-founded walks are finite\<close>

lemma forest_all:
  assumes "\<And>k. k \<in> set as \<Longrightarrow> \<exists>bs. forest c F [k] bs"
  shows "\<exists>bs. forest c F as bs"
  using assms
proof (induction as)
  case (Cons a as)
  then obtain b1 b2 where "forest c F [a] b1" "forest c F as b2" by (meson list.set_intros)
  then show ?case using forest_append [of c F "[a]" as "b1 @ b2"] by auto
qed auto

lemma forest_wf:
  assumes wf: "wf R" and inv: "P a"
    and step: "\<And>a b kids k. P a \<Longrightarrow> spec_task c F a = Ret (b, kids) \<Longrightarrow> k \<in> set kids \<Longrightarrow>
                 P k \<and> (k, a) \<in> R"
    and tot: "\<And>a. P a \<Longrightarrow> chained c a"
  shows "\<exists>bs. forest c F [a] bs"
  using wf inv
proof (induction a rule: wf_induct_rule)
  case (less a)
  obtain b kids where t: "spec_task c F a = Ret (b, kids)"
    using spec_task_total [OF tot [OF less.prems]] by blast
  obtain bs where "forest c F kids bs"
    using forest_all [of kids c F] less.IH step [OF less.prems t] by blast
  from forest.tree [OF t this forest.nil] show ?case by auto
qed

section \<open>The depth limit\<close>

lemma depth_limit_forest:
  assumes "maxDepth c \<noteq> 0" and "maxDepth c \<noteq> - 1" and "chained c (spec_root c F root)"
  shows "\<exists>bs. forest c F [spec_root c F root] bs"
proof (rule forest_wf [of "measure (\<lambda>a. unat (maxDepth c) - unat (depth a))"
      "\<lambda>a. chained c a \<and> depth a \<le> maxDepth c"])
  have "1 \<le> maxDepth c" using assms(1) by (simp add: word_le_nat_alt unat_gt_0 Suc_le_eq)
  then show "chained c (spec_root c F root) \<and> depth (spec_root c F root) \<le> maxDepth c"
    using assms(3) by (simp add: spec_root_def)
  fix a b kids k
  assume a: "chained c a \<and> depth a \<le> maxDepth c" and t: "spec_task c F a = Ret (b, kids)"
    and k: "k \<in> set kids"
  have d: "deeper c a" "depth k = depth a + 1" using spec_task_kid_paths(2) [OF t k] by auto
  have "depth a \<noteq> - 1" using a assms(2) by (metis word_order.extremum_unique)
  then have "1 + depth a \<noteq> 0" by (metis add_eq_0_iff2 add.commute)
  then have "unat (depth k) = Suc (unat (depth a))" using unatSuc [of "depth a"] d by (simp add: add.commute)
  moreover have "depth k \<le> maxDepth c" using d assms(1) by (simp add: deeper_def)
  ultimately show "(chained c k \<and> depth k \<le> maxDepth c) \<and>
      (k, a) \<in> measure (\<lambda>a. unat (maxDepth c) - unat (depth a))"
    using chained_kids [OF t k] by (auto simp: word_le_nat_alt)
qed auto

text \<open>
  C13. A depth limit makes every walk finite: for a limit other than 0 and the largest 32-bit
  value, on any file system whatsoever, endless ones and ones full of symlinks included, the
  walk from a root whose identity is known (or without following links) ends after a fixed
  number of tasks under every schedule, and never crashes.
\<close>

theorem depth_limit_terminates:
  assumes "wm_ok st" and "wm_workers st \<noteq> []" and "view_ok E F"
    and "maxDepth (wm_conf st) \<noteq> 0" and "maxDepth (wm_conf st) \<noteq> - 1"
    and "chained (wm_conf st) (spec_root (wm_conf st) F root)"
  shows "\<exists>n. run_ends E root st n"
  using depth_limit_forest [OF assms(4-6)] forest_run_ends [OF assms(1-3)] by blast

theorem depth_limit_terminates_witness: "\<exists>st n. wm_conf st = demo_conf True 7 \<and> run_ends (loop_env 4 [97]) [116] st n"
proof -
  obtain st where w: "wm_ok st" "wm_workers st \<noteq> []" "wm_conf st = demo_conf True 7"
    by (rule demo_started)
  have v: "view_ok (loop_env 4 [97]) (loop_view 4 [97])"
    by (rule loop_view_ok) (simp_all add: raw_def rec_wf_def rec_len_def enc_recs_def length_enc_rec getdentsBufSize_def)
  have "maxDepth (wm_conf st) \<noteq> 0" "maxDepth (wm_conf st) \<noteq> - 1"
    "chained (wm_conf st) (spec_root (wm_conf st) (loop_view 4 [97]) [116])"
    by (simp_all add: w(3) chained_def spec_root_def demo_Clean loop_view_def os_Stat_def loop_env_def)
  from depth_limit_terminates [OF w(1,2) v this] show ?thesis using w(3) by blast
qed

section \<open>Cycle detection\<close>

text \<open>
  A file system in which plain subdirectories do not nest for ever: \<open>h p\<close> bounds the height of
  the plain subtree under the path \<open>p\<close>, on whatever links \<open>p\<close> leads through.
\<close>

definition plain_height :: "fsview \<Rightarrow> (gostring \<Rightarrow> nat) \<Rightarrow> bool" where
  "plain_height F h \<longleftrightarrow>
     (\<forall>p. \<forall>d \<in> set (fst (fs_list F (cstr p))). d_type d = dtDir \<and> d_name d \<notin> dots \<longrightarrow>
        h (path_join p (d_name d)) < h p)"

lemma cycle_detection_forest:
  assumes "plain_height F h" and "followLinks c" and "ancestor (spec_root c F root) \<noteq> []"
  shows "\<exists>bs. forest c F [spec_root c F root] bs"
proof (rule forest_wf [of "measures [\<lambda>a. card (- set (ancestor a)), \<lambda>a. h (path a)]"
      "\<lambda>a. ancestor a \<noteq> []"])
  fix a b kids k
  assume a: "ancestor a \<noteq> []" and t: "spec_task c F a = Ret (b, kids)" and k: "k \<in> set kids"
  obtain t' e where ch: "ancestor k = t' # ancestor a" and p: "path k = path_join (path a) (entName e)"
    and e: "e \<in> set (listed c (path a) (fst (fs_list F (cstr (path a)))))"
    and cases: "etyp e = dtLnk \<and> t' \<notin> set (ancestor a) \<and>
        (\<exists>info. fs_stat F (path_join (path a) (entName e)) = Inr info \<and>
           mode_IsDir (fi_Mode info) \<and> fi_Sys info = Some t')
      \<or> etyp e = dtDir \<and> t' = (ino e, snd (hd (ancestor a)))"
    using spec_task_chains [OF t k assms(2)] by blast
  have le: "card (- set (ancestor k)) \<le> card (- set (ancestor a))"
    by (intro card_mono) (auto simp: ch)
  have "card (- set (ancestor k)) < card (- set (ancestor a)) \<or> h (path k) < h (path a)"
  proof (cases "etyp e = dtLnk")
    case True
    then have "etyp e \<noteq> dtDir" by (simp add: dt_defs)
    then have "- set (ancestor k) \<subset> - set (ancestor a)" using cases by (auto simp: ch)
    then show ?thesis by (simp add: psubset_card_mono)
  next
    case False
    then have "etyp e = dtDir" using cases by simp
    then obtain d where "d \<in> set (fst (fs_list F (cstr (path a))))" "d_name d \<notin> dots"
      "d_type d = dtDir" "entName e = d_name d"
      using e by (auto simp: listed_iff)
    then show ?thesis using assms(1) by (auto simp: plain_height_def p)
  qed
  then show "ancestor k \<noteq> [] \<and> (k, a) \<in> measures [\<lambda>a. card (- set (ancestor a)), \<lambda>a. h (path a)]"
    using le ch by auto
qed (use assms in \<open>auto simp: chained_def\<close>)



section \<open>Both modes agree where there are no links\<close>

definition follow :: "bool \<Rightarrow> walkConf \<Rightarrow> walkConf" where
  "follow fl c = c\<lparr>followLinks := fl\<rparr>"

definition no_links :: "fsview \<Rightarrow> bool" where
  "no_links F \<longleftrightarrow> (\<forall>p. \<forall>d \<in> set (fst (fs_list F p)). d_type d \<noteq> dtLnk)"

definition strip :: "aitem \<Rightarrow> aitem" where
  "strip a = a\<lparr>ancestor := []\<rparr>"

lemma follow_sel [simp]:
  "followLinks (follow fl c) = fl" "maxDepth (follow fl c) = maxDepth c"
  "skipSet (follow fl c) = skipSet c" "deeper (follow fl c) a = deeper c a"
  "listed (follow fl c) dir ds = listed c dir ds"
  by (simp_all add: follow_def deeper_def listed_def)

lemma strip_sel [simp]:
  "path (strip a) = path a" "depth (strip a) = depth a" "deeper c (strip a) = deeper c a"
  by (simp_all add: strip_def deeper_def)

lemma strip_child [simp]:
  "strip (child_of a n ids) = child_of a n []" "ancestor (child_of a n ids) = ids"
  by (simp_all add: strip_def child_of_def)

lemma fates_no_links:
  assumes "ancestor a \<noteq> []" and "\<forall>e \<in> set es. etyp e \<noteq> dtLnk"
  shows "\<exists>fs. fates c F a es = Ret fs \<and> kept fs = es \<and> reported fs = [] \<and>
           map strip (spawned fs) = (if deeper c a then map (\<lambda>e. child_of a (entName e) []) (filter IsDir es) else [])
           \<and> (\<forall>k \<in> set (spawned fs). ancestor k \<noteq> [])"
  using assms(2)
proof (induction es)
  case Nil
  then show ?case by (simp add: fates_simps)
next
  case (Cons e es)
  then obtain fs where "fates c F a es = Ret fs" "kept fs = es" "reported fs = []"
    "map strip (spawned fs) = (if deeper c a then map (\<lambda>e. child_of a (entName e) []) (filter IsDir es) else [])"
    "\<forall>k \<in> set (spawned fs). ancestor k \<noteq> []"
    by auto
  then show ?case
    using assms(1) Cons.prems
    by (cases "ancestor a") (auto simp: fates_simps spec_entry_def)
qed

lemma spec_task_no_links:
  assumes "ancestor a \<noteq> []" and "no_links F"
  shows "\<exists>kids. spec_task (follow True c) F a = Ret (fst (spec_visit (follow False c) F (strip a)), kids) \<and>
           map strip kids = snd (spec_visit (follow False c) F (strip a)) \<and>
           (\<forall>k \<in> set kids. ancestor k \<noteq> [])"
proof -
  obtain ds e where fs: "fs_list F (cstr (path a)) = (ds, e)" by fastforce
  have "\<forall>d \<in> set ds. d_type d \<noteq> dtLnk" using assms(2) fs unfolding no_links_def by (metis fst_conv)
  then have nl: "\<forall>e \<in> set (listed c (path a) ds). etyp e \<noteq> dtLnk" by (auto simp: listed_iff)
  have st: "child_of (strip a) n [] = child_of a n []" for n by (simp add: child_of_def)
  show ?thesis
    using fates_no_links [OF assms(1) nl, of "follow True c" F] fs
    by (cases e) (auto simp: spec_task_def spec_visitSym_def spec_visit_def failed_def st Let_def)
qed

lemma forest_strip:
  assumes "no_links F"
  shows "forest (follow True c) F as bs \<Longrightarrow> \<forall>a \<in> set as. ancestor a \<noteq> [] \<Longrightarrow>
           forest (follow False c) F (map strip as) bs"
proof (induction rule: forest.induct)
  case nil
  then show ?case by simp
next
  case (tree a b as bs rest bs')
  have na: "ancestor a \<noteq> []" using tree.prems by simp
  obtain kids where k: "spec_task (follow True c) F a = Ret (fst (spec_visit (follow False c) F (strip a)), kids)"
    "map strip kids = snd (spec_visit (follow False c) F (strip a))" "\<forall>k \<in> set kids. ancestor k \<noteq> []"
    using spec_task_no_links [OF na assms, of c] by blast
  then have "spec_task (follow False c) F (strip a) = Ret (b, map strip as)"
    using tree.hyps(1) by (simp add: spec_task_def prod_eq_iff)
  then show ?case using tree k by (auto intro!: forest.tree)
qed

lemma forest_unstrip:
  assumes "no_links F"
  shows "forest (follow False c) F as' bs \<Longrightarrow> as' = map strip as \<Longrightarrow> \<forall>a \<in> set as. ancestor a \<noteq> [] \<Longrightarrow>
           forest (follow True c) F as bs"
proof (induction arbitrary: as rule: forest.induct)
  case nil
  then show ?case by simp
next
  case (tree a' b kids' bs rest' bs')
  obtain a rest where as: "as = a # rest" "a' = strip a" "rest' = map strip rest"
    using tree.prems(1) by (cases as) auto
  have na: "ancestor a \<noteq> []" using tree.prems(2) as by simp
  obtain kids where k: "spec_task (follow True c) F a = Ret (fst (spec_visit (follow False c) F (strip a)), kids)"
    "map strip kids = snd (spec_visit (follow False c) F (strip a))" "\<forall>k \<in> set kids. ancestor k \<noteq> []"
    using spec_task_no_links [OF na assms, of c] by blast
  moreover have "spec_visit (follow False c) F (strip a) = (b, kids')"
    using tree.hyps(1) as by (simp add: spec_task_def)
  ultimately show ?case using tree as by (auto intro!: forest.tree)
qed

lemma forest_modes:
  assumes "no_links F" and "ancestor (spec_root (follow True c) F root) \<noteq> []"
  shows "forest (follow True c) F [spec_root (follow True c) F root] bs \<longleftrightarrow>
         forest (follow False c) F [spec_root (follow False c) F root] bs"
proof -
  have r: "spec_root (follow False c) F root = strip (spec_root (follow True c) F root)"
    by (simp add: spec_root_def strip_def)
  show ?thesis
    using forest_strip [OF assms(1), of c "[spec_root (follow True c) F root]" bs]
      forest_unstrip [OF assms(1), of c "[spec_root (follow False c) F root]" bs
        "[spec_root (follow True c) F root]"] assms(2)
    by (auto simp: r)
qed

text \<open>
  C23. Following links costs nothing in fidelity where there are none: take two walkers with the
  same limits, one that follows links and one that does not, on a file system without
  symlinks and with a root whose identity is known. A run of one can come to its end exactly
  when a run of the other can, and then the two deliver the same batches, up to order.
\<close>

theorem modes_agree_without_links:
  assumes "wm_ok s1" and "wm_workers s1 \<noteq> []" and "wm_ok s2" and "wm_workers s2 \<noteq> []" and "view_ok E F"
    and "wm_conf s1 = follow True c" and "wm_conf s2 = follow False c"
    and "no_links F" and "ancestor (spec_root (follow True c) F root) \<noteq> []"
  shows "((\<exists>s bs. walked E root s1 s bs) \<longleftrightarrow> (\<exists>s bs. walked E root s2 s bs)) \<and>
    (walked E root s1 s1' bs1 \<and> walked E root s2 s2' bs2 \<longrightarrow> mset bs1 = mset bs2)"
proof (intro conjI impI)
  note same = forest_modes [OF assms(8,9)]
  note w1 = walked_forest [OF _ assms(1,2,5), where root = root, unfolded assms(6)]
  note w2 = walked_forest [OF _ assms(3,4,5), where root = root, unfolded assms(7)]
  note f1 = forest_walked [OF assms(1,2,5), where root = root, unfolded assms(6)]
  note f2 = forest_walked [OF assms(3,4,5), where root = root, unfolded assms(7)]
  show "(\<exists>s bs. walked E root s1 s bs) \<longleftrightarrow> (\<exists>s bs. walked E root s2 s bs)"
    using same w1 w2 f1 f2 by metis
  assume "walked E root s1 s1' bs1 \<and> walked E root s2 s2' bs2"
  then show "mset bs1 = mset bs2" using same w1 w2 forest_det by metis
qed

theorem modes_agree_without_links_witness:
  "\<exists>s1 s1' bs1 s2 s2' bs2. walked (loop_env 8 [102]) [116] s1 s1' bs1 \<and> walked (loop_env 8 [102]) [116] s2 s2' bs2 \<and>
     wm_conf s1 = follow True (demo_conf False 0) \<and> wm_conf s2 = follow False (demo_conf False 0) \<and> mset bs1 = mset bs2"
proof -
  let ?F = "loop_view 8 [102]" and ?c = "demo_conf False 0"
  have cf: "follow True ?c = demo_conf True 0" "follow False ?c = demo_conf False 0"
    by (simp_all add: follow_def demo_conf_def)
  obtain s1 where s1: "wm_ok s1" "wm_workers s1 \<noteq> []" "wm_conf s1 = follow True ?c"
    unfolding cf by (rule demo_started)
  obtain s2 where s2: "wm_ok s2" "wm_workers s2 \<noteq> []" "wm_conf s2 = follow False ?c"
    unfolding cf by (rule demo_started)
  have v: "view_ok (loop_env 8 [102]) ?F"
    by (rule loop_view_ok) (simp_all add: raw_def rec_wf_def rec_len_def enc_recs_def length_enc_rec getdentsBufSize_def)
  have F: "no_links ?F" "ancestor (spec_root (follow True ?c) ?F [116]) \<noteq> []"
    by (simp_all add: no_links_def spec_root_def demo_Clean loop_view_def os_Stat_def loop_env_def raw_def dt_defs)
  obtain b where "spec_task (follow False ?c) ?F (spec_root (follow False ?c) ?F [116]) = Ret (b, [])"
    by (simp add: spec_task_def spec_visit_def loop_view_def listed_def IsDir_def raw_def dt_defs Let_def)
  from forest.tree [OF this forest.nil forest.nil]
  have "forest (wm_conf s2) ?F [spec_root (wm_conf s2) ?F [116]] [b]" using s2(3) by simp
  then obtain s2' bs2 where r2: "walked (loop_env 8 [102]) [116] s2 s2' bs2"
    by (rule forest_walked [OF s2(1,2) v])
  note agree = modes_agree_without_links [OF s1(1,2) s2(1,2) v s1(3) s2(3) F]
  then obtain s1' bs1 where r1: "walked (loop_env 8 [102]) [116] s1 s1' bs1" using r2 by blast
  show ?thesis using agree r1 r2 s1(3) s2(3) by blast
qed

end
