(* ===== verification/Walk_Deviations.thy ===== *)
theory Walk_Deviations
  imports Walk_Ends
begin

text \<open>
  Edges of the walker's behaviour, several of them at odds with its documentation: when a
  batch has nil entries, the depth limit that limits nothing, a root path with a NUL byte,
  the device number a plain subdirectory inherits, and a consumer that edits a batch while
  the task that sent it is still reading it.
\<close>

section \<open>Nil entries\<close>

text \<open>
  C35. A batch of a plain walk has nil \<open>Entries\<close> exactly when the directory could not be read
  to its end or had nothing to show: then it has one error, the directory's own, in the
  first case, whatever records had been delivered before the errno, and none in the second.
  So nil does not mean that the directory could not be read.
\<close>

theorem nil_entries_iff:
  assumes "wm_ok st" and "i < length (wm_workers st)" and "item_rel st it a" and "view_ok E F"
    and "fs_list F (cstr (path a)) = (ds, e)"
  shows "\<exists>b items st'. visit E i it st = Ret (b, items, st') \<and>
           (Entries b = None \<longleftrightarrow> e \<noteq> None \<or> listed (wm_conf st) (path a) ds = []) \<and>
           map (\<lambda>d. errErr d) (opt_read (h_err st') (Errs b)) =
             (case e of None \<Rightarrow> [] | Some n \<Rightarrow> [Errno n])"
proof -
  obtain b items st' where v: "visit E i it st = Ret (b, items, st')"
    and br: "batch_rel st' b (fst (spec_visit (wm_conf st) F a))"
    using visit_ok [OF assms(1-4)] by (auto simp: task_ok_def)
  have "Entries b = None \<longleftrightarrow> e \<noteq> None \<or> listed (wm_conf st) (path a) ds = []"
    using br assms(5) by (cases e) (auto simp: batch_rel_def spec_visit_def failed_def Let_def)
  moreover have "map errErr ds1 = map errErr ds2" if "list_all2 (err_rel st') ds1 ds2" for ds1 ds2
    using that by (induction rule: list_all2_induct) (auto simp: err_rel_def)
  then have "map errErr (opt_read (h_err st') (Errs b)) = map errErr (b_errs (fst (spec_visit (wm_conf st) F a)))"
    using br by (simp add: batch_rel_def)
  then have "map errErr (opt_read (h_err st') (Errs b)) = (case e of None \<Rightarrow> [] | Some n \<Rightarrow> [Errno n])"
    using assms(5) by (cases e) (auto simp: spec_visit_def failed_def Let_def)
  ultimately show ?thesis using v by auto
qed

theorem nil_entries_iff_witness:
  "\<exists>st it st0 b items st'. Walk demo_env [116, 47, 97] st = Ret (it, st0) \<and>
     visit demo_env 0 it st0 = Ret (b, items, st') \<and> Entries b = None \<and>
     opt_read (h_err st') (Errs b) = []"
proof -
  obtain st it0 st1 where w: "wm_ok st" "wm_conf st = demo_conf False 0" "length (wm_workers st) = 2"
    by (rule demo_walker [of False])
  have cl: "Clean [116, 47, 97] = [116, 47, 97]" by (simp add: model_defs)
  obtain it st0 where wk: "Walk demo_env [116, 47, 97] st = Ret (it, st0)" and ok: "wm_ok st0"
    and kp: "wm_keeps st st0" and it: "item_rel st0 it (spec_root (wm_conf st) demo_view [116, 47, 97])"
    using Walk_ok [OF w(1) demo_view_ok] by blast
  have i: "0 < length (wm_workers st0)" using w(3) wm_keepsD(6) [OF kp] by simp
  have fs: "fs_list demo_view (cstr (path (spec_root (wm_conf st) demo_view [116, 47, 97]))) = ([], None)"
    by (simp add: spec_root_def cl demo_cstr demo_view_def)
  from nil_entries_iff [OF ok i it demo_view_ok fs] show ?thesis
    using wk by (simp add: listed_def) blast
qed

section \<open>The depth limit that limits nothing\<close>

text \<open>
  The depth test never stops the walk for exactly two limits: 0, which means unlimited,
  and \<open>2 ^ 32 - 1\<close>, for which \<open>item.depth + 1\<close> wraps around before it can exceed the limit.
\<close>

lemma depth_test_never_stops:
  "(\<forall>item. \<not> at_max_depth st item) \<longleftrightarrow> maxDepth (wm_conf st) \<in> {0, - 1}"
proof -
  have "(\<forall>item. \<not> at_max_depth st item) \<longleftrightarrow>
      (\<forall>d. \<not> (maxDepth (wm_conf st) \<noteq> 0 \<and> d + 1 > maxDepth (wm_conf st)))"
    unfolding at_max_depth_def by (metis walkItem.select_convs(2))
  then show ?thesis unfolding depth_never_iff by simp
qed

section \<open>A root path with a NUL byte\<close>

lemma root_panic:
  assumes fl: "followLinks c" and n: "ancestor a = []" and dp: "deeper c a"
    and fs: "fs_list F (cstr (path a)) = (ds, None)" and d: "d \<in> set ds" "d_type d = dtDir"
    and nm: "d_name d \<notin> dots \<union> skipSet c"
  shows "spec_task c F a = Panic NilDeref"
proof -
  let ?e = "\<lparr>parentDir = path a, entName = d_name d, ino = d_ino d, etyp = d_type d\<rparr>"
  have "?e \<in> set (listed c (path a) ds)" using d nm by (auto simp: listed_iff)
  moreover have "spec_entry c F a ?e = Panic NilDeref"
    using d n dp by (simp add: spec_entry_def IsDir_def dt_defs)
  ultimately have "fates c F a (listed c (path a) ds) = Panic NilDeref"
    by (rule fates_panic) (rule spec_entry_result(2))
  then show ?thesis using fl fs by (simp add: spec_task_def spec_visitSym_def)
qed

text \<open>
  C36. A root with a NUL byte crashes a walk that follows links: \<open>os.Stat\<close> refuses such a path,
  so the root has no ancestor link, but the raw \<open>openat\<close> reads it up to the NUL and may well
  open a directory; its first plain subdirectory then dereferences the nil link.
\<close>

theorem nul_root_panics:
  assumes "wm_ok st" and "i < length (wm_workers st)" and "view_ok E F"
    and "followLinks (wm_conf st)" and "maxDepth (wm_conf st) = 0 \<or> 2 \<le> maxDepth (wm_conf st)"
    and "0 \<in> set (Clean root)" and "fs_list F (cstr (Clean root)) = (ds, None)"
    and "d \<in> set ds" and "d_type d = dtDir" and "d_name d \<notin> dots \<union> skipSet (wm_conf st)"
  shows "\<exists>it st0. Walk E root st = Ret (it, st0) \<and> execute E i it st0 = Panic NilDeref"
proof -
  obtain it st0 where w: "Walk E root st = Ret (it, st0)" and ok: "wm_ok st0" and kp: "wm_keeps st st0"
    and it: "item_rel st0 it (spec_root (wm_conf st) F root)"
    using Walk_ok [OF assms(1,3)] by blast
  have "fs_stat F (Clean root) = Inl EINVAL" using assms(3,6) by (simp add: view_ok_def os_Stat_def)
  then have r: "ancestor (spec_root (wm_conf st) F root) = []" "path (spec_root (wm_conf st) F root) = Clean root"
    "deeper (wm_conf st) (spec_root (wm_conf st) F root)"
    using assms(5) by (simp_all add: spec_root_def deeper_def)
  have "spec_task (wm_conf st) F (spec_root (wm_conf st) F root) = Panic NilDeref"
    by (rule root_panic [OF assms(4) r(1,3) _ assms(8-10)]) (simp add: r assms(7))
  then have "execute E i it st0 = Panic NilDeref"
    using execute_ok [OF ok _ it assms(3)] assms(2) wm_keepsD(5,6) [OF kp] by simp
  then show ?thesis using w by blast
qed

theorem nul_root_panics_witness:
  "\<exists>st it st0. NewWalkmanWithConfig True 0 [] \<lparr>PoolSize = 2, InitialWorkerCap = 64, ResultBuffSize = 256\<rparr> = Ret st \<and>
     Walk demo_env [116, 0, 120] st = Ret (it, st0) \<and> execute demo_env 0 it st0 = Panic NilDeref"
proof -
  obtain st it0 st1 where w: "NewWalkmanWithConfig True 0 [] \<lparr>PoolSize = 2, InitialWorkerCap = 64, ResultBuffSize = 256\<rparr> = Ret st"
    "wm_ok st" "wm_conf st = demo_conf True 0" "length (wm_workers st) = 2"
    by (rule demo_walker [of True])
  have cl: "Clean [116, 0, 120] = [116, 0, 120]" "cstr [116, 0, 120] = [116]"
    by (simp_all add: model_defs cstr_def)
  have d: "dirent_of (raw 2 4 [97]) \<in> set (map dirent_of demo_records)" by (simp add: demo_records_def)
  have "\<exists>it st0. Walk demo_env [116, 0, 120] st = Ret (it, st0) \<and> execute demo_env 0 it st0 = Panic NilDeref"
    by (rule nul_root_panics [OF w(2) _ demo_view_ok _ _ _ _ d])
      (use w in \<open>simp_all add: cl demo_list raw_def dt_defs dots_def\<close>)
  then show ?thesis using w by blast
qed

section \<open>The inherited device number\<close>

lemma fates_mem: "fates c F a es = Ret fs \<Longrightarrow> e \<in> set es \<Longrightarrow> \<exists>f. (e, f) \<in> set fs"
  using fates_Ret(1) [of c F a es fs] by force

lemma false_cycle_task:
  assumes "followLinks c" and "ancestor a = t # ts" and "spec_task c F a = Ret (b, kids)"
    and "deeper c a" and "etyp e = dtDir"
    and "fs_list F (cstr (path a)) = (ads, None)" and "e \<in> set (listed c (path a) ads)"
    and "fs_list F (cstr (path_join (path a) (entName e))) = (ds, None)"
    and "d \<in> set ds" and "d_type d = dtLnk" and "d_name d \<notin> dots \<union> skipSet c"
    and "fs_stat F (path_join (path_join (path a) (entName e)) (d_name d)) = Inr info"
    and "mode_IsDir (fi_Mode info)" and "fi_Sys info = Some (ino e, snd t)"
  shows "\<exists>k \<in> set kids. path k = path_join (path a) (entName e) \<and>
           (\<exists>b' kids'. spec_task c F k = Ret (b', kids') \<and>
              \<lparr>errName = d_name d, errErr = ErrSymlinkCycle\<rparr> \<in> set (b_errs b'))"
proof -
  obtain fs where f: "fates c F a (listed c (path a) ads) = Ret fs" and kids: "kids = spawned fs"
    using assms(1,3,6) by (auto simp: spec_task_def spec_visitSym_def)
  obtain fe where fe: "(e, fe) \<in> set fs" using fates_mem [OF f assms(7)] by blast
  let ?k = "child_of a (entName e) ((ino e, snd t) # t # ts)"
  have "fe = (Some e, None, Some ?k)"
    using fates_Ret(2) [OF f fe] assms(2,4,5) by (simp add: spec_entry_def IsDir_def dt_defs)
  then have k: "?k \<in> set kids" using fe kids by (auto simp: fate_sets)
  let ?p = "path_join (path a) (entName e)"
  let ?l = "\<lparr>parentDir = ?p, entName = d_name d, ino = d_ino d, etyp = d_type d\<rparr>"
  have kp: "path ?k = ?p" "ancestor ?k = (ino e, snd t) # t # ts" by (simp_all add: child_of_def)
  have l: "?l \<in> set (listed c ?p ds)" using assms(9,11) by (auto simp: listed_iff)
  obtain fs' where f': "fates c F ?k (listed c ?p ds) = Ret fs'"
    using fates_total [of "listed c ?p ds" c F ?k] spec_entry_result(1) [OF assms(1), of ?k F] kp(2) by auto
  obtain fl where fl: "(?l, fl) \<in> set fs'" using fates_mem [OF f' l] by blast
  have "fl = (None, Some ErrSymlinkCycle, None)"
    using fates_Ret(2) [OF f' fl] assms(10,12-14) kp by (simp add: spec_entry_def spec_link_def)
  then have "\<lparr>errName = d_name d, errErr = ErrSymlinkCycle\<rparr> \<in> set (reported fs')"
    using fl by (force simp: fate_sets)
  moreover have "spec_task c F ?k = Ret (\<lparr>b_dir = ?p, b_entries = kept fs', b_errs = reported fs'\<rparr>, spawned fs')"
    using assms(1,8) f' kp by (simp add: spec_task_def spec_visitSym_def)
  ultimately show ?thesis using k kp by (intro bexI [of _ ?k]) auto
qed

text \<open>
  C37. A plain subdirectory that is a mount point gets its parent's device number, and so a
  symlink can be reported as a cycle that is none: if a directory of the batch has inode
  \<open>d_ino dd\<close>, and a link in it leads to a directory with that inode on the parent's device,
  which is neither the subdirectory (whose real identity is \<open>real\<close>) nor above it, the link is
  still dropped with \<open>ErrSymlinkCycle\<close> when the worker goes on to the subdirectory.
\<close>

theorem inherited_device_false_cycle:
  assumes "wm_ok st" and "i < length (wm_workers st)" and "item_rel st it a" and "view_ok E F"
    and "followLinks (wm_conf st)" and "deeper (wm_conf st) a" and "ancestor a = t # ts"
    and "fs_list F (cstr (path a)) = (ads, None)" and "dd \<in> set ads" and "d_type dd = dtDir"
    and "d_name dd \<notin> dots \<union> skipSet (wm_conf st)" and "sub = path_join (path a) (d_name dd)"
    and "fs_list F (cstr sub) = (ds, None)" and "d \<in> set ds" and "d_type d = dtLnk"
    and "d_name d \<notin> dots \<union> skipSet (wm_conf st)"
    and "fs_stat F (path_join sub (d_name d)) = Inr info" and "mode_IsDir (fi_Mode info)"
    and "fi_Sys info = Some (d_ino dd, snd t)"
    and "fs_stat F sub = Inr ci" and "fi_Sys ci = Some real" and "(d_ino dd, snd t) \<notin> set (real # t # ts)"
  shows "\<exists>b items st' kit b' items' st''.
     visitSym E i it st = Ret (b, items, st') \<and> kit \<in> set items \<and>
     visitSym E i kit st' = Ret (b', items', st'') \<and> mem_read (h_str st'') (Dir b') = sub \<and>
     ErrSymlinkCycle \<in> errErr ` set (opt_read (h_err st'') (Errs b'))"
proof -
  let ?e = "\<lparr>parentDir = path a, entName = d_name dd, ino = d_ino dd, etyp = d_type dd\<rparr>"
  obtain b kids where t: "spec_task (wm_conf st) F a = Ret (b, kids)"
    using spec_task_total [of "wm_conf st" a F] assms(7) by (auto simp: chained_def)
  have e: "?e \<in> set (listed (wm_conf st) (path a) ads)" using assms(9,11) by (auto simp: listed_iff)
  obtain k b2 kids2 where k: "k \<in> set kids" "path k = sub" and t2: "spec_task (wm_conf st) F k = Ret (b2, kids2)"
    and er: "\<lparr>errName = d_name d, errErr = ErrSymlinkCycle\<rparr> \<in> set (b_errs b2)"
    using false_cycle_task [OF assms(5,7) t assms(6) _ assms(8) e _ assms(14-16)] assms(10,12,13,17-19)
    by auto
  obtain cb items st1 where v: "visitSym E i it st = Ret (cb, items, st1)" and ok: "wm_ok st1"
    and kp: "wm_keeps st st1" and its: "list_all2 (item_rel st1) items kids"
    using visitSym_ok [OF assms(1-5)] t assms(5) by (auto simp: spec_task_def task_ok_def)
  obtain kit where kit: "kit \<in> set items" "item_rel st1 kit k"
    using list_all2_in2 [OF its k(1)] by blast
  have c1: "wm_conf st1 = wm_conf st" "i < length (wm_workers st1)" "followLinks (wm_conf st1)"
    using wm_keepsD(5,6) [OF kp] assms(2,5) by simp_all
  obtain cb2 items2 st2 where v2: "visitSym E i kit st1 = Ret (cb2, items2, st2)" and br: "batch_rel st2 cb2 b2"
    using visitSym_ok [OF ok c1(2) kit(2) assms(4) c1(3)] t2 c1 assms(5) by (auto simp: spec_task_def task_ok_def)
  have "b_dir b2 = sub" using spec_task_dir [OF t2] k(2) by simp
  then have dir: "mem_read (h_str st2) (Dir cb2) = sub" using br by (simp add: batch_rel_def str_rel_def)
  have ers: "list_all2 (err_rel st2) (opt_read (h_err st2) (Errs cb2)) (b_errs b2)"
    using br by (simp add: batch_rel_def)
  obtain ce where "ce \<in> set (opt_read (h_err st2) (Errs cb2))" "errErr ce = ErrSymlinkCycle"
    using list_all2_in2 [OF ers er] by (auto simp: err_rel_def)
  then show ?thesis using v kit(1) v2 dir by (metis imageI)
qed

text \<open>
  Below \<open>t\<close> (inode 1 on device 1) the mount point \<open>a\<close>, whose record has inode 2 and whose root
  is inode 9 of device 2, has a link \<open>l\<close> to inode 2 of device 1.
\<close>

definition mount_env :: env where
  "mount_env =
     \<lparr>k_openat = (\<lambda>_ p _. if p = [116] then Inr 3 else if p = [116, 47, 97] then Inr 4 else Inl 2),
      k_getdents = (\<lambda>fd k. if k = 0 then Inr (enc_recs [if fd = 3 then raw 2 4 [97] else raw 3 10 [108]])
                           else Inr []),
      k_stat = (\<lambda>p. Inr \<lparr>fi_Mode = ModeDir,
        fi_Sys = Some (if p = [116] then (1, 1) else if p = [116, 47, 97] then (9, 2) else (2, 1))\<rparr>),
      rt_grow = (\<lambda>_ n. n)\<rparr>"

definition mount_view :: fsview where
  "mount_view =
     \<lparr>fs_list = (\<lambda>p. if p = [116] then ([dirent_of (raw 2 4 [97])], None)
                     else if p = [116, 47, 97] then ([dirent_of (raw 3 10 [108])], None) else ([], Some 2)),
      fs_stat = os_Stat mount_env\<rparr>"

lemma mount_view_ok: "view_ok mount_env mount_view"
proof -
  have wf: "rec_wf (raw 2 4 [97])" "rec_wf (raw 3 10 [108])"
    "length (enc_recs [raw 2 4 [97]]) \<le> getdentsBufSize" "length (enc_recs [raw 3 10 [108]]) \<le> getdentsBufSize"
    by (simp_all add: raw_def rec_wf_def rec_len_def enc_recs_def length_enc_rec getdentsBufSize_def)
  have "serves (kernel_of mount_env) 3 0 [[raw 2 4 [97]]] None" "serves (kernel_of mount_env) 4 0 [[raw 3 10 [108]]] None"
    using wf by (simp_all add: serves_def mount_env_def kernel.truncate_def)
  then have "dir_reads (kernel_of mount_env) p (fst (fs_list mount_view p)) (snd (fs_list mount_view p))" for p
    by (auto simp: dir_reads_def mount_view_def mount_env_def kernel.truncate_def
        intro: exI [of _ "[[raw 2 4 [97]]]"] exI [of _ "[[raw 3 10 [108]]]"])
  then show ?thesis by (simp add: view_ok_def mount_view_def)
qed

theorem inherited_device_false_cycle_witness:
  "\<exists>st it b items st' kit b' items' st''. visitSym mount_env 0 it st = Ret (b, items, st') \<and> kit \<in> set items \<and>
     visitSym mount_env 0 kit st' = Ret (b', items', st'') \<and>
     ErrSymlinkCycle \<in> errErr ` set (opt_read (h_err st'') (Errs b'))"
proof -
  obtain st where w: "wm_ok st" "wm_workers st \<noteq> []" "wm_conf st = demo_conf True 0"
    by (rule demo_started)
  obtain it st0 where ok: "wm_ok st0" and kp: "wm_keeps st st0"
    and it: "item_rel st0 it (spec_root (wm_conf st) mount_view [116])"
    using Walk_ok [OF w(1) mount_view_ok] by blast
  have a: "spec_root (wm_conf st) mount_view [116] = \<lparr>path = [116], depth = 1, ancestor = [(1, 1)]\<rparr>"
    by (simp add: w(3) spec_root_def demo_Clean mount_view_def os_Stat_def mount_env_def)
  have i: "0 < length (wm_workers st0)" "followLinks (wm_conf st0)" "wm_conf st0 = demo_conf True 0"
    using w(2,3) wm_keepsD(5,6) [OF kp] by auto
  have st: "fs_stat mount_view [116, 47, 97] = Inr \<lparr>fi_Mode = ModeDir, fi_Sys = Some (9, 2)\<rparr>"
    "fs_stat mount_view [116, 47, 97, 47, 108] = Inr \<lparr>fi_Mode = ModeDir, fi_Sys = Some (2, 1)\<rparr>"
    by (simp_all add: mount_view_def os_Stat_def mount_env_def)
  have ls: "fs_list mount_view [116] = ([dirent_of (raw 2 4 [97])], None)"
    "fs_list mount_view [116, 47, 97] = ([dirent_of (raw 3 10 [108])], None)"
    by (simp_all add: mount_view_def)
  note false_cycle = inherited_device_false_cycle [OF ok i(1) it [unfolded a] mount_view_ok i(2), where t = "(1, 1)" and ts = "[]"
      and dd = "dirent_of (raw 2 4 [97])" and ads = "[dirent_of (raw 2 4 [97])]" and sub = "[116, 47, 97]"
      and d = "dirent_of (raw 3 10 [108])" and ds = "[dirent_of (raw 3 10 [108])]"
      and info = "\<lparr>fi_Mode = ModeDir, fi_Sys = Some (2, 1)\<rparr>"
      and ci = "\<lparr>fi_Mode = ModeDir, fi_Sys = Some (9, 2)\<rparr>" and real = "(9, 2)"]
  have "\<exists>b items st' kit b' items' st''. visitSym mount_env 0 it st0 = Ret (b, items, st') \<and> kit \<in> set items \<and>
     visitSym mount_env 0 kit st' = Ret (b', items', st'') \<and> mem_read (h_str st'') (Dir b') = [116, 47, 97] \<and>
     ErrSymlinkCycle \<in> errErr ` set (opt_read (h_err st'') (Errs b'))"
    by (rule false_cycle)
      (simp_all add: i(3) deeper_def raw_def dt_defs ls demo_cstr dots_def path_join_def PathSeparator_def st
        mode_IsDir_def ModeDir_def)
  then show ?thesis by blast
qed

section \<open>A consumer that edits a batch\<close>

text \<open>
  \<open>slices.DeleteFunc(batch.Entries, Entry.IsDir)\<close>, by which a consumer keeps the files of a
  batch: the kept entries move to the front of the slice, the rest is cleared.
\<close>

definition delete_dirs :: "span \<Rightarrow> sEntry mem \<Rightarrow> sEntry mem" where
  "delete_dirs s m =
     (let es = mem_read m s; fs = filter (\<lambda>e. \<not> IsDir e) es
      in mem_write (sp_blk s) (sp_off s) (fs @ replicate (length es - length fs) zeroEntry) m)"

lemma spawn_dirs_none:
  "\<forall>k \<in> set ks. \<not> IsDir (mcell (h_ent st) (sp_blk s) (sp_off s + k)) \<Longrightarrow> spawn_dirs i it s ks st = Ret ([], st)"
  by (induction ks) (auto simp: Let_def)

lemma delete_dirs_none:
  assumes "k < sp_len s"
  shows "\<not> IsDir (mcell (delete_dirs s m) (sp_blk s) (sp_off s + k))"
proof -
  let ?es = "mem_read m s"
  let ?fs = "filter (\<lambda>e. \<not> IsDir e) ?es"
  let ?ys = "?fs @ replicate (length ?es - length ?fs) zeroEntry"
  have len: "length ?ys = sp_len s" using length_filter_le [of "\<lambda>e. \<not> IsDir e" ?es] by simp
  have "mcell (delete_dirs s m) (sp_blk s) (sp_off s + k) = ?ys ! k"
    using assms len by (simp add: delete_dirs_def Let_def mcell_mem_write)
  moreover have "?ys ! k \<in> set ?ys" using assms len by (metis nth_mem)
  moreover have "\<forall>e \<in> set ?ys. \<not> IsDir e" by (auto simp: IsDir_def zeroEntry_def dt_defs)
  ultimately show ?thesis by metis
qed

text \<open>
  C38. A consumer that filters a batch in place as soon as it receives it can make the walk
  lose subtrees: \<open>visit\<close> reads the published slice again to spawn the subdirectories, so if
  the consumer drops the directories from its slice first, none of them is walked, whatever
  the directory holds.
\<close>

theorem consumer_filter_loses_directories:
  assumes "i < length (wm_workers st)" and "visit_read E i it st = Ret (b, Some (Some s), st1)"
  shows "visit_with (delete_dirs s) E i it st =
           Ret (b, [], st1\<lparr>h_ent := delete_dirs s (h_ent st1)\<rparr>)"
proof -
  let ?st = "st1\<lparr>h_ent := delete_dirs s (h_ent st1)\<rparr>"
  have "spawn_dirs i it s [0..<sp_len s] ?st = Ret ([], ?st)"
    using delete_dirs_none by (intro spawn_dirs_none) simp
  then have "visit_spawn i it (Some s) ?st = Ret ([], ?st)" by (simp add: visit_spawn_def)
  then show ?thesis using assms by (simp add: visit_with_def Let_def)
qed

theorem consumer_filter_loses_directories_witness:
  "\<exists>it st b s items st' st''. visit demo_env 0 it st = Ret (b, items, st') \<and> length items = 1 \<and>
     visit_with (delete_dirs s) demo_env 0 it st = Ret (b, [], st'')"
proof -
  obtain st it st0 where w: "wm_ok st0" "wm_conf st0 = demo_conf False 0" "length (wm_workers st0) = 2"
    "item_rel st0 it (spec_root (demo_conf False 0) demo_view [116])"
    by (rule demo_walker [of False])
  have i: "0 < length (wm_workers st0)" using w(3) by simp
  obtain b items st' where v: "visit demo_env 0 it st0 = Ret (b, items, st')"
    and br: "batch_rel st' b (fst (spec_visit (wm_conf st0) demo_view (spec_root (demo_conf False 0) demo_view [116])))"
    and its: "list_all2 (item_rel st') items (snd (spec_visit (wm_conf st0) demo_view (spec_root (demo_conf False 0) demo_view [116])))"
    using visit_ok [OF w(1) i w(4) demo_view_ok] by (auto simp: task_ok_def)
  have sp: "spec_visit (demo_conf False 0) demo_view (spec_root (demo_conf False 0) demo_view [116]) =
      (\<lparr>b_dir = [116], b_entries = [demo_entry [97] 2 4, demo_entry [98] 3 8, demo_entry [108] 4 10], b_errs = []\<rparr>,
       [\<lparr>path = [116, 47, 97], depth = 2, ancestor = []\<rparr>])"
    using demo_plain_root by (simp add: demo_root spec_task_def)
  have len: "length items = 1" using list_all2_lengthD [OF its] w(2) sp by simp
  obtain more st1 where r: "visit_read demo_env 0 it st0 = Ret (b, more, st1)"
    using v i by (auto simp: visit_def visit_with_def Let_def obind_Ret_iff split: option.splits)
  have "more \<noteq> None" using v r i len by (cases more) (auto simp: visit_def visit_with_def)
  moreover have "Entries b \<noteq> None" using br w(2) sp by (simp add: batch_rel_def)
  ultimately obtain s where "more = Some (Some s)"
    using r by (auto simp: visit_read_def obind_Ret_iff failed_batch_def split: option.splits prod.splits)
  then show ?thesis
    using consumer_filter_loses_directories [of 0 st0 demo_env it b s st1] r i v len by blast
qed

end
