(* ===== verification/Cli.thy ===== *)
theory Cli
  imports Walk_Deviations "HOL-Library.Signed_Division"
begin

text \<open>
  \<open>main/main.go\<close>, the command-line tool: how the flags become a walker, the loop that
  consumes the batches of a walk and counts and prints them, the single run, and the bench
  loop with its statistics.

  \<open>flags\<close> holds what \<open>flag.Parse\<close> leaves in the variables (64-bit \<open>uint\<close>, \<open>int\<close> as an
  integer). Standard output and standard error are byte sequences. Parameters: the text of
  an errno and of a duration (\<open>%v\<close>), and, for each run, the batches
  received, whether the walk panicked or never ended, the result of the pool's \<open>Wait\<close> and
  the clock (the \<open>elapsed\<close> of the run). \<open>SetGCPercent\<close> has no effect the model could show;
  \<open>durations\<close> is appended to and never read, so only the panics of its \<open>make\<close> are kept.
\<close>

section \<open>Flags\<close>

record flags =
  fl_maxDepth :: u64
  fl_followLinks :: bool
  fl_skip :: gostring
  fl_print :: bool
  fl_bench :: u64
  fl_quiet :: bool
  fl_workers :: int
  fl_args :: "gostring list"

definition defaultFlags :: flags where
  "defaultFlags =
     \<lparr>fl_maxDepth = 0, fl_followLinks = False, fl_skip = [], fl_print = False, fl_bench = 0,
      fl_quiet = False, fl_workers = 0, fl_args = []\<rparr>"

definition cli_root :: "flags \<Rightarrow> gostring" where
  "cli_root fl = (case fl_args fl of [] \<Rightarrow> dot | a # _ \<Rightarrow> a)"

text \<open>\<open>strings.Split\<close> for a separator of one byte.\<close>

fun Split :: "byte \<Rightarrow> gostring \<Rightarrow> gostring list" where
  "Split sep [] = [[]]"
| "Split sep (b # bs) =
     (if b = sep then [] # Split sep bs
      else (case Split sep bs of [] \<Rightarrow> [[b]] | w # ws \<Rightarrow> (b # w) # ws))"

definition comma :: byte where "comma = 44"

definition cli_skip :: "flags \<Rightarrow> gostring list" where
  "cli_skip fl = (if fl_skip fl \<noteq> [] then Split comma (fl_skip fl) else [])"

definition cli_pool :: "int \<Rightarrow> flags \<Rightarrow> PoolConfig" where
  "cli_pool gomaxprocs fl =
     (let pc = DefaultPoolConfig gomaxprocs
      in if fl_workers fl > 0 then pc\<lparr>PoolSize := fl_workers fl\<rparr> else pc)"

text \<open>\<open>uint32(*maxDepth)\<close> keeps the low 32 bits.\<close>

definition cli_walker :: "int \<Rightarrow> flags \<Rightarrow> walkman outcome" where
  "cli_walker gomaxprocs fl =
     NewWalkmanWithConfig (fl_followLinks fl) (ucast (fl_maxDepth fl)) (cli_skip fl)
       (cli_pool gomaxprocs fl)"

section \<open>Counters\<close>

text \<open>The four \<open>uint32\<close> results of \<open>runOnce\<close>; they wrap around.\<close>

datatype counts = Counts (n_files: u32) (n_dirs: u32) (n_links: u32) (n_errs: u32)

instantiation counts :: comm_monoid_add
begin

definition zero_counts :: counts where
  "zero_counts = Counts 0 0 0 0"

fun plus_counts :: "counts \<Rightarrow> counts \<Rightarrow> counts" where
  "plus_counts (Counts f d l e) (Counts f' d' l' e') = Counts (f + f') (d + d') (l + l') (e + e')"

instance
proof
  fix a b c :: counts
  show "a + b + c = a + (b + c)" by (cases a; cases b; cases c) simp
  show "a + b = b + a" by (cases a; cases b) simp
  show "0 + a = a" by (cases a) (simp add: zero_counts_def)
qed

end

lemma counts_add_sel [simp]:
  "n_files (a + b) = n_files a + n_files b" "n_dirs (a + b) = n_dirs a + n_dirs b"
  "n_links (a + b) = n_links a + n_links b" "n_errs (a + b) = n_errs a + n_errs b"
  by (cases a; cases b; simp)+

lemma counts_zero_sel [simp]: "n_files 0 = 0" "n_dirs 0 = 0" "n_links 0 = 0" "n_errs 0 = 0"
  by (simp_all add: zero_counts_def)

section \<open>Texts\<close>

definition bytes :: "string \<Rightarrow> gostring" where
  "bytes s = map of_char s"

text \<open>\<open>%d\<close> of an unsigned value.\<close>

fun dec :: "nat \<Rightarrow> gostring" where
  "dec n = (if n < 10 then [48 + of_nat n] else dec (n div 10) @ [48 + of_nat (n mod 10)])"

declare dec.simps [simp del]

definition dec_int :: "int \<Rightarrow> gostring" where
  "dec_int k = (if k < 0 then bytes ''-'' @ dec (nat (- k)) else dec (nat k))"

fun err_text :: "(errno \<Rightarrow> gostring) \<Rightarrow> err \<Rightarrow> gostring" where
  "err_text T (Errno n) = T n"
| "err_text T ErrSymlinkCycle = bytes ''walkman: symlink cycle''"
| "err_text T ErrNoDevInoInfo = bytes ''walkman: no dev/ino info available''"
| "err_text T ErrDanglingSymlink = bytes ''walkman: dangling/unresolved symlink''"

definition summary_line :: "counts \<Rightarrow> gostring" where
  "summary_line c =
     bytes ''files='' @ dec (unat (n_files c)) @ bytes '' dirs='' @ dec (unat (n_dirs c)) @
     bytes '' links='' @ dec (unat (n_links c)) @ bytes '' errors='' @ dec (unat (n_errs c)) @ [10]"

section \<open>Consuming a batch\<close>

text \<open>A batch as the consumer reads it from the slices it received.\<close>

record received =
  rc_dir :: gostring
  rc_entries :: "aentry list option"
  rc_errs :: "gostring DirErr list"

definition read_entry :: "walkman \<Rightarrow> sEntry \<Rightarrow> aentry" where
  "read_entry st e =
     \<lparr>parentDir = mem_read (h_str st) (parentDir e), entName = mem_read (h_str st) (entName e),
      ino = ino e, etyp = etyp e\<rparr>"

definition receive :: "walkman \<Rightarrow> DirBatch \<Rightarrow> received" where
  "receive st b =
     \<lparr>rc_dir = mem_read (h_str st) (Dir b),
      rc_entries = map_option (\<lambda>s. map (read_entry st) (mem_read (h_ent st) s)) (Entries b),
      rc_errs = map (\<lambda>d. \<lparr>errName = mem_read (h_str st) (errName d), errErr = errErr d\<rparr>)
        (opt_read (h_err st) (Errs b))\<rparr>"

record tally =
  t_counts :: counts
  t_out :: gostring
  t_err :: gostring

definition start_tally :: tally where
  "start_tally = \<lparr>t_counts = 0, t_out = [], t_err = []\<rparr>"

definition error_line :: "(errno \<Rightarrow> gostring) \<Rightarrow> gostring DirErr \<Rightarrow> gostring" where
  "error_line T ie = bytes ''error: '' @ errName ie @ bytes '' '' @ err_text T (errErr ie) @ [10]"

definition consume_errs ::
  "(errno \<Rightarrow> gostring) \<Rightarrow> bool \<Rightarrow> gostring DirErr list \<Rightarrow> tally \<Rightarrow> tally" where
  "consume_errs T print errs s =
     (let n = length errs in
      if n \<noteq> 0 then
        let s = s\<lparr>t_counts := t_counts s + Counts 0 0 0 (of_nat n)\<rparr>
        in if print then fold (\<lambda>ie s. s\<lparr>t_err := t_err s @ error_line T ie\<rparr>) errs s else s
      else s)"

definition entry_line :: "string \<Rightarrow> gostring \<Rightarrow> aentry \<Rightarrow> gostring" where
  "entry_line kind dir e = bytes kind @ bytes ''  '' @ dir @ bytes ''/'' @ Name e @ [10]"

definition consume_entry :: "bool \<Rightarrow> gostring \<Rightarrow> aentry \<Rightarrow> tally \<Rightarrow> tally" where
  "consume_entry print dir e s =
     (let t = Type e;
          (kind, c) =
            (if t AND ModeSymlink \<noteq> 0 then (''l'', Counts 0 0 1 0)
             else if mode_IsDir t then (''d'', Counts 0 1 0 0)
             else (''f'', Counts 1 0 0 0));
          s = s\<lparr>t_counts := t_counts s + c\<rparr>
      in if print then s\<lparr>t_out := t_out s @ entry_line kind dir e\<rparr> else s)"

definition consume :: "(errno \<Rightarrow> gostring) \<Rightarrow> bool \<Rightarrow> received \<Rightarrow> tally \<Rightarrow> tally" where
  "consume T print r s =
     (let s = consume_errs T print (rc_errs r) s in
      case rc_entries r of
        None \<Rightarrow> s
      | Some es \<Rightarrow> fold (consume_entry print (rc_dir r)) es s)"

section \<open>One run\<close>

text \<open>
  \<open>runOnce\<close> builds the walker, starts the walk and consumes the batches. What the pool and the
  clock answer is \<open>one_run\<close>: the batches in the order the channel delivered them, the panic of
  a worker that ended the process after them, if any, what \<open>Wait\<close> returned, and the time.
  \<open>Cli_Whole\<close> says which answers the runs of \<open>Conc_Channel\<close> give. Standard output and error
  are threaded through.
\<close>

type_synonym io = "gostring \<times> gostring"

datatype 'a run = Done 'a io | Exit nat io | Crash panic io | Hang io

fun rbind :: "'a run \<Rightarrow> ('a \<Rightarrow> io \<Rightarrow> 'b run) \<Rightarrow> 'b run" where
  "rbind (Done x io) f = f x io"
| "rbind (Exit n io) f = Exit n io"
| "rbind (Crash p io) f = Crash p io"
| "rbind (Hang io) f = Hang io"

record one_run =
  or_batches :: "received list"
  or_crash :: "panic option"
  or_wait :: "err option"
  or_elapsed :: u64

definition consume_walk ::
  "(errno \<Rightarrow> gostring) \<Rightarrow> flags \<Rightarrow> one_run \<Rightarrow> io \<Rightarrow> (counts \<times> u64) run" where
  "consume_walk T fl r io =
     (let s = fold (consume T (fl_print fl)) (or_batches r)
                \<lparr>t_counts = 0, t_out = fst io, t_err = snd io\<rparr>
      in case or_crash r of
           Some p \<Rightarrow> Crash p (t_out s, t_err s)
         | None \<Rightarrow>
             (case or_wait r of
                Some e \<Rightarrow>
                  Exit 1 (t_out s, t_err s @ bytes ''walk failed: '' @ err_text T e @ [10])
              | None \<Rightarrow> Done (t_counts s, or_elapsed r) (t_out s, t_err s)))"

definition runOnce ::
  "(errno \<Rightarrow> gostring) \<Rightarrow> int \<Rightarrow> env \<Rightarrow> flags \<Rightarrow> one_run \<Rightarrow> io \<Rightarrow> (counts \<times> u64) run" where
  "runOnce T gomaxprocs E fl r io =
     (case obind (cli_walker gomaxprocs fl) (Walk E (cli_root fl)) of
        Panic p \<Rightarrow> Crash p io
      | Diverge \<Rightarrow> Hang io
      | Ret _ \<Rightarrow> consume_walk T fl r io)"

section \<open>The bench loop and main\<close>

text \<open>\<open>time.Duration\<close> is a signed 64-bit integer.\<close>

record bench =
  bn_last :: counts
  bn_total :: u64
  bn_min :: u64
  bn_max :: u64

definition bench_start :: bench where
  "bench_start = \<lparr>bn_last = 0, bn_total = 0, bn_min = 2 ^ 63 - 1, bn_max = 0\<rparr>"

definition bench_step :: "counts \<times> u64 \<Rightarrow> bench \<Rightarrow> bench" where
  "bench_step = (\<lambda>(c, elapsed) b.
     let b = b\<lparr>bn_last := c, bn_total := bn_total b + elapsed\<rparr>;
         b = (if sint elapsed < sint (bn_min b) then b\<lparr>bn_min := elapsed\<rparr> else b)
     in if sint elapsed > sint (bn_max b) then b\<lparr>bn_max := elapsed\<rparr> else b)"

text \<open>\<open>runs j\<close> is what the world answers to the \<open>j\<close>-th run of the process.\<close>

fun bench_loop ::
  "(errno \<Rightarrow> gostring) \<Rightarrow> int \<Rightarrow> env \<Rightarrow> flags \<Rightarrow> (nat \<Rightarrow> one_run) \<Rightarrow> nat list \<Rightarrow> bench \<Rightarrow> io \<Rightarrow> bench run" where
  "bench_loop T gomaxprocs E fl runs [] b io = Done b io"
| "bench_loop T gomaxprocs E fl runs (j # js) b io =
     rbind (runOnce T gomaxprocs E fl (runs j) io)
       (\<lambda>r io. bench_loop T gomaxprocs E fl runs js (bench_step r b) io)"

definition bench_avg :: "int \<Rightarrow> bench \<Rightarrow> u64" where
  "bench_avg n b = word_of_int (sint (bn_total b) sdiv n)"

definition bench_line :: "(u64 \<Rightarrow> gostring) \<Rightarrow> int \<Rightarrow> bench \<Rightarrow> gostring" where
  "bench_line D n b =
     bytes ''bench: n='' @ dec_int n @ bytes '' avg='' @ D (bench_avg n b) @
     bytes '' min='' @ D (bn_min b) @ bytes '' max='' @ D (bn_max b) @
     bytes '' avg_ns_op='' @ dec_int (sint (bench_avg n b)) @ [10]"

text \<open>\<open>make([]time.Duration, 0, n)\<close>: a duration has eight bytes.\<close>

definition main_bench ::
  "(errno \<Rightarrow> gostring) \<Rightarrow> (u64 \<Rightarrow> gostring) \<Rightarrow> int \<Rightarrow> env \<Rightarrow> flags \<Rightarrow> (nat \<Rightarrow> one_run) \<Rightarrow> unit run" where
  "main_bench T D gomaxprocs E fl runs =
     (let n = sint (fl_bench fl) in
      if \<not> make_fits 8 n then Crash MakeSliceCap ([], [])
      else
        rbind (bench_loop T gomaxprocs E fl runs [0..<nat n] bench_start ([], [])) (\<lambda>b (out, er).
          let out = (if \<not> fl_quiet fl then out @ summary_line (bn_last b) else out)
          in Done () (out @ bench_line D n b, er)))"

definition main ::
  "(errno \<Rightarrow> gostring) \<Rightarrow> (u64 \<Rightarrow> gostring) \<Rightarrow> int \<Rightarrow> env \<Rightarrow> flags \<Rightarrow> (nat \<Rightarrow> one_run) \<Rightarrow> unit run" where
  "main T D gomaxprocs E fl runs =
     (if fl_bench fl > 0 then main_bench T D gomaxprocs E fl runs
      else
        rbind (runOnce T gomaxprocs E fl (runs 0) ([], [])) (\<lambda>(c, elapsed) (out, er).
          if \<not> fl_quiet fl then
            Done () (out @ summary_line c @ bytes ''elapsed='' @ D elapsed @ [10], er)
          else Done () (out, er)))"

end
