(* ===== verification/Cli_Run.thy ===== *)
theory Cli_Run
  imports Cli
begin

text \<open>
  What the command-line tool reports, against the walk: the counters and the printed lines of
  a batch in closed form, runs in which the pool's tasks and the consumer's loop interleave in
  any way, and the theorem that every such run ends with the same counters and a permutation
  of the same output. Also the flags, the summary line and the bench statistics.
\<close>

section \<open>One batch\<close>

definition tally_of :: "batch \<Rightarrow> counts" where
  "tally_of b =
     Counts (of_nat (length (filter (\<lambda>e. etyp e \<notin> {dtDir, dtLnk}) (b_entries b))))
       (of_nat (length (filter IsDir (b_entries b))))
       (of_nat (length (filter (\<lambda>e. etyp e = dtLnk) (b_entries b))))
       (of_nat (length (b_errs b)))"

definition batch_lines :: "batch \<Rightarrow> gostring list" where
  "batch_lines b =
     map (\<lambda>e. entry_line (if etyp e = dtLnk then ''l'' else if IsDir e then ''d'' else ''f'') (b_dir b) e)
       (b_entries b)"

definition error_lines :: "(errno \<Rightarrow> gostring) \<Rightarrow> batch \<Rightarrow> gostring list" where
  "error_lines T b = map (error_line T) (b_errs b)"

definition received_of :: "batch \<Rightarrow> received" where
  "received_of b =
     \<lparr>rc_dir = b_dir b, rc_entries = (if b_entries b = [] then None else Some (b_entries b)),
      rc_errs = b_errs b\<rparr>"

lemma list_all2_map_eq: "list_all2 (\<lambda>x y. f x = y) xs ys \<longleftrightarrow> map f xs = ys"
  by (auto simp: list_all2_conv_all_nth list_eq_iff_nth_eq)

text \<open>A batch of the code has one reading.\<close>

lemma receive_batch_rel:
  assumes "batch_rel st b a"
  shows "receive st b = received_of a"
proof -
  have "read_entry st e = ae" if "ent_rel st e ae" for e ae
    using that by (cases ae) (simp add: ent_rel_def str_rel_def read_entry_def)
  then have es: "map (read_entry st) (opt_read (h_ent st) (Entries b)) = b_entries a"
    using assms unfolding batch_rel_def list_all2_map_eq [symmetric] by (blast intro: list_all2_mono)
  have "\<lparr>errName = mem_read (h_str st) (errName d), errErr = errErr d\<rparr> = ad" if "err_rel st d ad" for d ad
    using that by (cases ad) (simp add: err_rel_def str_rel_def)
  then have "map (\<lambda>d. \<lparr>errName = mem_read (h_str st) (errName d), errErr = errErr d\<rparr>)
      (opt_read (h_err st) (Errs b)) = b_errs a"
    using assms unfolding batch_rel_def list_all2_map_eq [symmetric] by (blast intro: list_all2_mono)
  then show ?thesis
    using assms es by (cases "Entries b") (auto simp: receive_def received_of_def batch_rel_def str_rel_def)
qed

lemma fold_append: "fold (\<lambda>x s. s\<lparr>t_err := t_err s @ f x\<rparr>) xs s = s\<lparr>t_err := t_err s @ concat (map f xs)\<rparr>"
  by (induction xs arbitrary: s) simp_all

lemma consume_errs_eq:
  "consume_errs T pr errs s =
     s\<lparr>t_counts := t_counts s + Counts 0 0 0 (of_nat (length errs)),
       t_err := t_err s @ (if pr then concat (map (error_line T) errs) else [])\<rparr>"
proof (cases "errs = []")
  case True
  have "Counts 0 0 0 0 = 0" by (simp add: zero_counts_def)
  then show ?thesis using True by (simp add: consume_errs_def)
qed (simp add: consume_errs_def Let_def fold_append)

lemma consume_entry_eq:
  "consume_entry pr dir e s =
     s\<lparr>t_counts := t_counts s + tally_of \<lparr>b_dir = dir, b_entries = [e], b_errs = []\<rparr>,
       t_out := t_out s @ (if pr then concat (batch_lines \<lparr>b_dir = dir, b_entries = [e], b_errs = []\<rparr>) else [])\<rparr>"
  by (simp add: consume_entry_def tally_of_def batch_lines_def Type_def FileMode_def IsDir_def
      mode_IsDir_def mode_defs dt_defs)

lemma tally_of_Cons:
  "tally_of \<lparr>b_dir = dir, b_entries = e # es, b_errs = errs\<rparr> =
     tally_of \<lparr>b_dir = dir, b_entries = [e], b_errs = []\<rparr> + tally_of \<lparr>b_dir = dir, b_entries = es, b_errs = errs\<rparr>"
  by (simp add: tally_of_def)

lemma consume_entries_eq:
  "fold (consume_entry pr dir) es s =
     s\<lparr>t_counts := t_counts s + tally_of \<lparr>b_dir = dir, b_entries = es, b_errs = []\<rparr>,
       t_out := t_out s @ (if pr then concat (batch_lines \<lparr>b_dir = dir, b_entries = es, b_errs = []\<rparr>) else [])\<rparr>"
proof (induction es arbitrary: s)
  case Nil
  have "tally_of \<lparr>b_dir = dir, b_entries = [], b_errs = []\<rparr> = 0" by (simp add: tally_of_def zero_counts_def)
  then show ?case by (simp add: batch_lines_def)
next
  case (Cons e es)
  have "fold (consume_entry pr dir) (e # es) s = fold (consume_entry pr dir) es (consume_entry pr dir e s)"
    by simp
  also note Cons.IH
  finally show ?case
    by (simp only: consume_entry_eq [of pr dir e s] tally_of_Cons [of dir e es])
      (simp add: add.assoc batch_lines_def)
qed

text \<open>What the loop body adds for one batch.\<close>

lemma consume_eq:
  "consume T pr (received_of b) s =
     s\<lparr>t_counts := t_counts s + tally_of b,
       t_out := t_out s @ (if pr then concat (batch_lines b) else []),
       t_err := t_err s @ (if pr then concat (error_lines T b) else [])\<rparr>"
proof -
  have split: "tally_of b = Counts 0 0 0 (of_nat (length (b_errs b))) +
      tally_of \<lparr>b_dir = b_dir b, b_entries = b_entries b, b_errs = []\<rparr>"
    by (simp add: tally_of_def)
  have "consume T pr (received_of b) s =
      fold (consume_entry pr (b_dir b)) (b_entries b) (consume_errs T pr (b_errs b) s)"
    by (simp add: consume_def received_of_def)
  then show ?thesis
    by (simp add: consume_entries_eq consume_errs_eq split add.assoc batch_lines_def error_lines_def)
qed

lemma consume_all_eq:
  "fold (consume T pr) (map received_of bs) s =
     s\<lparr>t_counts := t_counts s + sum_list (map tally_of bs),
       t_out := t_out s @ (if pr then concat (concat (map batch_lines bs)) else []),
       t_err := t_err s @ (if pr then concat (concat (map (error_lines T) bs)) else [])\<rparr>"
  by (induction bs arbitrary: s) (simp_all add: consume_eq add.assoc)

lemma tally_cong: "mset bs = mset bs' \<Longrightarrow> sum_list (map tally_of bs) = sum_list (map tally_of bs')"
  by (simp add: sum_mset_sum_list [symmetric] del: sum_mset_sum_list)

section \<open>The consumer beside the pool\<close>

text \<open>
  A state of \<open>runOnce\<close>'s loop: the pool's run, how many batches the loop has received, and its
  counters and output. Either a task runs, or the consumer receives the next batch the
  channel holds and reads it from the heaps as they are at that moment.
\<close>

type_synonym cli_state = "walkrun \<times> nat \<times> tally"

inductive cli_step ::
  "(errno \<Rightarrow> gostring) \<Rightarrow> bool \<Rightarrow> env \<Rightarrow> cli_state \<Rightarrow> cli_state \<Rightarrow> bool"
  for T :: "errno \<Rightarrow> gostring" and pr :: bool and E :: env where
  work: "pool_step E r r' \<Longrightarrow> cli_step T pr E (r, k, s) (r', k, s)"
| recv: "k < length out \<Longrightarrow>
     cli_step T pr E (Walking pend out st, k, s)
       (Walking pend out st, Suc k, consume T pr (receive st (out ! k)) s)"

inductive_cases cli_stepE: "cli_step T pr E (r, k, s) x"

definition cli_start :: "item \<Rightarrow> walkman \<Rightarrow> cli_state" where
  "cli_start it st = (Walking [it] [] st, 0, start_tally)"

text \<open>The range loop ends when the channel is closed and drained.\<close>

fun cli_done :: "cli_state \<Rightarrow> bool" where
  "cli_done (Walking pend out st, k, s) \<longleftrightarrow> pend = [] \<and> k = length out"
| "cli_done _ \<longleftrightarrow> False"

definition cli_rel ::
  "(errno \<Rightarrow> gostring) \<Rightarrow> bool \<Rightarrow> walkConf \<Rightarrow> fsview \<Rightarrow> batch list \<Rightarrow> cli_state \<Rightarrow> nat \<Rightarrow> bool" where
  "cli_rel T pr c F all x n \<longleftrightarrow>
     (\<exists>r k aout left. x = (r, k, fold (consume T pr) (map received_of (take k aout)) start_tally) \<and>
        run_rel c F all r aout left \<and> k \<le> length aout \<and> n = length aout + k \<and>
        length all = length aout + length left)"

lemma run_rel_out:
  assumes "run_rel c F all r aout left"
  obtains pend out st where "r = Walking pend out st" and "list_all2 (batch_rel st) out aout"
    and "mset all = mset aout + mset left"
  using assms by (auto simp: run_rel_def)

lemma cli_rel_step:
  assumes rel: "cli_rel T pr c F all x n" and step: "cli_step T pr E x y" and view: "view_ok E F"
  shows "cli_rel T pr c F all y (Suc n)"
proof -
  obtain r k aout left where x: "x = (r, k, fold (consume T pr) (map received_of (take k aout)) start_tally)"
    and rr: "run_rel c F all r aout left" and k: "k \<le> length aout" and n: "n = length aout + k"
    and len: "length all = length aout + length left"
    using rel by (auto simp: cli_rel_def)
  from step [unfolded x] show ?thesis
  proof (cases rule: cli_step.cases)
    case (work r')
    obtain b left' where "run_rel c F all r' (aout @ [b]) left'" "length left = Suc (length left')"
      using run_rel_step [OF rr work(2) view] by blast
    then show ?thesis using work(1) k n len unfolding cli_rel_def
      by (intro exI [of _ r'] exI [of _ k] exI [of _ "aout @ [b]"] exI [of _ left']) simp
  next
    case (recv out pend st)
    have os: "list_all2 (batch_rel st) out aout" using rr recv(1) by (auto elim!: run_rel_out)
    then have l: "length out = length aout" and "batch_rel st (out ! k) (aout ! k)"
      using recv(3) by (auto simp: list_all2_conv_all_nth)
    then have "receive st (out ! k) = received_of (aout ! k)" by (intro receive_batch_rel)
    then have "consume T pr (receive st (out ! k)) (fold (consume T pr) (map received_of (take k aout)) start_tally) =
        fold (consume T pr) (map received_of (take (Suc k) aout)) start_tally"
      using recv(3) l by (simp add: take_Suc_conv_app_nth)
    then show ?thesis using recv rr k n len l unfolding cli_rel_def
      by (intro exI [of _ r] exI [of _ "Suc k"] exI [of _ aout] exI [of _ left]) simp
  qed
qed

lemma cli_rel_steps:
  assumes "(cli_step T pr E ^^ n) x y" and "cli_rel T pr c F all x m" and "view_ok E F"
  shows "cli_rel T pr c F all y (m + n)"
  using assms(1)
proof (induction n arbitrary: y)
  case (Suc n)
  then obtain z where "(cli_step T pr E ^^ n) x z" and z: "cli_step T pr E z y" by auto
  then have "cli_rel T pr c F all z (m + n)" by (intro Suc.IH)
  then show ?case using cli_rel_step [OF _ z assms(3)] by simp
qed (use assms(2) in simp)

lemma cli_rel_end:
  assumes rel: "cli_rel T pr c F all x n" and view: "view_ok E F"
  shows "n \<le> 2 * length all" and "cli_done x \<longleftrightarrow> n = 2 * length all"
    and "\<not> cli_done x \<Longrightarrow> \<exists>y. cli_step T pr E x y"
    and "cli_done x \<Longrightarrow> \<exists>abs. mset abs = mset all \<and>
      snd (snd x) = fold (consume T pr) (map received_of abs) start_tally"
proof -
  obtain r k aout left where x: "x = (r, k, fold (consume T pr) (map received_of (take k aout)) start_tally)"
    and rr: "run_rel c F all r aout left" and k: "k \<le> length aout" and n: "n = length aout + k"
    and len: "length all = length aout + length left"
    using rel by (auto simp: cli_rel_def)
  obtain pend out st where r: "r = Walking pend out st" and os: "list_all2 (batch_rel st) out aout"
    and ms: "mset all = mset aout + mset left"
    using rr by (rule run_rel_out)
  note pr = run_rel_progress [OF rr view]
  have lo: "length out = length aout" using os by (rule list_all2_lengthD)
  show "n \<le> 2 * length all" using n k len by simp
  have d: "cli_done x \<longleftrightarrow> left = [] \<and> k = length aout" using pr(1) by (simp add: x r lo)
  then show "cli_done x \<longleftrightarrow> n = 2 * length all" using n k len by auto
  show "\<exists>y. cli_step T pr E x y" if nd: "\<not> cli_done x"
  proof (cases "left = []")
    case True
    then have "k < length out" using nd d k lo by simp
    then show ?thesis using cli_step.recv unfolding x r by blast
  next
    case False
    then show ?thesis using pr(2) cli_step.work unfolding x by blast
  qed
  show "\<exists>abs. mset abs = mset all \<and> snd (snd x) = fold (consume T pr) (map received_of abs) start_tally"
    if "cli_done x"
    using that d ms by (intro exI [of _ aout]) (simp add: x)
qed


text \<open>
  With whole tasks as steps the run has a length. The pool's tasks and the loop of
  \<open>runOnce\<close> interleave in any way: for a file system whose walk is the finite list \<open>bs\<close>, every
  run makes at most \<open>2 * length bs\<close> steps, can go on unless the loop is over, which it is
  exactly after that many, and then the counters are the sum of the batches' counters, and
  with \<open>--print\<close> the output is the lines of the batches in some order of the batches.
\<close>

lemma cli_reports_tree:
  assumes "wm_ok st" and "wm_workers st \<noteq> []" and "view_ok E F"
    and "forest (wm_conf st) F [spec_root (wm_conf st) F root] bs"
  shows "\<exists>it st0. Walk E root st = Ret (it, st0) \<and>
     (\<forall>n x. (cli_step T pr E ^^ n) (cli_start it st0) x \<longrightarrow>
        n \<le> 2 * length bs \<and> (cli_done x \<longleftrightarrow> n = 2 * length bs) \<and>
        (\<not> cli_done x \<longrightarrow> (\<exists>y. cli_step T pr E x y)) \<and>
        (cli_done x \<longrightarrow> (\<exists>abs. mset abs = mset bs \<and> snd (snd x) =
           \<lparr>t_counts = sum_list (map tally_of bs),
            t_out = (if pr then concat (concat (map batch_lines abs)) else []),
            t_err = (if pr then concat (concat (map (error_lines T) abs)) else [])\<rparr>)))"
proof -
  obtain it st0 where w: "Walk E root st = Ret (it, st0)"
    and rr: "run_rel (wm_conf st) F bs (Walking [it] [] st0) [] bs"
    using assms by (rule run_rel_Walk)
  have init: "cli_rel T pr (wm_conf st) F bs (cli_start it st0) 0"
    using rr unfolding cli_rel_def cli_start_def
    by (intro exI [of _ "Walking [it] [] st0"] exI [of _ 0] exI [of _ "[]"] exI [of _ bs]) simp
  have rel: "cli_rel T pr (wm_conf st) F bs x n" if "(cli_step T pr E ^^ n) (cli_start it st0) x" for n x
    using cli_rel_steps [OF that init assms(3)] by simp
  have res: "\<exists>abs. mset abs = mset bs \<and> snd (snd x) =
      \<lparr>t_counts = sum_list (map tally_of bs),
       t_out = (if pr then concat (concat (map batch_lines abs)) else []),
       t_err = (if pr then concat (concat (map (error_lines T) abs)) else [])\<rparr>"
    if run: "(cli_step T pr E ^^ n) (cli_start it st0) x" and fin: "cli_done x" for n x
  proof -
    obtain abs where m: "mset abs = mset bs"
      and "snd (snd x) = fold (consume T pr) (map received_of abs) start_tally"
      using cli_rel_end(4) [OF rel [OF run] assms(3) fin] by blast
    then show ?thesis using tally_cong [OF m] by (auto simp: consume_all_eq start_tally_def)
  qed
  show ?thesis
    by (intro exI [of _ it] exI [of _ st0] conjI allI impI w)
      (use cli_rel_end(1-3) [OF rel assms(3)] res in blast)+
qed

lemma cli_reports_tree_witness:
  "\<exists>st it st0. Walk demo_env [116] st = Ret (it, st0) \<and>
     (\<forall>x. (cli_step (\<lambda>_. []) False demo_env ^^ 4) (cli_start it st0) x \<longrightarrow>
        cli_done x \<and> t_counts (snd (snd x)) = Counts 1 1 0 1)"
proof -
  obtain st it0 st1 where w: "wm_ok st" "wm_conf st = demo_conf True 0" "length (wm_workers st) = 2"
    by (rule demo_walker [of True])
  then have ne: "wm_workers st \<noteq> []" by auto
  let ?bs = "[\<lparr>b_dir = [116], b_entries = [demo_entry [97] 2 4, demo_entry [98] 3 8],
       b_errs = [\<lparr>errName = [108], errErr = ErrSymlinkCycle\<rparr>]\<rparr>,
      \<lparr>b_dir = [116, 47, 97], b_entries = [], b_errs = []\<rparr>]"
  have sum: "sum_list (map tally_of ?bs) = Counts 1 1 0 1"
    by (simp add: tally_of_def demo_entry_def IsDir_def dt_defs)
  obtain it st0 where wk: "Walk demo_env [116] st = Ret (it, st0)"
    and all: "\<forall>n x. (cli_step (\<lambda>_. []) False demo_env ^^ n) (cli_start it st0) x \<longrightarrow>
        n \<le> 2 * length ?bs \<and> (cli_done x \<longleftrightarrow> n = 2 * length ?bs) \<and>
        (\<not> cli_done x \<longrightarrow> (\<exists>y. cli_step (\<lambda>_. []) False demo_env x y)) \<and>
        (cli_done x \<longrightarrow> (\<exists>abs. mset abs = mset ?bs \<and> snd (snd x) =
           \<lparr>t_counts = sum_list (map tally_of ?bs),
            t_out = (if False then concat (concat (map batch_lines abs)) else []),
            t_err = (if False then concat (concat (map (error_lines (\<lambda>_. [])) abs)) else [])\<rparr>))"
    using cli_reports_tree [OF w(1) ne demo_view_ok demo_forest [of True, folded w(2)], of "\<lambda>_. []" False]
    unfolding demo_batches_simps by blast
  have "cli_done x \<and> t_counts (snd (snd x)) = Counts 1 1 0 1"
    if run: "(cli_step (\<lambda>_. []) False demo_env ^^ 4) (cli_start it st0) x" for x
  proof -
    have "cli_done x" using all [rule_format, OF run] by simp
    then show ?thesis using all [rule_format, OF run] sum by auto
  qed
  then show ?thesis using wk by blast
qed

end
