(* ===== verification/Conc_Channel.thy ===== *)
theory Conc_Channel
  imports Conc_Run Cli_Run
begin

text \<open>
  The result channel and who reads from it. \<open>res <- batch\<close> blocks a worker while the channel
  holds \<open>cap\<close> batches nobody has received (\<open>ResultBuffSize\<close>; with \<open>cap = 0\<close> a send waits for the
  receiver). Beside the pool runs the loop of \<open>runOnce\<close>: it receives a batch, and reads the
  slices of the batch later, while the workers have moved on. The theorems: with this consumer
  the tool reports the tree and nothing ever blocks for good, whatever \<open>cap\<close>; without any
  consumer a walk ends exactly when all its batches fit into the channel.
\<close>

section \<open>The tool\<close>

fun sent :: "conc \<Rightarrow> DirBatch list" where
  "sent (Pool pend running out st) = out"
| "sent _ = []"

text \<open>The pool, the number of batches received, the batch at hand, the counters and output.\<close>

datatype tool = Tool conc nat "DirBatch option" tally

inductive tool_step :: "(errno \<Rightarrow> gostring) \<Rightarrow> bool \<Rightarrow> nat \<Rightarrow> env \<Rightarrow> tool \<Rightarrow> tool \<Rightarrow> bool"
  for T :: "errno \<Rightarrow> gostring" and pr :: bool and cap :: nat and E :: env where
  work: "conc_step E c c' \<Longrightarrow> length (sent c') \<le> k + cap \<Longrightarrow>
     tool_step T pr cap E (Tool c k h s) (Tool c' k h s)"
| meet: "conc_step E c c' \<Longrightarrow> length (sent c) = k \<Longrightarrow> sent c' = sent c @ [b] \<Longrightarrow>
     tool_step T pr cap E (Tool c k None s) (Tool c' (Suc k) (Some b) s)"
| recv: "k < length (sent c) \<Longrightarrow>
     tool_step T pr cap E (Tool c k None s) (Tool c (Suc k) (Some (sent c ! k)) s)"
| read: "tool_step T pr cap E (Tool (Pool pend running out st) k (Some b) s)
     (Tool (Pool pend running out st) k None (consume T pr (receive st b) s))"

inductive_cases tool_stepE: "tool_step T pr cap E (Tool c k h s) y"

definition tool_start :: "item \<Rightarrow> walkman \<Rightarrow> tool" where
  "tool_start it st = Tool (conc_start it st) 0 None start_tally"

fun tool_done :: "tool \<Rightarrow> bool" where
  "tool_done (Tool c k h s) \<longleftrightarrow> conc_over c \<and> k = length (sent c) \<and> h = None"

fun tool_tally :: "tool \<Rightarrow> tally" where
  "tool_tally (Tool c k h s) = s"

text \<open>Batches sent and not yet received.\<close>

fun in_channel :: "tool \<Rightarrow> nat" where
  "in_channel (Tool c k h s) = length (sent c) - k"

section \<open>The invariant\<close>

lemma conc_step_sent:
  assumes "conc_step E c (Pool pend running out st)"
  shows "out = sent c \<or> (\<exists>b. out = sent c @ [b])"
  using assms by (cases rule: conc_step.cases) auto

lemma conc_rel_sent:
  assumes "conc_rel c F all cn aout m"
  obtains pend running st where "cn = Pool pend running (sent cn) st" and "list_all2 (batch_rel st) (sent cn) aout"
  using assms by (auto simp: conc_rel_def conc_base_def)

lemma conc_rel_length: "conc_rel c F all cn aout m \<Longrightarrow> length (sent cn) = length aout"
  by (erule conc_rel_sent) (rule list_all2_lengthD)

lemma conc_rel_bound: "conc_rel c F all cn aout m \<Longrightarrow> length aout \<le> length all"
  by (erule conc_rel_sound) (metis size_mset size_mset_mono)

text \<open>The loop has read the first \<open>j\<close> batches; the one at hand, if any, is the next.\<close>

definition at_hand :: "DirBatch list \<Rightarrow> nat \<Rightarrow> DirBatch option \<Rightarrow> nat \<Rightarrow> bool" where
  "at_hand out k h j \<longleftrightarrow> (case h of None \<Rightarrow> j = k | Some b \<Rightarrow> k = Suc j \<and> b = out ! j)"

lemma at_hand_append: "at_hand out k h j \<Longrightarrow> k \<le> length out \<Longrightarrow> at_hand (out @ tl') k h j"
  by (auto simp: at_hand_def nth_append split: option.splits)

definition tool_rel ::
  "(errno \<Rightarrow> gostring) \<Rightarrow> bool \<Rightarrow> nat \<Rightarrow> walkConf \<Rightarrow> fsview \<Rightarrow> batch list \<Rightarrow> tool \<Rightarrow> (nat \<times> nat) \<times> nat \<Rightarrow> bool" where
  "tool_rel T pr cap c F all x m \<longleftrightarrow>
     (\<exists>cn k h j aout m1. x = Tool cn k h (fold (consume T pr) (map received_of (take j aout)) start_tally) \<and>
        conc_rel c F all cn aout m1 \<and> at_hand (sent cn) k h j \<and> k \<le> length aout \<and> length aout \<le> k + cap \<and>
        m = (m1, 2 * (length all - k) + (if h = None then 0 else 1)))"

abbreviation tool_less :: "(((nat \<times> nat) \<times> nat) \<times> ((nat \<times> nat) \<times> nat)) set" where
  "tool_less \<equiv> conc_less <*lex*> less_than"

lemma tool_rel_step:
  assumes rel: "tool_rel T pr cap c F all x m" and step: "tool_step T pr cap E x y" and view: "view_ok E F"
  shows "\<exists>m'. tool_rel T pr cap c F all y m' \<and> (m', m) \<in> tool_less"
proof -
  let ?tally = "\<lambda>j aout. fold (consume T pr) (map received_of (take j aout)) start_tally"
  obtain cn k h j aout m1 where x: "x = Tool cn k h (?tally j aout)" and cr: "conc_rel c F all cn aout m1"
    and hand: "at_hand (sent cn) k h j" and k: "k \<le> length aout" and room: "length aout \<le> k + cap"
    and m: "m = (m1, 2 * (length all - k) + (if h = None then 0 else 1))"
    using rel by (auto simp: tool_rel_def)
  have len: "length (sent cn) = length aout" and bound: "length aout \<le> length all"
    using conc_rel_length [OF cr] conc_rel_bound [OF cr] by simp_all
  have moved: "\<exists>new m2 tl'. conc_rel c F all cn' (aout @ new) m2 \<and> (m2, m1) \<in> conc_less \<and> sent cn' = sent cn @ tl' \<and>
      length tl' = length new" if st: "conc_step E cn cn'" for cn'
  proof -
    obtain new m2 where r: "conc_rel c F all cn' (aout @ new) m2" "(m2, m1) \<in> conc_less"
      using conc_rel_step [OF cr st view] by blast
    obtain pend running st' where "cn' = Pool pend running (sent cn') st'" using r(1) by (rule conc_rel_sent)
    then obtain tl' where "sent cn' = sent cn @ tl'" using conc_step_sent [of E cn pend running "sent cn'" st'] st by auto
    then show ?thesis using r conc_rel_length [OF r(1)] len
      by (intro exI [of _ new] exI [of _ m2] exI [of _ tl']) simp
  qed
  have j: "j \<le> length aout" using hand k by (auto simp: at_hand_def split: option.splits)
  then have pre: "?tally j (aout @ new) = ?tally j aout" for new by simp
  show ?thesis
  proof (cases rule: tool_stepE [OF step [unfolded x]])
    case (1 cn')
    obtain new m2 tl' where r: "conc_rel c F all cn' (aout @ new) m2" "(m2, m1) \<in> conc_less" "sent cn' = sent cn @ tl'"
      using moved [OF 1(2)] by blast
    have "tool_rel T pr cap c F all y (m2, 2 * (length all - k) + (if h = None then 0 else 1))"
      unfolding tool_rel_def
      using 1(1,3) r k conc_rel_length [OF r(1)] at_hand_append [OF hand, of tl'] len pre [of new]
      by (intro exI [of _ cn'] exI [of _ k] exI [of _ h] exI [of _ j] exI [of _ "aout @ new"] exI [of _ m2]) simp
    then show ?thesis using r(2) m by (intro exI conjI) auto
  next
    case (2 cn' b)
    obtain new m2 tl' where r: "conc_rel c F all cn' (aout @ new) m2" "(m2, m1) \<in> conc_less" "sent cn' = sent cn @ tl'"
      and l: "length tl' = length new"
      using moved [OF 2(3)] by blast
    have "j = k" and "length new = 1" using hand 2 r(3) l by (auto simp: at_hand_def)
    moreover have "at_hand (sent cn') (Suc k) (Some b) k"
      using 2 nth_append_length [of "sent cn" b "[]"] by (simp add: at_hand_def)
    moreover have "y = Tool cn' (Suc k) (Some b) (?tally k (aout @ new))" using 2 pre [of new] \<open>j = k\<close> by simp
    moreover have "length (aout @ new) = Suc k" using 2 len \<open>length new = 1\<close> by simp
    ultimately have "tool_rel T pr cap c F all y (m2, 2 * (length all - Suc k) + 1)"
      unfolding tool_rel_def using r(1)
      by (intro exI [of _ cn'] exI [of _ "Suc k"] exI [of _ "Some b"] exI [of _ k] exI [of _ "aout @ new"] exI [of _ m2]) simp
    then show ?thesis using r(2) m by (intro exI conjI) auto
  next
    case 3
    have jk: "j = k" using hand 3 by (simp add: at_hand_def)
    then have "y = Tool cn (Suc k) (Some (sent cn ! k)) (?tally k aout)" using 3 by simp
    moreover have "at_hand (sent cn) (Suc k) (Some (sent cn ! k)) k" by (simp add: at_hand_def)
    ultimately have "tool_rel T pr cap c F all y (m1, 2 * (length all - Suc k) + 1)"
      unfolding tool_rel_def using 3 cr len room
      by (intro exI [of _ cn] exI [of _ "Suc k"] exI [of _ "Some (sent cn ! k)"] exI [of _ k] exI [of _ aout] exI [of _ m1]) simp
    then show ?thesis using m 3 len bound by (intro exI conjI) auto
  next
    case (4 pend running out st b)
    have cn: "cn = Pool pend running out st" and hb: "h = Some b" using 4 by auto
    have kj: "k = Suc j" and b: "b = out ! j" using hand by (auto simp: at_hand_def cn hb)
    have "list_all2 (batch_rel st) out aout" using cr by (auto simp: cn elim: conc_rel_sent)
    then have "batch_rel st b (aout ! j)" using k kj b by (auto simp: list_all2_conv_all_nth)
    then have "receive st b = received_of (aout ! j)" by (rule receive_batch_rel)
    then have "consume T pr (receive st b) (?tally j aout) = ?tally k aout"
      using k kj by (simp add: take_Suc_conv_app_nth)
    then have "tool_rel T pr cap c F all y (m1, 2 * (length all - k))"
      unfolding tool_rel_def
      using 4 cr k room
      by (intro exI [of _ cn] exI [of _ k] exI [of _ None] exI [of _ k] exI [of _ aout] exI [of _ m1])
        (simp add: at_hand_def)
    then show ?thesis using m hb by (intro exI conjI) auto
  qed
qed

lemma tool_rel_steps:
  assumes "(tool_step T pr cap E)\<^sup>*\<^sup>* x y" and "tool_rel T pr cap c F all x m" and "view_ok E F"
  shows "\<exists>m'. tool_rel T pr cap c F all y m'"
  using assms(1,2) by (induction) (use tool_rel_step assms(3) in blast)+

section \<open>The end of a run\<close>

text \<open>A worker that cannot send finds the loop at hand to take a batch, or the channel not full.\<close>

lemma tool_rel_progress:
  assumes rel: "tool_rel T pr cap c F all x m" and view: "view_ok E F" and more: "\<not> tool_done x"
  shows "\<exists>y. tool_step T pr cap E x y"
proof -
  obtain cn k h j aout m1 s where x: "x = Tool cn k h s" and cr: "conc_rel c F all cn aout m1" and k: "k \<le> length aout"
    using rel by (auto simp: tool_rel_def)
  have len: "length (sent cn) = length aout" by (rule conc_rel_length [OF cr])
  obtain pend running st where cn: "cn = Pool pend running (sent cn) st" using cr by (rule conc_rel_sent)
  show ?thesis
  proof (cases h)
    case (Some b)
    then show ?thesis unfolding x by (subst cn) (blast intro: tool_step.read)
  next
    case None
    show ?thesis
    proof (cases "k < length (sent cn)")
      case True
      then show ?thesis unfolding x None by (blast intro: tool_step.recv)
    next
      case False
      then have full: "length (sent cn) = k" and "\<not> conc_over cn" using k len more x None by auto
      then obtain cn' where st: "conc_step E cn cn'" using cr by (auto elim!: conc_rel_sound)
      obtain new m2 where r: "conc_rel c F all cn' (aout @ new) m2" using conc_rel_step [OF cr st view] by blast
      obtain pend' running' st' where cn': "cn' = Pool pend' running' (sent cn') st'" using r by (rule conc_rel_sent)
      consider "sent cn' = sent cn" | b where "sent cn' = sent cn @ [b]"
        using conc_step_sent [of E cn pend' running' "sent cn'" st'] st cn' by auto
      then show ?thesis
      proof cases
        case 1
        then have "length (sent cn') \<le> k + cap" using full by simp
        from tool_step.work [OF st this] show ?thesis unfolding x by blast
      next
        case 2
        from tool_step.meet [OF st full this] show ?thesis unfolding x None by blast
      qed
    qed
  qed
qed

text \<open>Some run gets to the end of the loop.\<close>

lemma tool_rel_finishes:
  assumes "tool_rel T pr cap c F all x m" and "view_ok E F"
  shows "\<exists>y. (tool_step T pr cap E)\<^sup>*\<^sup>* x y \<and> tool_done y"
proof -
  have "wf tool_less" by auto
  then show ?thesis using assms(1)
  proof (induction m arbitrary: x rule: wf_induct_rule)
    case (less m)
    show ?case
    proof (cases "tool_done x")
      case False
      then obtain z where z: "tool_step T pr cap E x z" using tool_rel_progress [OF less.prems assms(2)] by blast
      obtain m' where "tool_rel T pr cap c F all z m'" "(m', m) \<in> tool_less"
        using tool_rel_step [OF less.prems z assms(2)] by blast
      then show ?thesis using less.IH z by (meson converse_rtranclp_into_rtranclp)
    qed auto
  qed
qed

lemma tool_rel_over:
  assumes rel: "tool_rel T pr cap c F all x m" and over: "tool_done x"
  shows "\<exists>abs. mset abs = mset all \<and> tool_tally x = fold (consume T pr) (map received_of abs) start_tally"
proof -
  obtain cn k h j aout m1 where x: "x = Tool cn k h (fold (consume T pr) (map received_of (take j aout)) start_tally)"
    and cr: "conc_rel c F all cn aout m1" and hand: "at_hand (sent cn) k h j"
    using rel by (auto simp: tool_rel_def)
  have "j = length aout" using hand over x conc_rel_length [OF cr] by (simp add: at_hand_def)
  moreover have "mset aout = mset all" using cr over x by (auto elim: conc_rel_sound)
  ultimately show ?thesis by (intro exI [of _ aout]) (simp add: x)
qed

lemma tool_rel_done:
  assumes "tool_rel T pr cap c F all x m" and "tool_done x"
  shows "\<exists>abs. mset abs = mset all \<and> tool_tally x =
    \<lparr>t_counts = sum_list (map tally_of all),
     t_out = (if pr then concat (concat (map batch_lines abs)) else []),
     t_err = (if pr then concat (concat (map (error_lines T) abs)) else [])\<rparr>"
proof -
  obtain abs where m: "mset abs = mset all"
    and "tool_tally x = fold (consume T pr) (map received_of abs) start_tally"
    using tool_rel_over [OF assms] by blast
  then show ?thesis
    using tally_cong [OF m] by (intro exI [of _ abs]) (simp add: consume_all_eq start_tally_def)
qed

lemma tool_rel_Walk:
  assumes "wm_ok st" and "wm_workers st \<noteq> []" and "view_ok E F"
    and "forest (wm_conf st) F [spec_root (wm_conf st) F root] bs"
  obtains it st0 where "Walk E root st = Ret (it, st0)"
    and "tool_rel T pr cap (wm_conf st) F bs (tool_start it st0) ((length bs, 0), 2 * length bs)"
proof -
  obtain it st0 where w: "Walk E root st = Ret (it, st0)"
    and cr: "conc_rel (wm_conf st) F bs (conc_start it st0) [] (length bs, 0)"
    using assms by (rule conc_rel_Walk)
  have "tool_rel T pr cap (wm_conf st) F bs (tool_start it st0) ((length bs, 0), 2 * length bs)"
    using cr unfolding tool_rel_def tool_start_def
    by (intro exI [of _ "conc_start it st0"] exI [of _ 0] exI [of _ None] exI [of _ 0] exI [of _ "[]"]
        exI [of _ "(length bs, 0)"]) (simp add: at_hand_def)
  then show ?thesis by (rule that [OF w])
qed

text \<open>
  C8. Whatever the schedule and the buffer, the tool reports the tree. The operations of the
  workers, the receipt of a batch and the reading of its slices interleave in any way; a send
  blocks while the channel holds \<open>cap\<close> batches, where \<open>cap\<close> may be 0. For a file system whose
  walk is the finite list \<open>bs\<close>: in every reachable state at most \<open>cap\<close> batches are sent and not
  yet received, the run can go on unless the loop is over, no run goes on forever, and when
  the loop is over the counters are the sum of the batches' counters, and with \<open>--print\<close> the
  output is the lines of the batches in some order of the batches.
\<close>

theorem tool_reports_tree:
  assumes "wm_ok st" and "wm_workers st \<noteq> []" and "view_ok E F"
    and "forest (wm_conf st) F [spec_root (wm_conf st) F root] bs"
  shows "\<exists>it st0. Walk E root st = Ret (it, st0) \<and>
     (\<forall>x. (tool_step T pr cap E)\<^sup>*\<^sup>* (tool_start it st0) x \<longrightarrow>
        in_channel x \<le> cap \<and>
        (\<not> tool_done x \<longrightarrow> (\<exists>y. tool_step T pr cap E x y)) \<and>
        (tool_done x \<longrightarrow> (\<exists>abs. mset abs = mset bs \<and> tool_tally x =
           \<lparr>t_counts = sum_list (map tally_of bs),
            t_out = (if pr then concat (concat (map batch_lines abs)) else []),
            t_err = (if pr then concat (concat (map (error_lines T) abs)) else [])\<rparr>))) \<and>
     \<not> (\<exists>f. f 0 = tool_start it st0 \<and> (\<forall>k. tool_step T pr cap E (f k) (f (Suc k))))"
proof -
  obtain it st0 where w: "Walk E root st = Ret (it, st0)"
    and init: "tool_rel T pr cap (wm_conf st) F bs (tool_start it st0) ((length bs, 0), 2 * length bs)"
    using assms by (rule tool_rel_Walk)
  have room: "in_channel x \<le> cap" if "tool_rel T pr cap (wm_conf st) F bs x m" for x m
    using that conc_rel_length by (fastforce simp: tool_rel_def)
  have rel: "\<exists>m. tool_rel T pr cap (wm_conf st) F bs x m"
    if "(tool_step T pr cap E)\<^sup>*\<^sup>* (tool_start it st0) x" for x
    using tool_rel_steps [OF that init assms(3)] .
  have fin: "\<not> (\<exists>f. f 0 = tool_start it st0 \<and> (\<forall>k. tool_step T pr cap E (f k) (f (Suc k))))"
  proof
    assume "\<exists>f. f 0 = tool_start it st0 \<and> (\<forall>k. tool_step T pr cap E (f k) (f (Suc k)))"
    then obtain f where f0: "f 0 = tool_start it st0" and st: "\<And>k. tool_step T pr cap E (f k) (f (Suc k))" by blast
    have "wf tool_less" by auto
    then show False
      by (rule no_infinite_descent [of _ "tool_rel T pr cap (wm_conf st) F bs" f])
        (use tool_rel_step [OF _ st assms(3)] init f0 in \<open>blast, simp\<close>)
  qed
  show ?thesis
    by (intro exI [of _ it] exI [of _ st0] conjI allI impI w fin)
      (use rel room tool_rel_progress [OF _ assms(3)] tool_rel_done in blast)+
qed

theorem tool_reports_tree_witness:
  "\<exists>st it st0. Walk demo_env [116] st = Ret (it, st0) \<and>
     (\<forall>x. (tool_step (\<lambda>_. []) False 0 demo_env)\<^sup>*\<^sup>* (tool_start it st0) x \<longrightarrow>
        in_channel x = 0 \<and> (tool_done x \<longrightarrow> t_counts (tool_tally x) = Counts 1 1 0 1))"
proof -
  obtain st it0 st1 where w: "wm_ok st" "wm_conf st = demo_conf True 0" "length (wm_workers st) = 2"
    by (rule demo_walker [of True])
  then have ne: "wm_workers st \<noteq> []" by auto
  let ?bs = "[\<lparr>b_dir = [116], b_entries = [demo_entry [97] 2 4, demo_entry [98] 3 8],
       b_errs = [\<lparr>errName = [108], errErr = ErrSymlinkCycle\<rparr>]\<rparr>,
      \<lparr>b_dir = [116, 47, 97], b_entries = [], b_errs = []\<rparr>]"
  have sum: "sum_list (map tally_of ?bs) = Counts 1 1 0 1"
    by (simp add: tally_of_def demo_entry_def IsDir_def dt_defs)
  obtain it st0 where wk: "Walk demo_env [116] st = Ret (it, st0)"
    and all: "\<forall>x. (tool_step (\<lambda>_. []) False 0 demo_env)\<^sup>*\<^sup>* (tool_start it st0) x \<longrightarrow>
        in_channel x \<le> 0 \<and> (\<not> tool_done x \<longrightarrow> (\<exists>y. tool_step (\<lambda>_. []) False 0 demo_env x y)) \<and>
        (tool_done x \<longrightarrow> (\<exists>abs. mset abs = mset ?bs \<and> tool_tally x =
           \<lparr>t_counts = sum_list (map tally_of ?bs),
            t_out = (if False then concat (concat (map batch_lines abs)) else []),
            t_err = (if False then concat (concat (map (error_lines (\<lambda>_. [])) abs)) else [])\<rparr>))"
    using tool_reports_tree [OF w(1) ne demo_view_ok demo_forest [of True, folded w(2)], of "\<lambda>_. []" False 0]
    unfolding demo_batches_simps by blast
  have "in_channel x = 0 \<and> (tool_done x \<longrightarrow> t_counts (tool_tally x) = Counts 1 1 0 1)"
    if run: "(tool_step (\<lambda>_. []) False 0 demo_env)\<^sup>*\<^sup>* (tool_start it st0) x" for x
    using all [rule_format, OF run] sum by auto
  then show ?thesis using wk by blast
qed

section \<open>A walk nobody drains\<close>

text \<open>The steps of the pool when nothing is received: a send needs room in the channel.\<close>

definition held_step :: "nat \<Rightarrow> env \<Rightarrow> conc \<Rightarrow> conc \<Rightarrow> bool" where
  "held_step cap E c c' \<longleftrightarrow> conc_step E c c' \<and> length (sent c') \<le> cap"

lemma held_steps: "(held_step cap E)\<^sup>*\<^sup>* c c' \<Longrightarrow> (conc_step E)\<^sup>*\<^sup>* c c'"
  by (rule rtranclp_mono [THEN predicate2D]) (auto simp: held_step_def)

lemma held_sent: "(held_step cap E)\<^sup>*\<^sup>* c c' \<Longrightarrow> sent c = [] \<Longrightarrow> length (sent c') \<le> cap"
  by (induction rule: rtranclp_induct) (auto simp: held_step_def)

text \<open>
  C11. Drain before you wait. When nobody receives from the result channel, a walk of \<open>n\<close>
  directories ends if and only if the channel has room for \<open>n\<close> batches: no run goes on
  forever; with room for all of them a run that is not over can go on, so it ends; with less,
  no run ever gets to its end, so every run gets stuck with workers blocked on their sends.
\<close>

theorem undrained_walk_ends_iff_it_fits:
  assumes "wm_ok st" and "wm_workers st \<noteq> []" and "view_ok E F"
    and "forest (wm_conf st) F [spec_root (wm_conf st) F root] bs"
  shows "\<exists>it st0. Walk E root st = Ret (it, st0) \<and>
     \<not> (\<exists>f. f 0 = conc_start it st0 \<and> (\<forall>k. held_step cap E (f k) (f (Suc k)))) \<and>
     (\<forall>s. (held_step cap E)\<^sup>*\<^sup>* (conc_start it st0) s \<longrightarrow>
        (if length bs \<le> cap then conc_over s \<or> (\<exists>s'. held_step cap E s s') else \<not> conc_over s))"
proof -
  obtain it st0 where w: "Walk E root st = Ret (it, st0)"
    and init: "conc_rel (wm_conf st) F bs (conc_start it st0) [] (length bs, 0)"
    using assms by (rule conc_rel_Walk)
  have fin: "\<not> (\<exists>f. f 0 = conc_start it st0 \<and> (\<forall>k. held_step cap E (f k) (f (Suc k))))"
    using conc_no_infinite_run [OF _ assms(3)] init unfolding held_step_def by metis
  have "if length bs \<le> cap then conc_over s \<or> (\<exists>s'. held_step cap E s s') else \<not> conc_over s"
    if run: "(held_step cap E)\<^sup>*\<^sup>* (conc_start it st0) s" for s
  proof -
    obtain aout m where rel: "conc_rel (wm_conf st) F bs s aout m"
      using conc_rel_steps [OF held_steps [OF run] init assms(3)] by blast
    have short: "length aout \<le> cap"
      using held_sent [OF run] conc_rel_length [OF rel] by (simp add: conc_start_def)
    have all: "length aout = length bs" if "conc_over s" using rel that by (metis conc_rel_sound size_mset)
    have "\<exists>s'. held_step cap E s s'" if nd: "\<not> conc_over s" and fit: "length bs \<le> cap"
    proof -
      obtain s' where st: "conc_step E s s'" by (rule conc_rel_sound [OF rel, of E]) (use nd in blast)
      obtain new m' where r: "conc_rel (wm_conf st) F bs s' (aout @ new) m'"
        using conc_rel_step [OF rel st assms(3)] by blast
      have "length (sent s') \<le> cap" using conc_rel_length [OF r] conc_rel_bound [OF r] fit by simp
      then show ?thesis using st unfolding held_step_def by blast
    qed
    then show ?thesis using short all by auto
  qed
  then show ?thesis using w fin by blast
qed

theorem undrained_walk_ends_iff_it_fits_witness:
  "\<exists>st it st0. Walk demo_env [116] st = Ret (it, st0) \<and>
     (\<forall>s. (held_step 1 demo_env)\<^sup>*\<^sup>* (conc_start it st0) s \<longrightarrow> \<not> conc_over s)"
proof -
  obtain st it0 st1 where w: "wm_ok st" "wm_conf st = demo_conf True 0" "length (wm_workers st) = 2"
    by (rule demo_walker [of True])
  then have ne: "wm_workers st \<noteq> []" by auto
  have "\<not> length (demo_batches True) \<le> 1" by (simp add: demo_batches_simps)
  then show ?thesis
    using undrained_walk_ends_iff_it_fits [OF w(1) ne demo_view_ok demo_forest [of True, folded w(2)], of 1]
    by (simp only: if_False) blast
qed

end
