(* ===== verification/Cli_Props.thy ===== *)
theory Cli_Props
  imports Cli_Run
begin

text \<open>
  Properties of the command-line tool beyond one walk: what its counters say about the tree,
  how the flags reach the walker, the summary line, the bench statistics, and how a process
  ends.
\<close>

section \<open>What the counters say\<close>

lemma n_dirs_sum: "n_dirs (sum_list (map tally_of bs)) = of_nat (length (concat (map (\<lambda>b. filter IsDir (b_entries b)) bs)))"
  by (induction bs) (simp_all add: tally_of_def)

lemma consumed_counts:
  "t_counts (fold (consume T pr) (map received_of bs) start_tally) = sum_list (map tally_of bs)"
  by (simp add: consume_all_eq start_tally_def)

text \<open>
  C29. With no depth limit the tool's directory count is one less than the number of batches of
  the walk, modulo \<open>2 ^ 32\<close>: every counted directory is walked, and every walked directory but
  the root is counted.
\<close>

theorem cli_dirs_are_batches:
  assumes "wm_ok st" and "wm_workers st \<noteq> []" and "view_ok E F"
    and "walked E root st st' bs" and "maxDepth (wm_conf st) = 0"
  shows "n_dirs (t_counts (fold (consume T pr) (map received_of bs) start_tally)) + 1 = of_nat (length bs)"
proof -
  obtain bs' where f: "forest (wm_conf st) F [spec_root (wm_conf st) F root] bs'" and m: "mset bs = mset bs'"
    using assms(4,1-3) by (rule walked_forest)
  have "length bs' = Suc (length (concat (map (\<lambda>b. filter IsDir (b_entries b)) bs')))"
    using arg_cong [OF forest_dirs [OF f assms(5)], of size] by (simp add: length_concat comp_def)
  then show ?thesis using tally_cong [OF m] mset_eq_length [OF m] by (simp add: n_dirs_sum consumed_counts)
qed

theorem cli_dirs_are_batches_witness:
  "\<exists>st st' bs. walked demo_env [116] st st' bs \<and>
     n_dirs (t_counts (fold (consume (\<lambda>_. []) False) (map received_of bs) start_tally)) + 1 = 2"
proof -
  obtain st st' bs where w: "wm_ok st" "wm_workers st \<noteq> []" "wm_conf st = demo_conf True 0"
    "walked demo_env [116] st st' bs" "mset bs = mset (demo_batches True)"
    by (rule demo_walked [of True])
  have "length bs = 2" using mset_eq_length [OF w(5)] by (simp add: demo_batches_def)
  then show ?thesis using cli_dirs_are_batches [OF w(1,2) demo_view_ok w(4), of "\<lambda>_. []" False] w(3,4) by auto
qed

lemma spec_entry_no_link:
  assumes "spec_entry c F a e = Ret (Some e', x, ch)"
    and "\<And>p info. fs_stat F p = Inr info \<Longrightarrow> fi_Sys info \<noteq> None \<and> fi_Mode info AND ModeSymlink = 0"
  shows "etyp e' \<noteq> dtLnk"
  using assms(1)
  by (auto simp: spec_entry_def spec_link_def dTypeFromInfo_def dt_defs Let_def dest: assms(2)
      split: if_splits list.splits sum.splits option.splits)

lemma spec_task_no_link:
  assumes "spec_task c F a = Ret (b, kids)" and "followLinks c" and "e \<in> set (b_entries b)"
    and "\<And>p info. fs_stat F p = Inr info \<Longrightarrow> fi_Sys info \<noteq> None \<and> fi_Mode info AND ModeSymlink = 0"
  shows "etyp e \<noteq> dtLnk"
proof -
  obtain ds er where fs: "fs_list F (cstr (path a)) = (ds, er)" by fastforce
  have "er = None" using assms(1-3) fs by (cases er) (auto simp: spec_task_def spec_visitSym_def failed_def)
  then obtain fates' where f: "fates c F a (listed c (path a) ds) = Ret fates'" and "e \<in> set (kept fates')"
    using assms(1-3) fs by (auto simp: spec_task_def spec_visitSym_def)
  then obtain e0 r where "(e0, Some e, r) \<in> set fates'" by (auto simp: fate_sets)
  then show ?thesis using fates_Ret(2) [OF f] spec_entry_no_link assms(4) by (cases r) blast
qed

lemma forest_no_links:
  assumes "forest c F as bs" and "followLinks c"
    and "\<And>p info. fs_stat F p = Inr info \<Longrightarrow> fi_Sys info \<noteq> None \<and> fi_Mode info AND ModeSymlink = 0"
  shows "n_links (sum_list (map tally_of bs)) = 0"
  using assms(1)
proof (induction rule: forest.induct)
  case (tree a b as bs rest bs')
  have "filter (\<lambda>e. etyp e = dtLnk) (b_entries b) = []"
    using spec_task_no_link [OF tree.hyps(1) assms(2) _ assms(3)] by (simp add: filter_empty_conv)
  then show ?case using tree.IH by (simp add: tally_of_def)
qed simp

text \<open>
  C30. With \<open>--follow-links\<close> the tool counts no symlink: when \<open>stat\<close> resolves links (its mode
  never says symlink) and gives device and inode, every link of the tree is shown as what it
  leads to or reported as an error, so the link counter of a walk that is over is 0.
\<close>

theorem follow_links_counts_no_links:
  assumes "wm_ok st" and "wm_workers st \<noteq> []" and "view_ok E F"
    and "walked E root st st' bs" and "followLinks (wm_conf st)"
    and "\<And>p info. os_Stat E p = Inr info \<Longrightarrow> fi_Sys info \<noteq> None \<and> fi_Mode info AND ModeSymlink = 0"
  shows "n_links (t_counts (fold (consume T pr) (map received_of bs) start_tally)) = 0"
proof -
  obtain bs' where f: "forest (wm_conf st) F [spec_root (wm_conf st) F root] bs'" and m: "mset bs = mset bs'"
    using assms(4,1-3) by (rule walked_forest)
  have "fs_stat F = os_Stat E" using assms(3) by (simp add: view_ok_def)
  then show ?thesis using forest_no_links [OF f assms(5)] assms(6) tally_cong [OF m] by (simp add: consumed_counts)
qed

theorem follow_links_counts_no_links_witness:
  "\<exists>st st' bs. walked demo_env [116] st st' bs \<and> mset bs = mset (demo_batches True) \<and>
     n_links (t_counts (fold (consume (\<lambda>_. []) False) (map received_of bs) start_tally)) = 0"
proof -
  obtain st st' bs where w: "wm_ok st" "wm_workers st \<noteq> []" "wm_conf st = demo_conf True 0"
    "walked demo_env [116] st st' bs" "mset bs = mset (demo_batches True)"
    by (rule demo_walked [of True])
  have "fi_Sys info \<noteq> None \<and> fi_Mode info AND ModeSymlink = 0" if "os_Stat demo_env p = Inr info" for p info
    using that by (auto simp: os_Stat_def demo_env_def demo_info_def mode_defs split: if_splits)
  note res = follow_links_counts_no_links [OF w(1,2) demo_view_ok w(4) _ this, where T = "\<lambda>_. []" and pr = False]
  have "n_links (t_counts (fold (consume (\<lambda>_. []) False) (map received_of bs) start_tally)) = 0" by (rule res) (simp_all add: w(3))
  then show ?thesis using w by blast
qed

section \<open>Flags\<close>

fun joined :: "gostring list \<Rightarrow> gostring" where
  "joined [] = []"
| "joined [w] = w"
| "joined (w # ws) = w @ comma # joined ws"

lemma Split_no_sep: "sep \<notin> set w \<Longrightarrow> Split sep w = [w]"
  by (induction w) auto

lemma Split_sep: "sep \<notin> set w \<Longrightarrow> Split sep (w @ sep # bs) = w # Split sep bs"
  by (induction w) auto

lemma Split_joined: "ws \<noteq> [] \<Longrightarrow> \<forall>w \<in> set ws. comma \<notin> set w \<Longrightarrow> Split comma (joined ws) = ws"
  by (induction ws rule: joined.induct) (auto simp: Split_no_sep Split_sep)

lemma joined_Nil_iff: "joined ws = [] \<longleftrightarrow> ws = [] \<or> ws = [[]]"
  by (cases ws rule: joined.cases) auto

lemma cli_pool_size: "PoolSize (cli_pool gomaxprocs fl) = (if fl_workers fl > 0 then fl_workers fl else gomaxprocs)"
  by (simp add: cli_pool_def DefaultPoolConfig_def Let_def)

lemma cli_walker_ok:
  assumes "pool_fits (cli_pool gomaxprocs fl)"
  shows "\<exists>st. cli_walker gomaxprocs fl = Ret st \<and> wm_ok st \<and>
     wm_conf st = \<lparr>followLinks = fl_followLinks fl, maxDepth = ucast (fl_maxDepth fl), skipSet = set (cli_skip fl)\<rparr> \<and>
     length (wm_workers st) = nat (if fl_workers fl > 0 then fl_workers fl else gomaxprocs)"
  using NewWalkmanWithConfig_ok [OF assms] unfolding cli_walker_def cli_pool_size by blast

text \<open>\<open>make([]workerState, pc.PoolSize)\<close> is the only thing that can fail before the walk runs.\<close>

lemma cli_starts:
  "if pool_fits (cli_pool gomaxprocs fl)
   then \<exists>it st. obind (cli_walker gomaxprocs fl) (Walk E (cli_root fl)) = Ret (it, st)
   else obind (cli_walker gomaxprocs fl) (Walk E (cli_root fl)) = Panic MakeSliceLen"
proof (cases "pool_fits (cli_pool gomaxprocs fl)")
  case True
  then obtain st where "cli_walker gomaxprocs fl = Ret st" "wm_ok st" using cli_walker_ok by blast
  then show ?thesis using True Walk_starts [of st E "cli_root fl"] by simp
next
  case False
  then show ?thesis by (simp add: cli_walker_def NewWalkmanWithConfig_def Let_def)
qed

text \<open>
  C31. Round trip of \<open>--skip\<close>: when the pool size is one \<open>make\<close> accepts, for names without a comma, joined by commas, the walker's skip set
  is exactly the set of the names, unless there is nothing to join. (The exception: the empty
  flag means no name at all, not the empty name.)
\<close>

theorem cli_skip_roundtrip:
  assumes "pool_fits (cli_pool gomaxprocs fl)" and "names \<noteq> []" and "names \<noteq> [[]]" and "\<forall>w \<in> set names. comma \<notin> set w"
  shows "\<exists>st. cli_walker gomaxprocs (fl\<lparr>fl_skip := joined names\<rparr>) = Ret st \<and>
           wm_ok st \<and> skipSet (wm_conf st) = set names"
proof -
  let ?fl = "fl\<lparr>fl_skip := joined names\<rparr>"
  have "fl_workers ?fl = fl_workers fl" by simp
  then have fits: "pool_fits (cli_pool gomaxprocs ?fl)"
    using assms(1) unfolding pool_fits_iff cli_pool_size by (auto split: if_splits)
  have "cli_skip ?fl = names"
    using Split_joined [OF assms(2,4)] joined_Nil_iff [of names] assms(2,3) by (simp add: cli_skip_def)
  then show ?thesis using cli_walker_ok [OF fits] by auto
qed

theorem cli_skip_roundtrip_witness:
  "\<exists>st. cli_walker 8 (defaultFlags\<lparr>fl_skip := [46, 103, 44, 97]\<rparr>) = Ret st \<and>
     skipSet (wm_conf st) = {[46, 103], [97]}"
  using cli_skip_roundtrip [of 8 defaultFlags "[[46, 103], [97]]"] by (auto simp: comma_def pool_fits_iff cli_pool_size defaultFlags_def)

text \<open>
  C32. \<open>--max-depth\<close> is cut to 32 bits: with a pool size \<open>make\<close> accepts, the walker's limit is the flag modulo \<open>2 ^ 32\<close>, so the
  tool walks without any limit exactly for the multiples of \<open>2 ^ 32\<close> (not only 0, as the help
  text says) and for one less than a multiple.
\<close>

theorem cli_max_depth_truncates:
  assumes "pool_fits (cli_pool gomaxprocs fl)"
  shows "\<exists>st. cli_walker gomaxprocs fl = Ret st \<and>
           unat (maxDepth (wm_conf st)) = unat (fl_maxDepth fl) mod 2 ^ 32 \<and>
           ((\<forall>item. \<not> at_max_depth st item) \<longleftrightarrow> unat (fl_maxDepth fl) mod 2 ^ 32 \<in> {0, 2 ^ 32 - 1})"
proof -
  obtain st where st: "cli_walker gomaxprocs fl = Ret st" "maxDepth (wm_conf st) = ucast (fl_maxDepth fl)"
    using cli_walker_ok [OF assms] by auto
  have u: "unat (maxDepth (wm_conf st)) = unat (fl_maxDepth fl) mod 2 ^ 32"
    by (simp add: st(2) unsigned_ucast_eq take_bit_eq_mod)
  have "(\<forall>item. \<not> at_max_depth st item) \<longleftrightarrow>
      (\<forall>d. \<not> (maxDepth (wm_conf st) \<noteq> 0 \<and> d + 1 > maxDepth (wm_conf st)))"
    unfolding at_max_depth_def by (metis walkItem.select_convs(2))
  also have "\<dots> \<longleftrightarrow> unat (maxDepth (wm_conf st)) = 0 \<or> unat (maxDepth (wm_conf st)) = unat (- 1 :: u32)"
    unfolding depth_never_iff by (simp add: word_unat_eq_iff)
  also have "unat (- 1 :: u32) = 2 ^ 32 - 1" by (simp add: unsigned_minus_1_eq_mask mask_eq_exp_minus_1)
  finally show ?thesis using st(1) u by auto
qed

theorem cli_max_depth_truncates_witness:
  "\<exists>st. cli_walker 8 (defaultFlags\<lparr>fl_maxDepth := 0x300000000\<rparr>) = Ret st \<and> (\<forall>item. \<not> at_max_depth st item)"
  using cli_max_depth_truncates [of 8 "defaultFlags\<lparr>fl_maxDepth := 0x300000000\<rparr>"]
  by (auto simp: pool_fits_iff cli_pool_size defaultFlags_def)


section \<open>The summary line\<close>

definition is_digit :: "byte \<Rightarrow> bool" where
  "is_digit b \<longleftrightarrow> 48 \<le> unat b \<and> unat b < 58"

definition undec :: "gostring \<Rightarrow> nat" where
  "undec bs = foldl (\<lambda>n b. 10 * n + (unat b - 48)) 0 bs"

lemma unat_digit: "k < 10 \<Longrightarrow> unat (48 + of_nat k :: byte) = 48 + k"
  using unsigned_of_nat [of "48 + k", where 'b = 8 and 'a = nat] by (simp add: take_bit_eq_mod)

lemma dec_digits: "\<forall>b \<in> set (dec n). is_digit b"
  by (induction n rule: dec.induct) (subst dec.simps, auto simp: is_digit_def unat_digit)

lemma undec_dec: "undec (dec n) = n"
proof (induction n rule: dec.induct)
  case (1 n)
  show ?case
  proof (cases "n < 10")
    case True
    then show ?thesis by (subst dec.simps) (simp add: undec_def unat_digit)
  next
    case False
    then show ?thesis using 1 by (subst dec.simps) (simp add: undec_def unat_digit)
  qed
qed

text \<open>A number followed by something that is no digit can be read back.\<close>

lemma dec_append_inj:
  assumes "dec m @ x = dec n @ y" and "x \<noteq> []" "\<not> is_digit (hd x)" and "y \<noteq> []" "\<not> is_digit (hd y)"
  shows "m = n \<and> x = y"
proof -
  have take: "takeWhile is_digit (dec k @ z) = dec k" if "z \<noteq> []" "\<not> is_digit (hd z)" for k z
    using that dec_digits [of k] by (cases z) (simp_all add: takeWhile_append)
  have "dec m = dec n" using take [of x m] take [of y n] assms by simp
  then show ?thesis using assms(1) undec_dec by (metis append_same_eq same_append_eq)
qed

lemma dec_word_inj:
  assumes "dec (unat (a :: u32)) @ bytes (CHR '' '' # s) @ x = dec (unat b) @ bytes (CHR '' '' # s) @ y"
  shows "a = b \<and> x = y"
proof -
  have nd: "bytes (CHR '' '' # s) @ z \<noteq> []" "\<not> is_digit (hd (bytes (CHR '' '' # s) @ z))" for z
    by (simp_all add: bytes_def is_digit_def)
  show ?thesis using dec_append_inj [OF assms nd nd] by (simp add: word_unat_eq_iff)
qed

text \<open>
  The summary line says everything: two runs print the same line exactly when all four
  counters are the same, so a script that compares or parses the line compares the counters.
\<close>

lemma summary_line_injective: "summary_line c = summary_line c' \<longleftrightarrow> c = c'"
proof
  assume eq: "summary_line c = summary_line c'"
  obtain f d l e where c: "c = Counts f d l e" by (cases c)
  obtain f' d' l' e' where c': "c' = Counts f' d' l' e'" by (cases c')
  have 1: "f = f' \<and> dec (unat d) @ bytes '' links='' @ dec (unat l) @ bytes '' errors='' @ dec (unat e) @ [10] =
      dec (unat d') @ bytes '' links='' @ dec (unat l') @ bytes '' errors='' @ dec (unat e') @ [10]"
    using eq by (intro dec_word_inj [where s = "''dirs=''"]) (simp add: c c' summary_line_def)
  then have 2: "d = d' \<and> dec (unat l) @ bytes '' errors='' @ dec (unat e) @ [10] =
      dec (unat l') @ bytes '' errors='' @ dec (unat e') @ [10]"
    by (intro dec_word_inj [where s = "''links=''"]) simp
  then have 3: "l = l' \<and> dec (unat e) @ [10] = dec (unat e') @ [10]"
    by (intro dec_word_inj [where s = "''errors=''"]) simp
  then have "e = e'" using dec_append_inj [of "unat e" "[10]" "unat e'" "[10]"]
    by (simp add: is_digit_def word_unat_eq_iff)
  then show "c = c'" using 1 2 3 c c' by simp
qed simp

end
