(* ===== verification/Cli_Bench.thy ===== *)
theory Cli_Bench
  imports Cli_Props
begin

text \<open>
  The bench loop and \<open>main\<close>: the statistics of a bench are those of the measured times, and
  every way a process can end.
\<close>

section \<open>Runs\<close>

text \<open>The counters of a run do not depend on the output so far.\<close>

definition received_counts :: "received \<Rightarrow> counts" where
  "received_counts r = t_counts (consume (\<lambda>_. []) False r start_tally)"

lemma consume_counts: "t_counts (consume T pr r s) = t_counts s + received_counts r"
  by (cases "rc_entries r")
    (simp_all add: received_counts_def consume_def consume_errs_eq consume_entries_eq start_tally_def add.assoc)

definition run_counts :: "one_run \<Rightarrow> counts" where
  "run_counts r = sum_list (map received_counts (or_batches r))"

lemma fold_consume_counts:
  "t_counts (fold (consume T pr) rs s) = t_counts s + sum_list (map received_counts rs)"
  by (induction rs arbitrary: s) (simp_all add: consume_counts add.assoc)

text \<open>A run that neither ends in a panic nor in an error of \<open>Wait\<close>.\<close>

definition went_well :: "one_run \<Rightarrow> bool" where
  "went_well r \<longleftrightarrow> or_crash r = None \<and> or_wait r = None"

lemma consume_walk_cases:
  "if went_well r then \<exists>io'. consume_walk T fl r io = Done (run_counts r, or_elapsed r) io'
   else case or_crash r of
      Some p \<Rightarrow> \<exists>io'. consume_walk T fl r io = Crash p io'
    | None \<Rightarrow> \<exists>io'. consume_walk T fl r io = Exit 1 io'"
  by (auto simp: went_well_def consume_walk_def Let_def fold_consume_counts run_counts_def split: option.split)

text \<open>From here on the pool size is one \<open>make\<close> accepts, so every run starts.\<close>

lemma runOnce_starts:
  "pool_fits (cli_pool gomaxprocs fl) \<Longrightarrow> runOnce T gomaxprocs E fl r io = consume_walk T fl r io"
  using cli_starts [of gomaxprocs fl E] by (auto simp: runOnce_def)

lemma runOnce_refused:
  "\<not> pool_fits (cli_pool gomaxprocs fl) \<Longrightarrow> runOnce T gomaxprocs E fl r io = Crash MakeSliceLen io"
  using cli_starts [of gomaxprocs fl E] by (simp add: runOnce_def)

lemma runOnce_ok:
  "pool_fits (cli_pool gomaxprocs fl) \<Longrightarrow> went_well r \<Longrightarrow>
     \<exists>io'. runOnce T gomaxprocs E fl r io = Done (run_counts r, or_elapsed r) io'"
  using consume_walk_cases [of r T fl io] by (simp add: runOnce_starts)

lemma bench_loop_ok:
  assumes "pool_fits (cli_pool gomaxprocs fl)" and "\<forall>j \<in> set js. went_well (runs j)"
  shows "\<exists>io'. bench_loop T gomaxprocs E fl runs js b io =
     Done (fold bench_step (map (\<lambda>j. (run_counts (runs j), or_elapsed (runs j))) js) b) io'"
  using assms(2)
proof (induction js arbitrary: b io)
  case (Cons j js)
  obtain io1 where "runOnce T gomaxprocs E fl (runs j) io = Done (run_counts (runs j), or_elapsed (runs j)) io1"
    using runOnce_ok [OF assms(1)] Cons.prems by (metis list.set_intros(1))
  then show ?case using Cons by simp
qed simp

text \<open>The first run that does not go well ends the process.\<close>

lemma bench_loop_app:
  "bench_loop T gomaxprocs E fl runs (js @ js') b io =
     rbind (bench_loop T gomaxprocs E fl runs js b io) (\<lambda>b io. bench_loop T gomaxprocs E fl runs js' b io)"
proof (induction js arbitrary: b io)
  case (Cons j js)
  then show ?case by (cases "runOnce T gomaxprocs E fl (runs j) io") simp_all
qed simp

lemma bench_loop_fail:
  assumes fits: "pool_fits (cli_pool gomaxprocs fl)" and j: "j < n" and bad: "\<not> went_well (runs j)"
    and before: "\<forall>k < j. went_well (runs k)"
  shows "case or_crash (runs j) of
      Some p \<Rightarrow> \<exists>io'. bench_loop T gomaxprocs E fl runs [0..<n] b io = Crash p io'
    | None \<Rightarrow> \<exists>io'. bench_loop T gomaxprocs E fl runs [0..<n] b io = Exit 1 io'"
proof -
  have n: "[0..<n] = [0..<j] @ j # [Suc j..<n]" by (rule upt_split) (use j in auto)
  obtain b1 io1 where "bench_loop T gomaxprocs E fl runs [0..<j] b io = Done b1 io1"
    using bench_loop_ok [OF fits, where js = "[0..<j]" and runs = runs and T = T and E = E and b = b and io = io] before
    by auto
  then have loop: "bench_loop T gomaxprocs E fl runs [0..<n] b io =
      rbind (consume_walk T fl (runs j) io1) (\<lambda>r io. bench_loop T gomaxprocs E fl runs [Suc j..<n] (bench_step r b1) io)"
    by (simp add: n bench_loop_app runOnce_starts [OF fits])
  show ?thesis
  proof (cases "or_crash (runs j)")
    case None
    then obtain io' where "consume_walk T fl (runs j) io1 = Exit 1 io'"
      using consume_walk_cases [of "runs j" T fl io1] bad by auto
    then show ?thesis using None loop by simp
  next
    case (Some p)
    then obtain io' where "consume_walk T fl (runs j) io1 = Crash p io'"
      using consume_walk_cases [of "runs j" T fl io1] bad by auto
    then show ?thesis using Some loop by simp
  qed
qed

section \<open>The statistics\<close>

lemma sint_add_small:
  "0 \<le> sint x \<Longrightarrow> 0 \<le> sint y \<Longrightarrow> sint x + sint y < 2 ^ 63 \<Longrightarrow> sint (x + y :: u64) = sint x + sint y"
  by (simp add: sint_word_ariths signed_take_bit_int_eq_self_iff)

lemma bench_step_sel:
  "bn_last (bench_step (c, t) b) = c" "bn_total (bench_step (c, t) b) = bn_total b + t"
  "sint (bn_min (bench_step (c, t) b)) = min (sint t) (sint (bn_min b))"
  "sint (bn_max (bench_step (c, t) b)) = max (sint t) (sint (bn_max b))"
  by (simp_all add: bench_step_def Let_def)

lemma bench_fold:
  assumes "\<forall>t \<in> set (map (\<lambda>r. sint (snd r)) rs). 0 \<le> t" and "sum_list (map (\<lambda>r. sint (snd r)) rs) < 2 ^ 63"
    and "rs \<noteq> []"
  shows "bn_last (fold bench_step rs bench_start) = fst (last rs) \<and>
     sint (bn_total (fold bench_step rs bench_start)) = sum_list (map (\<lambda>r. sint (snd r)) rs) \<and>
     sint (bn_min (fold bench_step rs bench_start)) = Min (set (map (\<lambda>r. sint (snd r)) rs)) \<and>
     sint (bn_max (fold bench_step rs bench_start)) = Max (set (map (\<lambda>r. sint (snd r)) rs))"
  using assms
proof (induction rs rule: rev_induct)
  case (snoc r rs)
  obtain c t where r: "r = (c, t)" by (cases r)
  have t: "0 \<le> sint t" "sint t \<le> 2 ^ 63 - 1" using snoc.prems(1) r sint_lt [of t] by auto
  have top: "sint (2 ^ 63 - 1 :: u64) = 2 ^ 63 - 1" by simp
  show ?case
  proof (cases "rs = []")
    case True
    then show ?thesis using t top by (simp add: r bench_step_sel bench_start_def)
  next
    case False
    have nn: "0 \<le> sum_list (map (\<lambda>r. sint (snd r)) rs)" using snoc.prems(1) by (intro sum_list_nonneg) auto
    have "sum_list (map (\<lambda>r. sint (snd r)) rs) < 2 ^ 63" using snoc.prems(2) t r by simp
    then have ih: "sint (bn_total (fold bench_step rs bench_start)) = sum_list (map (\<lambda>r. sint (snd r)) rs)"
      "sint (bn_min (fold bench_step rs bench_start)) = Min (set (map (\<lambda>r. sint (snd r)) rs))"
      "sint (bn_max (fold bench_step rs bench_start)) = Max (set (map (\<lambda>r. sint (snd r)) rs))"
      using snoc False by simp_all
    have tot: "sint (bn_total (fold bench_step rs bench_start) + t) = sum_list (map (\<lambda>r. sint (snd r)) rs) + sint t"
      using sint_add_small [of "bn_total (fold bench_step rs bench_start)" t] ih(1) nn t snoc.prems(2) r by simp
    have "Min (set (map (\<lambda>r. sint (snd r)) (rs @ [r]))) = min (sint t) (Min (set (map (\<lambda>r. sint (snd r)) rs)))"
      "Max (set (map (\<lambda>r. sint (snd r)) (rs @ [r]))) = max (sint t) (Max (set (map (\<lambda>r. sint (snd r)) rs)))"
      using False by (simp_all add: r)
    then show ?thesis using tot ih by (simp add: r bench_step_sel)
  qed
qed simp

lemma mean_bounds:
  assumes "\<forall>t \<in> set ts. a \<le> t \<and> t \<le> (b :: int)" and "ts \<noteq> []"
  shows "a \<le> sum_list ts div int (length ts) \<and> sum_list ts div int (length ts) \<le> b"
proof -
  have "a * int (length ts) \<le> sum_list ts \<and> sum_list ts \<le> b * int (length ts)"
    using assms(1) by (induction ts) (auto simp: algebra_simps)
  moreover have "0 < int (length ts)" using assms(2) by simp
  ultimately show ?thesis
    using zdiv_mono1 [of "a * int (length ts)" "sum_list ts" "int (length ts)"]
      zdiv_mono1 [of "sum_list ts" "b * int (length ts)" "int (length ts)"] by simp
qed

lemma bench_avg_eq:
  assumes "0 < n" and "0 \<le> sint (bn_total b)"
  shows "sint (bench_avg n b) = sint (bn_total b) div n"
proof -
  have "0 \<le> sint (bn_total b) div n" using assms by (simp add: pos_imp_zdiv_nonneg_iff)
  moreover have "sint (bn_total b) div n \<le> sint (bn_total b)"
    using assms div_le_dividend [of "nat (sint (bn_total b))" "nat n"]
    by (simp add: nat_div_distrib [symmetric] nat_le_eq_zle del: div_le_dividend)
  moreover have "sint (bn_total b) < 2 ^ 63" using sint_lt [of "bn_total b"] by simp
  moreover have "sint (bn_total b) sdiv n = sint (bn_total b) div n"
    using assms by (auto simp: signed_divide_int_def sgn_if)
  ultimately show ?thesis
    by (simp add: bench_avg_def sint_sbintrunc' signed_take_bit_int_eq_self_iff)
qed


definition times :: "(nat \<Rightarrow> one_run) \<Rightarrow> nat \<Rightarrow> int list" where
  "times runs n = map (\<lambda>j. sint (or_elapsed (runs j))) [0..<n]"

lemma bench_loop_stats:
  assumes "0 < n" and "pool_fits (cli_pool gomaxprocs fl)" and "\<forall>j < n. went_well (runs j)"
    and "\<forall>t \<in> set (times runs n). 0 \<le> t" and "sum_list (times runs n) < 2 ^ 63"
  shows "\<exists>b io. bench_loop T gomaxprocs E fl runs [0..<n] bench_start ([], []) = Done b io \<and>
     bn_last b = run_counts (runs (n - 1)) \<and> sint (bn_total b) = sum_list (times runs n) \<and>
     sint (bn_min b) = Min (set (times runs n)) \<and> sint (bn_max b) = Max (set (times runs n))"
proof -
  let ?rs = "map (\<lambda>j. (run_counts (runs j), or_elapsed (runs j))) [0..<n]"
  have ts: "times runs n = map (\<lambda>r. sint (snd r)) ?rs" by (simp add: times_def)
  have "fst (last ?rs) = run_counts (runs (n - 1))" using assms(1) by (simp add: last_map)
  then show ?thesis
    using bench_loop_ok [OF assms(2), of "[0..<n]" runs T E bench_start "([], [])"] bench_fold [of ?rs] assms
    unfolding ts by auto
qed

lemma bench_fits_iff: "make_fits 8 n \<longleftrightarrow> 0 \<le> n \<and> n \<le> 2 ^ 45"
  by (auto simp: make_fits_def maxAlloc_def)

text \<open>
  C27. The bench report is right: for \<open>n > 0\<close> successful runs (so many that \<open>make\<close> accepts the
  capacity, of a walker that can be built) whose times are not negative and add up to less
  than \<open>2 ^ 63\<close> nanoseconds, the tool prints the counters of the last run and the smallest, the
  largest and the mean time, rounded down, which lies between the two.
\<close>

theorem bench_statistics:
  assumes "0 < sint (fl_bench fl)" and "n = nat (sint (fl_bench fl))" and "n \<le> 2 ^ 45"
    and "pool_fits (cli_pool gomaxprocs fl)" and "\<forall>j < n. went_well (runs j)"
    and "\<forall>t \<in> set (times runs n). 0 \<le> t" and "sum_list (times runs n) < 2 ^ 63"
  shows "\<exists>b out er. main T D gomaxprocs E fl runs =
       Done () (out @ (if fl_quiet fl then [] else summary_line (run_counts (runs (n - 1)))) @
                bench_line D (int n) b, er) \<and>
     sint (bn_min b) = Min (set (times runs n)) \<and> sint (bn_max b) = Max (set (times runs n)) \<and>
     sint (bench_avg (int n) b) = sum_list (times runs n) div int n \<and>
     sint (bn_min b) \<le> sint (bench_avg (int n) b) \<and> sint (bench_avg (int n) b) \<le> sint (bn_max b)"
proof -
  have n: "0 < n" "int n = sint (fl_bench fl)" using assms(1,2) by simp_all
  obtain b out er where loop: "bench_loop T gomaxprocs E fl runs [0..<n] bench_start ([], []) = Done b (out, er)"
    and b: "bn_last b = run_counts (runs (n - 1))" "sint (bn_total b) = sum_list (times runs n)"
      "sint (bn_min b) = Min (set (times runs n))" "sint (bn_max b) = Max (set (times runs n))"
    using bench_loop_stats [OF n(1) assms(4-7)] by (metis surj_pair)
  have len: "length (times runs n) = n" "times runs n \<noteq> []" using n(1) by (simp_all add: times_def)
  have avg: "sint (bench_avg (int n) b) = sum_list (times runs n) div int n"
    using n(1) b(2) assms(6) by (subst bench_avg_eq) (auto intro: sum_list_nonneg)
  have "make_fits 8 (int n)" using assms(3) by (simp add: bench_fits_iff)
  moreover have "fl_bench fl > 0" using assms(1) by (metis less_irrefl signed_0 word_gt_0)
  ultimately have "main T D gomaxprocs E fl runs =
      Done () (out @ (if fl_quiet fl then [] else summary_line (bn_last b)) @ bench_line D (int n) b, er)"
    using loop by (simp add: main_def main_bench_def n(2) [symmetric] Let_def)
  then show ?thesis
    using b avg mean_bounds [of "times runs n" "sint (bn_min b)" "sint (bn_max b)"] len by auto
qed

theorem bench_statistics_witness:
  "\<exists>b out er. main (\<lambda>_. []) (\<lambda>_. []) 8 demo_env
     (defaultFlags\<lparr>fl_bench := 2, fl_quiet := True\<rparr>)
     (\<lambda>j. \<lparr>or_batches = [], or_crash = None, or_wait = None, or_elapsed = (if j = 0 then 5 else 8)\<rparr>) =
       Done () (out @ bench_line (\<lambda>_. []) 2 b, er) \<and> sint (bench_avg 2 b) = 6"
proof -
  let ?runs = "\<lambda>j. \<lparr>or_batches = [], or_crash = None, or_wait = None, or_elapsed = (if j = 0 then 5 else 8)\<rparr> :: one_run"
  let ?fl = "defaultFlags\<lparr>fl_bench := 2, fl_quiet := True\<rparr>"
  have t: "times ?runs 2 = [5, 8]" by (simp add: times_def upt_rec)
  have "0 < sint (fl_bench ?fl)" "2 = nat (sint (fl_bench ?fl))" "(2::nat) \<le> 2 ^ 45"
    "pool_fits (cli_pool 8 ?fl)" "\<forall>j < 2. went_well (?runs j)"
    "\<forall>t \<in> set (times ?runs 2). 0 \<le> t" "sum_list (times ?runs 2) < 2 ^ 63"
    by (simp_all add: t went_well_def pool_fits_iff cli_pool_size defaultFlags_def)
  from bench_statistics [OF this, of "\<lambda>_. []" "\<lambda>_. []" demo_env] show ?thesis
    unfolding t by simp blast
qed

section \<open>How a process ends\<close>

lemma sint_neg_iff: "sint (w :: u64) < 0 \<longleftrightarrow> 2 ^ 63 \<le> unat w"
proof -
  have int63: "2 ^ 63 \<le> int n \<longleftrightarrow> 2 ^ 63 \<le> n" for n by auto
  have "sint w < 0 \<longleftrightarrow> odd (uint w div 2 ^ 63)" by (simp add: sint_uint bit_iff_odd)
  also have "\<dots> \<longleftrightarrow> 2 ^ 63 \<le> uint w"
  proof (cases "uint w < 2 ^ 63")
    case False
    have "uint w < 2 ^ 64" using uint_lt2p [of w] by simp
    then have "uint w div 2 ^ 63 = 1" using False by (simp add: div_pos_geq div_pos_pos_trivial)
    then show ?thesis using False by simp
  qed (simp add: div_pos_pos_trivial)
  also have "\<dots> \<longleftrightarrow> 2 ^ 63 \<le> unat w" using int63 unfolding uint_nat .
  finally show ?thesis .
qed

definition rounds :: "flags \<Rightarrow> nat" where
  "rounds fl = (if fl_bench fl > 0 then nat (sint (fl_bench fl)) else 1)"

text \<open>\<open>make\<close> accepts the capacity up to \<open>2 ^ 45\<close>; larger flags are refused, also as negative \<open>int\<close>s.\<close>

lemma sint_small: "unat (w :: u64) < 2 ^ 63 \<Longrightarrow> sint w = int (unat w)"
proof -
  assume small: "unat w < 2 ^ 63"
  have "uint w < 2 ^ 63" unfolding uint_nat using small by (metis of_nat_less_iff of_nat_numeral of_nat_power)
  moreover have "- (2 ^ 63) \<le> uint w" by (rule order_trans [of _ 0]) simp_all
  ultimately have "sint w = uint w" unfolding sint_uint by (intro signed_take_bit_int_eq_self) simp_all
  then show ?thesis by (simp only: uint_nat)
qed

lemma bench_flag_fits: "make_fits 8 (sint (w :: u64)) \<longleftrightarrow> unat w \<le> 2 ^ 45"
proof (cases "unat w < 2 ^ 63")
  case False
  then show ?thesis using sint_neg_iff [of w] by (simp add: bench_fits_iff)
next
  case True
  have "int (unat w) \<le> 2 ^ 45 \<longleftrightarrow> unat w \<le> 2 ^ 45" by (metis of_nat_le_iff of_nat_numeral of_nat_power)
  then show ?thesis using sint_small [OF True] by (simp add: bench_fits_iff)
qed

text \<open>The first index at which something holds.\<close>

lemma first_bad: "\<not> (\<forall>j < n. P j) \<Longrightarrow> \<exists>j < (n::nat). \<not> P j \<and> (\<forall>k < j. P k)"
  by (induction n) (auto simp: less_Suc_eq)

lemma bench_loop_cases:
  assumes fits: "pool_fits (cli_pool gomaxprocs fl)"
  shows "case bench_loop T gomaxprocs E fl runs [0..<n] b io of
      Done _ _ \<Rightarrow> \<forall>j < n. went_well (runs j)
    | Exit status _ \<Rightarrow> status = 1 \<and>
        (\<exists>j < n. (\<forall>k < j. went_well (runs k)) \<and> or_crash (runs j) = None \<and> or_wait (runs j) \<noteq> None)
    | Crash p _ \<Rightarrow> \<exists>j < n. (\<forall>k < j. went_well (runs k)) \<and> or_crash (runs j) = Some p
    | Hang _ \<Rightarrow> False"
proof (cases "\<forall>j < n. went_well (runs j)")
  case True
  then obtain io' where "bench_loop T gomaxprocs E fl runs [0..<n] b io =
      Done (fold bench_step (map (\<lambda>j. (run_counts (runs j), or_elapsed (runs j))) [0..<n]) b) io'"
    using bench_loop_ok [OF fits, where js = "[0..<n]" and runs = runs and T = T and E = E and b = b and io = io]
    by auto
  then show ?thesis using True by simp
next
  case False
  from first_bad [OF this] obtain j where j: "j < n" "\<not> went_well (runs j)" "\<forall>k < j. went_well (runs k)" by blast
  note bad = bench_loop_fail [OF fits j, of T E b io]
  show ?thesis
  proof (cases "or_crash (runs j)")
    case None
    then obtain io' where "bench_loop T gomaxprocs E fl runs [0..<n] b io = Exit 1 io'" using bad by auto
    moreover have "or_wait (runs j) \<noteq> None" using None j(2) by (simp add: went_well_def)
    ultimately show ?thesis using None j by auto
  next
    case (Some p)
    then obtain io' where "bench_loop T gomaxprocs E fl runs [0..<n] b io = Crash p io'" using bad by auto
    then show ?thesis using Some j by auto
  qed
qed

text \<open>A single run ends like a bench of one.\<close>

lemma main_rounds:
  assumes "unat (fl_bench fl) \<le> 2 ^ 45"
  shows "0 < rounds fl \<and>
     (\<exists>k. main T D gomaxprocs E fl runs =
            rbind (bench_loop T gomaxprocs E fl runs [0..<rounds fl] bench_start ([], [])) k \<and>
          (\<forall>b io. \<exists>io'. k b io = Done () io'))"
proof (cases "fl_bench fl > 0")
  case True
  have "0 < unat (fl_bench fl)" using True by (simp add: word_gt_0 unat_gt_0)
  moreover have "sint (fl_bench fl) = int (unat (fl_bench fl))" by (rule sint_small) (use assms in simp)
  ultimately have pos: "0 < sint (fl_bench fl)" by (simp only: of_nat_0_less_iff)
  moreover have "make_fits 8 (sint (fl_bench fl))" using assms by (simp add: bench_flag_fits)
  ultimately show ?thesis
    using True unfolding main_def main_bench_def rounds_def Let_def
    by (simp add: case_prod_unfold) (rule exI, rule conjI, rule refl, simp)
next
  case False
  define k where "k = (\<lambda>(b :: bench) (out, er). if \<not> fl_quiet fl then
       Done () (out @ summary_line (bn_last b) @ bytes ''elapsed='' @ D (bn_total b) @ [10], er) else Done () (out, er))"
  have "main T D gomaxprocs E fl runs = rbind (bench_loop T gomaxprocs E fl runs [0..<1] bench_start ([], [])) k"
    using False
    by (cases "runOnce T gomaxprocs E fl (runs 0) ([], [])")
      (auto simp: main_def k_def bench_step_sel bench_start_def)
  moreover have "\<exists>io'. k b io = Done () io'" for b io by (cases io) (simp add: k_def)
  ultimately show ?thesis using False by (intro conjI exI [of _ k]) (simp_all add: rounds_def)
qed



end
