(* ===== verification/Cli_Whole.thy ===== *)
theory Cli_Whole
  imports Conc_Channel Cli_Bench
begin

text \<open>
  The tool from its flags to what it prints: the walker the flags ask for, the walk beside the
  consuming loop, and \<open>main\<close> on the batches that loop received.
\<close>

lemma consume_walk_received:
  "consume_walk T fl \<lparr>or_batches = map received_of bs, or_crash = None, or_wait = None, or_elapsed = t\<rparr> ([], []) =
     Done (sum_list (map tally_of bs), t)
       (if fl_print fl then concat (concat (map batch_lines bs)) else [],
        if fl_print fl then concat (concat (map (error_lines T) bs)) else [])"
  by (simp add: consume_walk_def consume_all_eq)

text \<open>
  C9. A single run prints the tree. For flags without \<open>--bench\<close>, on a machine with at least
  one processor, a pool size \<open>make\<close> accepts, and a file system whose walk, in the mode, to the depth and without the names
  the flags ask for, is the finite list \<open>bs\<close>: the tool builds a walker and starts the walk, and
  however workers and loop interleave, with whatever room in the channel, when the loop is
  over the received batches are \<open>bs\<close> in some order, and if \<open>Wait\<close> reports no error the process
  ends normally with exactly their lines (under \<open>--print\<close>), the sum of their counters and the
  elapsed time (unless \<open>--quiet\<close>) on standard output, and the lines of their errors (under
  \<open>--print\<close>) on standard error.
\<close>

theorem single_run_prints_tree:
  assumes "0 < gomaxprocs" and "view_ok E F" and "fl_bench fl = 0" and "pool_fits (cli_pool gomaxprocs fl)"
    and "c = \<lparr>followLinks = fl_followLinks fl, maxDepth = ucast (fl_maxDepth fl), skipSet = set (cli_skip fl)\<rparr>"
    and "forest c F [spec_root c F (cli_root fl)] bs"
  shows "\<exists>st it st0. cli_walker gomaxprocs fl = Ret st \<and> Walk E (cli_root fl) st = Ret (it, st0) \<and>
     (\<forall>x. (tool_step T (fl_print fl) cap E)\<^sup>*\<^sup>* (tool_start it st0) x \<and> tool_done x \<longrightarrow>
        (\<exists>abs. mset abs = mset bs \<and>
           tool_tally x = fold (consume T (fl_print fl)) (map received_of abs) start_tally \<and>
           (\<forall>t. main T D gomaxprocs E fl (\<lambda>_. \<lparr>or_batches = map received_of abs, or_crash = None, or_wait = None, or_elapsed = t\<rparr>) =
              Done ()
                ((if fl_print fl then concat (concat (map batch_lines abs)) else []) @
                 (if fl_quiet fl then []
                  else summary_line (sum_list (map tally_of bs)) @ bytes ''elapsed='' @ D t @ [10]),
                 if fl_print fl then concat (concat (map (error_lines T) abs)) else []))))"
proof -
  obtain st where st: "cli_walker gomaxprocs fl = Ret st" "wm_ok st" "wm_conf st = c"
    and n: "length (wm_workers st) = nat (if fl_workers fl > 0 then fl_workers fl else gomaxprocs)"
    using cli_walker_ok [OF assms(4)] assms(5) by auto
  have ne: "wm_workers st \<noteq> []" using n assms(1) by (auto split: if_splits)
  obtain it st0 where w: "Walk E (cli_root fl) st = Ret (it, st0)"
    and init: "tool_rel T (fl_print fl) cap c F bs (tool_start it st0) ((length bs, 0), 2 * length bs)"
    using tool_rel_Walk [OF st(2) ne assms(2), of "cli_root fl" bs T "fl_print fl" cap] assms(6) st(3) by metis
  have "\<exists>abs. mset abs = mset bs \<and>
       tool_tally x = fold (consume T (fl_print fl)) (map received_of abs) start_tally \<and>
       (\<forall>t. main T D gomaxprocs E fl (\<lambda>_. \<lparr>or_batches = map received_of abs, or_crash = None, or_wait = None, or_elapsed = t\<rparr>) =
          Done ()
            ((if fl_print fl then concat (concat (map batch_lines abs)) else []) @
             (if fl_quiet fl then []
              else summary_line (sum_list (map tally_of bs)) @ bytes ''elapsed='' @ D t @ [10]),
             if fl_print fl then concat (concat (map (error_lines T) abs)) else []))"
    if run: "(tool_step T (fl_print fl) cap E)\<^sup>*\<^sup>* (tool_start it st0) x" and over: "tool_done x" for x
  proof -
    obtain m where rel: "tool_rel T (fl_print fl) cap c F bs x m"
      using tool_rel_steps [OF run init assms(2)] by blast
    obtain abs where m: "mset abs = mset bs"
      and t: "tool_tally x = fold (consume T (fl_print fl)) (map received_of abs) start_tally"
      using tool_rel_over [OF rel over] by blast
    show ?thesis
      using m t tally_cong [OF m] assms(3)
      by (intro exI [of _ abs]) (simp add: main_def runOnce_starts [OF assms(4)] consume_walk_received)
  qed
  then show ?thesis using st(1) w by blast
qed

theorem single_run_prints_tree_witness:
  "\<exists>st it st0. cli_walker 2 (defaultFlags\<lparr>fl_followLinks := True, fl_args := [[116]]\<rparr>) = Ret st \<and>
     Walk demo_env [116] st = Ret (it, st0) \<and>
     (\<forall>x. (tool_step (\<lambda>_. []) False 256 demo_env)\<^sup>*\<^sup>* (tool_start it st0) x \<and> tool_done x \<longrightarrow>
        (\<exists>rs. main (\<lambda>_. []) (\<lambda>_. []) 2 demo_env (defaultFlags\<lparr>fl_followLinks := True, fl_args := [[116]]\<rparr>)
             (\<lambda>_. \<lparr>or_batches = rs, or_crash = None, or_wait = None, or_elapsed = 7\<rparr>) =
           Done () (bytes ''files=1 dirs=1 links=0 errors=1'' @ [10] @ bytes ''elapsed='' @ [10], [])))"
proof -
  let ?fl = "defaultFlags\<lparr>fl_followLinks := True, fl_args := [[116]]\<rparr>"
  have root: "cli_root ?fl = [116]" by (simp add: cli_root_def)
  have sum: "sum_list (map tally_of (demo_batches True)) = Counts 1 1 0 1"
    by (simp add: demo_batches_simps tally_of_def demo_entry_def IsDir_def dt_defs)
  have line: "summary_line (Counts 1 1 0 1) = bytes ''files=1 dirs=1 links=0 errors=1'' @ [10]"
    by (simp add: summary_line_def bytes_def dec.simps)
  have c: "demo_conf True 0 = \<lparr>followLinks = fl_followLinks ?fl, maxDepth = ucast (fl_maxDepth ?fl), skipSet = set (cli_skip ?fl)\<rparr>"
    by (simp add: demo_conf_def defaultFlags_def cli_skip_def)
  have "0 < (2::int)" and "fl_bench ?fl = 0" and "pool_fits (cli_pool 2 ?fl)" and "fl_print ?fl = False" and "fl_quiet ?fl = False"
    by (simp_all add: defaultFlags_def pool_fits_iff cli_pool_size)
  with single_run_prints_tree [OF _ demo_view_ok _ _ c, of 2 "demo_batches True" "\<lambda>_. []" 256 "\<lambda>_. []"]
  show ?thesis using demo_forest [of True] by (simp add: root sum line) blast
qed

section \<open>Every run of a process\<close>

text \<open>
  \<open>ran\<close>: the answer \<open>r\<close> is what a run of the tool gives. Some interleaving of workers and loop
  got to the end of the loop, or to the panic of a worker, and the counters and output are
  what reading the batches of \<open>r\<close> gives.
\<close>

definition ran :: "(errno \<Rightarrow> gostring) \<Rightarrow> nat \<Rightarrow> int \<Rightarrow> env \<Rightarrow> flags \<Rightarrow> one_run \<Rightarrow> bool" where
  "ran T cap gomaxprocs E fl r \<longleftrightarrow>
     (\<exists>it st x. obind (cli_walker gomaxprocs fl) (Walk E (cli_root fl)) = Ret (it, st) \<and>
        (tool_step T (fl_print fl) cap E)\<^sup>*\<^sup>* (tool_start it st) x \<and>
        tool_tally x = fold (consume T (fl_print fl)) (or_batches r) start_tally \<and>
        (case or_crash r of
           None \<Rightarrow> tool_done x
         | Some p \<Rightarrow> \<exists>k h s. x = Tool (PoolCrashed p) k h s))"

text \<open>What was printed before does not change what a batch adds.\<close>

lemma consume_adds:
  "consume T pr r s = s\<lparr>t_counts := t_counts s + t_counts (consume T pr r start_tally),
     t_out := t_out s @ t_out (consume T pr r start_tally),
     t_err := t_err s @ t_err (consume T pr r start_tally)\<rparr>"
  by (cases "rc_entries r")
    (simp_all add: consume_def consume_errs_eq consume_entries_eq start_tally_def add.assoc)

lemma fold_consume_adds:
  "fold (consume T pr) rs s = s\<lparr>t_counts := t_counts s + t_counts (fold (consume T pr) rs start_tally),
     t_out := t_out s @ t_out (fold (consume T pr) rs start_tally),
     t_err := t_err s @ t_err (fold (consume T pr) rs start_tally)\<rparr>"
proof (induction rs arbitrary: s)
  case (Cons r rs)
  show ?case
    using Cons.IH [of "consume T pr r s"] Cons.IH [of "consume T pr r start_tally"] consume_adds [of T pr r s]
    by (simp add: add.assoc)
qed (simp add: start_tally_def)

definition out_lines :: "flags \<Rightarrow> batch list \<Rightarrow> gostring" where
  "out_lines fl bs = (if fl_print fl then concat (concat (map batch_lines bs)) else [])"

definition err_lines :: "(errno \<Rightarrow> gostring) \<Rightarrow> flags \<Rightarrow> batch list \<Rightarrow> gostring" where
  "err_lines T fl bs = (if fl_print fl then concat (concat (map (error_lines T) bs)) else [])"

text \<open>A run of the tool on a tree: no panic, the counters of the tree, and its lines.\<close>

lemma ran_tree:
  assumes ran: "ran T cap gomaxprocs E fl r" and "0 < gomaxprocs" and fits: "pool_fits (cli_pool gomaxprocs fl)"
    and view: "view_ok E F"
    and c: "c = \<lparr>followLinks = fl_followLinks fl, maxDepth = ucast (fl_maxDepth fl), skipSet = set (cli_skip fl)\<rparr>"
    and f: "forest c F [spec_root c F (cli_root fl)] bs"
  shows "or_crash r = None \<and>
    (\<exists>abs. mset abs = mset bs \<and>
      (or_wait r = None \<longrightarrow> (\<forall>out er. runOnce T gomaxprocs E fl r (out, er) =
         Done (sum_list (map tally_of bs), or_elapsed r) (out @ out_lines fl abs, er @ err_lines T fl abs))))"
proof -
  let ?pr = "fl_print fl"
  obtain st where st: "cli_walker gomaxprocs fl = Ret st" "wm_ok st" "wm_conf st = c"
    and n: "length (wm_workers st) = nat (if fl_workers fl > 0 then fl_workers fl else gomaxprocs)"
    using cli_walker_ok [OF fits] c by auto
  have ne: "wm_workers st \<noteq> []" using n assms(2) by (auto split: if_splits)
  obtain it st0 where w: "Walk E (cli_root fl) st = Ret (it, st0)"
    and init: "tool_rel T ?pr cap c F bs (tool_start it st0) ((length bs, 0), 2 * length bs)"
    using tool_rel_Walk [OF st(2) ne view, of "cli_root fl" bs T ?pr cap] f st(3) by metis
  obtain x where run: "(tool_step T ?pr cap E)\<^sup>*\<^sup>* (tool_start it st0) x"
    and t: "tool_tally x = fold (consume T ?pr) (or_batches r) start_tally"
    and fin: "case or_crash r of None \<Rightarrow> tool_done x | Some p \<Rightarrow> \<exists>k h s. x = Tool (PoolCrashed p) k h s"
    using ran st(1) w by (auto simp: ran_def)
  obtain m where rel: "tool_rel T ?pr cap c F bs x m" using tool_rel_steps [OF run init view] by blast
  have none: "or_crash r = None"
  proof (rule ccontr)
    assume "or_crash r \<noteq> None"
    then obtain p k h s where "x = Tool (PoolCrashed p) k h s" using fin by auto
    then show False using rel by (auto simp: tool_rel_def conc_rel_def)
  qed
  then have "tool_done x" using fin by simp
  then obtain abs where m: "mset abs = mset bs"
    and "tool_tally x = fold (consume T ?pr) (map received_of abs) start_tally"
    using tool_rel_over [OF rel] by blast
  then have tally: "fold (consume T ?pr) (or_batches r) start_tally =
      \<lparr>t_counts = sum_list (map tally_of bs), t_out = out_lines fl abs, t_err = err_lines T fl abs\<rparr>"
    using t tally_cong [OF m] by (simp add: consume_all_eq start_tally_def out_lines_def err_lines_def)
  have "runOnce T gomaxprocs E fl r (out, er) =
      Done (sum_list (map tally_of bs), or_elapsed r) (out @ out_lines fl abs, er @ err_lines T fl abs)"
    if "or_wait r = None" for out er
    using that none fold_consume_adds [of T ?pr "or_batches r" "\<lparr>t_counts = 0, t_out = out, t_err = er\<rparr>"]
    by (simp add: runOnce_starts [OF fits] consume_walk_def tally)
  then show ?thesis using none m by blast
qed

lemma bench_loop_tree:
  assumes "\<And>j. j \<in> set js \<Longrightarrow> \<exists>abs. mset abs = mset bs \<and> (\<forall>out er. runOnce T gomaxprocs E fl (runs j) (out, er) =
      Done (cs, or_elapsed (runs j)) (out @ out_lines fl abs, er @ err_lines T fl abs))"
  shows "\<exists>abss. length abss = length js \<and> (\<forall>abs \<in> set abss. mset abs = mset bs) \<and>
     bench_loop T gomaxprocs E fl runs js b (out, er) =
       Done (fold bench_step (map (\<lambda>j. (cs, or_elapsed (runs j))) js) b)
         (out @ concat (map (out_lines fl) abss), er @ concat (map (err_lines T fl) abss))"
  using assms
proof (induction js arbitrary: b out er)
  case (Cons j js)
  obtain abs where m: "mset abs = mset bs"
    and one: "\<And>out er. runOnce T gomaxprocs E fl (runs j) (out, er) =
      Done (cs, or_elapsed (runs j)) (out @ out_lines fl abs, er @ err_lines T fl abs)"
    using Cons.prems [of j] by auto
  obtain abss where "length abss = length js" "\<forall>abs \<in> set abss. mset abs = mset bs"
    "bench_loop T gomaxprocs E fl runs js (bench_step (cs, or_elapsed (runs j)) b)
        (out @ out_lines fl abs, er @ err_lines T fl abs) =
       Done (fold bench_step (map (\<lambda>j. (cs, or_elapsed (runs j))) js) (bench_step (cs, or_elapsed (runs j)) b))
         ((out @ out_lines fl abs) @ concat (map (out_lines fl) abss), (er @ err_lines T fl abs) @ concat (map (err_lines T fl) abss))"
    using Cons.IH Cons.prems by (metis list.set_intros(2))
  then show ?case using m one by (intro exI [of _ "abs # abss"]) simp
qed simp

text \<open>
  C10. A bench prints the tree, too. For a \<open>--bench\<close> of at least 1 and at most \<open>2 ^ 45\<close>, on a file
  system whose walk under the flags is the finite list \<open>bs\<close>, when every run of the process is
  a run of the tool, in whatever interleaving and with whatever room in the channel, and no
  \<open>Wait\<close> reports an error: no worker panics, the process returns normally, and its output is,
  run by run, the lines of \<open>bs\<close> in some order (under \<open>--print\<close>), then the counters of the tree
  (unless \<open>--quiet\<close>) and the statistics of the times of the runs.
\<close>

theorem bench_prints_tree:
  assumes "0 < gomaxprocs" and "pool_fits (cli_pool gomaxprocs fl)" and "view_ok E F"
    and "0 < unat (fl_bench fl)" and "unat (fl_bench fl) \<le> 2 ^ 45"
    and "c = \<lparr>followLinks = fl_followLinks fl, maxDepth = ucast (fl_maxDepth fl), skipSet = set (cli_skip fl)\<rparr>"
    and "forest c F [spec_root c F (cli_root fl)] bs"
    and "\<forall>j < unat (fl_bench fl). ran T cap gomaxprocs E fl (runs j) \<and> or_wait (runs j) = None"
  shows "(\<forall>j < unat (fl_bench fl). or_crash (runs j) = None) \<and>
    (\<exists>abss. length abss = unat (fl_bench fl) \<and> (\<forall>abs \<in> set abss. mset abs = mset bs) \<and>
       main T D gomaxprocs E fl runs =
         Done ()
           (concat (map (out_lines fl) abss) @
            (if fl_quiet fl then [] else summary_line (sum_list (map tally_of bs))) @
            bench_line D (int (unat (fl_bench fl)))
              (fold bench_step (map (\<lambda>j. (sum_list (map tally_of bs), or_elapsed (runs j))) [0..<unat (fl_bench fl)])
                 bench_start),
            concat (map (err_lines T fl) abss)))"
proof -
  let ?n = "unat (fl_bench fl)" and ?cs = "sum_list (map tally_of bs)"
  note tree = ran_tree [OF _ assms(1-3,6,7)]
  obtain abss where abss: "length abss = ?n" "\<forall>abs \<in> set abss. mset abs = mset bs"
    and loop: "bench_loop T gomaxprocs E fl runs [0..<?n] bench_start ([], []) =
      Done (fold bench_step (map (\<lambda>j. (?cs, or_elapsed (runs j))) [0..<?n]) bench_start)
        (concat (map (out_lines fl) abss), concat (map (err_lines T fl) abss))"
    using bench_loop_tree [of "[0..<?n]" bs T gomaxprocs E fl runs ?cs bench_start "[]" "[]"] tree assms(8) by fastforce
  have n: "sint (fl_bench fl) = int ?n" by (rule sint_small) (use assms(5) in simp)
  have last: "bn_last (fold bench_step (map (\<lambda>j. (?cs, or_elapsed (runs j))) [0..<?n]) bench_start) = ?cs"
    using assms(4) by (cases ?n) (simp_all add: bench_step_sel)
  have "fl_bench fl > 0" using assms(4) by (simp add: word_gt_0 unat_gt_0)
  moreover have "make_fits 8 (sint (fl_bench fl))" using assms(5) by (simp only: bench_flag_fits)
  ultimately have "main T D gomaxprocs E fl runs =
      Done () (concat (map (out_lines fl) abss) @ (if fl_quiet fl then [] else summary_line ?cs) @
        bench_line D (int ?n) (fold bench_step (map (\<lambda>j. (?cs, or_elapsed (runs j))) [0..<?n]) bench_start),
        concat (map (err_lines T fl) abss))"
    using loop last by (simp add: main_def main_bench_def n Let_def)
  then show ?thesis using abss tree assms(8) by blast
qed

theorem bench_prints_tree_witness:
  "\<exists>r. ran (\<lambda>_. []) 1 2 demo_env (defaultFlags\<lparr>fl_followLinks := True, fl_args := [[116]], fl_bench := 2\<rparr>) r \<and>
     (\<exists>b. main (\<lambda>_. []) (\<lambda>_. []) 2 demo_env
        (defaultFlags\<lparr>fl_followLinks := True, fl_args := [[116]], fl_bench := 2\<rparr>) (\<lambda>_. r) =
      Done () (summary_line (Counts 1 1 0 1) @ bench_line (\<lambda>_. []) 2 b, []))"
proof -
  let ?fl = "defaultFlags\<lparr>fl_followLinks := True, fl_args := [[116]], fl_bench := 2\<rparr>"
  have fl: "pool_fits (cli_pool 2 ?fl)" "0 < unat (fl_bench ?fl)" "unat (fl_bench ?fl) \<le> 2 ^ 45" "fl_print ?fl = False"
    "fl_quiet ?fl = False" "unat (fl_bench ?fl) = 2" "cli_root ?fl = [116]"
    by (simp_all add: defaultFlags_def pool_fits_iff cli_pool_size cli_root_def)
  have c: "demo_conf True 0 = \<lparr>followLinks = fl_followLinks ?fl, maxDepth = ucast (fl_maxDepth ?fl), skipSet = set (cli_skip ?fl)\<rparr>"
    by (simp add: demo_conf_def defaultFlags_def cli_skip_def)
  have f: "forest (demo_conf True 0) demo_view [spec_root (demo_conf True 0) demo_view (cli_root ?fl)] (demo_batches True)"
    using demo_forest [of True] by (simp only: fl)
  obtain st where st: "cli_walker 2 ?fl = Ret st" "wm_ok st" "wm_conf st = demo_conf True 0"
    and "length (wm_workers st) = nat (if fl_workers ?fl > 0 then fl_workers ?fl else 2)"
    using cli_walker_ok [OF fl(1)] c by auto
  then have ne: "wm_workers st \<noteq> []" by (auto split: if_splits)
  obtain it st0 where w: "Walk demo_env (cli_root ?fl) st = Ret (it, st0)"
    and init: "tool_rel (\<lambda>_. []) False 1 (demo_conf True 0) demo_view (demo_batches True) (tool_start it st0)
      ((length (demo_batches True), 0), 2 * length (demo_batches True))"
    using tool_rel_Walk [OF st(2) ne demo_view_ok, of "cli_root ?fl" "demo_batches True" "\<lambda>_. []" False 1] f st(3) by metis
  obtain x where x: "(tool_step (\<lambda>_. []) False 1 demo_env)\<^sup>*\<^sup>* (tool_start it st0) x" "tool_done x"
    using tool_rel_finishes [OF init demo_view_ok] by blast
  obtain m where "tool_rel (\<lambda>_. []) False 1 (demo_conf True 0) demo_view (demo_batches True) x m"
    using tool_rel_steps [OF x(1) init demo_view_ok] by blast
  then obtain abs where t: "tool_tally x = fold (consume (\<lambda>_. []) False) (map received_of abs) start_tally"
    using tool_rel_over x(2) by blast
  define r where "r = \<lparr>or_batches = map received_of abs, or_crash = None, or_wait = None, or_elapsed = 7\<rparr>"
  have ran: "ran (\<lambda>_. []) 1 2 demo_env ?fl r"
    unfolding ran_def using st(1) w x t fl(4) by (auto simp: r_def)
  have sum: "sum_list (map tally_of (demo_batches True)) = Counts 1 1 0 1"
    by (simp add: demo_batches_simps tally_of_def demo_entry_def IsDir_def dt_defs)
  have "\<forall>j < unat (fl_bench ?fl). ran (\<lambda>_. []) 1 2 demo_env ?fl ((\<lambda>_. r) j) \<and> or_wait ((\<lambda>_. r) j) = None"
    using ran by (simp add: r_def)
  from bench_prints_tree [OF _ fl(1) demo_view_ok fl(2,3) c f this, of "\<lambda>_. []"]
  obtain abss where "main (\<lambda>_. []) (\<lambda>_. []) 2 demo_env ?fl (\<lambda>_. r) =
      Done () (concat (map (out_lines ?fl) abss) @ summary_line (Counts 1 1 0 1) @
        bench_line (\<lambda>_. []) (int 2) (fold bench_step (map (\<lambda>j. (Counts 1 1 0 1, or_elapsed r)) [0..<2]) bench_start),
        concat (map (err_lines (\<lambda>_. []) ?fl) abss))"
    by (auto simp: sum fl(5,6))
  moreover have "out_lines ?fl = (\<lambda>_. [])" "err_lines (\<lambda>_. []) ?fl = (\<lambda>_. [])"
    by (simp_all add: fun_eq_iff out_lines_def err_lines_def fl(4))
  ultimately have "main (\<lambda>_. []) (\<lambda>_. []) 2 demo_env ?fl (\<lambda>_. r) =
      Done () (summary_line (Counts 1 1 0 1) @
        bench_line (\<lambda>_. []) 2 (fold bench_step (map (\<lambda>j. (Counts 1 1 0 1, or_elapsed r)) [0..<2]) bench_start), [])"
    by simp
  then show ?thesis using ran by blast
qed

end
