(* ===== verification/Spec2Isabelle.thy ===== *)
theory Spec2Isabelle
  imports Generic_Store_Seq Cli_Whole
begin

text \<open>
  A verification development for \<open>walkman\<close>, a parallel directory walker in Go.

  \<^bold>\<open>The program.\<close> A walker (\<open>walkman.go\<close>) owns a configuration, one \<open>workerState\<close> per worker
  and, when symlinks are followed, a store of ancestor links shared by all workers. \<open>Walk\<close>
  submits one item, the root, to a work-stealing pool. A worker that runs a task opens the
  directory of its item with \<open>openat\<close>, reads it with \<open>getdents64\<close> (\<open>readdir_linux.go\<close>),
  copies names and paths into its own string arena (\<open>stores/string_store.go\<close>), its entries
  and errors into its own result arena (\<open>result_arena.go\<close>), sends one batch of slices of
  these arenas on the result channel, and spawns an item per subdirectory. The task that
  follows symlinks resolves links with \<open>stat\<close> and drops those that lead to a directory on
  the item's ancestor chain (\<open>ancestors.go\<close>), whose links live in a lock-free append-only
  store (\<open>stores/generic_store.go\<close>). The command-line tool (\<open>main/main.go\<close>) turns flags into
  a walker, consumes the batches, counts, prints, and times.

  \<^bold>\<open>Theories, in the order of the code's layers.\<close>
  \<^item> \<open>Prelude\<close>: machine types, run results (a value, a panic, no end), C strings, list lemmas.
  \<^item> \<open>Go_Memory\<close>: a heap of blocks, slices as spans, and what it means that cells once handed
    out are never written again (\<open>frozen\<close>, \<open>keeps\<close>). \<open>Append_Store\<close>: the interfaces as
    locales (an append-only store, one that hands out fresh cells, one that hands out C
    strings), interpreted on the string store, the generic store and the result arena.
  \<^item> \<open>String_Store\<close>, \<open>Go_Path\<close> (\<open>filepath.Clean\<close> and \<open>Join\<close>), \<open>Walk_Types\<close> (entries, errors,
    batches, modes).
  \<^item> \<open>Generic_Store\<close>: the lock-free store at the grain of its atomic operations, any number of
    threads, any interleaving. \<open>Generic_Store_Seq\<close>: the same calls as single operations, and
    that an undisturbed concurrent call computes them.
  \<^item> \<open>Result_Arena\<close>, \<open>Readdir\<close>, \<open>Ancestors\<close>: the components of a task.
  \<^item> \<open>Walkman\<close>: the state of the walker and \<open>visit\<close>, \<open>visitSym\<close>, \<open>NewWalkman\<close>, \<open>Walk\<close>.
  \<^item> \<open>Walk_Spec\<close>: what a task promises, over byte strings, lists and a view of the file system
    (\<open>fsview\<close>). \<open>Walk_Refine\<close>: the tasks implement it. \<open>Walk_Run\<close>: runs of the pool as a step
    relation, and that every run delivers the reference walk \<open>forest\<close> up to order.
  \<^item> \<open>Conc_Tasks\<close>: both tasks again, as programs whose operations (a directory read, a stored
    path, a reservation, a pass of a loop, the send, the spawn) other workers interleave with;
    alone they compute \<open>visit\<close> and \<open>visitSym\<close>. \<open>Conc_Refine\<close>: what such a program promises
    under interference (\<open>rely\<close>, \<open>guar\<close>, the simulation \<open>sim\<close>). \<open>Conc_Run\<close>: every interleaving of
    every number of workers delivers the reference walk, gets stuck nowhere and ends.
    \<open>Conc_Channel\<close>: the same pool with a bounded result channel and the tool's loop as the
    receiver, and what happens when nobody receives.
  \<^item> \<open>Walk_Props\<close>, \<open>Walk_Ends\<close>, \<open>Walk_Deviations\<close>: completeness, pruning, limits; why walks
    end; edges at odds with the documentation. \<open>Walk_Demo\<close>: concrete kernels for witnesses.
  \<^item> \<open>Cli\<close>, \<open>Cli_Run\<close>, \<open>Cli_Props\<close>, \<open>Cli_Bench\<close>: the tool, its consuming loop beside the pool
    (whole tasks as steps; see also \<open>Conc_Channel\<close>), its flags and counters, the bench loop and
    every way the process ends. \<open>Cli_Whole\<close>: a single run and a bench from the flags to
    the output.

  \<^bold>\<open>Parameters\<close> (\<open>env\<close>, \<open>kernel\<close>): what \<open>openat\<close>, \<open>getdents64\<close> and \<open>stat\<close> answer, and the
  capacity the runtime picks when a slice grows. The hypothesis \<open>view_ok\<close> says that the kernel
  serves well-formed \<open>linux_dirent64\<close> records and that the file system stands still during
  the walk; \<open>names_ok\<close>, where paths are split into names, that an entry's name is not empty
  and holds no slash. The pool is outside the repository: a run is any sequence of tasks, each taking
  any pending item on any worker, in \<open>Walk_Run\<close> with whole tasks as steps, in \<open>Conc_Run\<close> with
  their operations as steps, the push of an ancestor link being one of them (its atomic
  instructions are the subject of \<open>Generic_Store\<close>). For the tool, what \<open>flag.Parse\<close> leaves
  in the flags, the clock, the texts of errnos and durations, the result of \<open>Wait\<close>, and of each run the batches
  received and the panic of a worker, if any; \<open>ran\<close> (\<open>Cli_Whole\<close>) says which answers the runs of
  \<open>Conc_Channel\<close> give. The room of the result
  channel (\<open>ResultBuffSize\<close>) is any number in \<open>Conc_Channel\<close> and without limit before it.

  \<^bold>\<open>Bounds and loops.\<close> Depths and counters are 32-bit words and wrap around; the offset of a
  generic-store node is a 64-bit word. Lengths and offsets in Go's \<open>int\<close> are naturals or
  integers. Loops with an evident measure are total functions; \<open>getdents_loop\<close> and \<open>hasCycle\<close>
  are partial functions, with theorems on when they return. There is no fuel. The lengths
  \<open>make\<close> gets from outside, the number of workers and the bench capacity, are checked against
  \<open>maxAlloc\<close> as the runtime does (\<open>make_fits\<close>); the other lengths are those of data in memory.

  \<^bold>\<open>Not modelled.\<close> The pool's own code (\<open>workstealpool\<close>, another module): how it finds
  work for a worker and when it closes the channel; \<open>Wait\<close>, which only forwards to it;
  closing the descriptor of a directory; garbage collection and the capacities of scratch slices whose contents are never
  read again; exhaustion of memory below the limit of \<open>make\<close>; the Rust programs and the scripts used as benchmark
  opponents.
\<close>

end
